(* ===== verification/Daftari_Base.thy ===== *)
theory Daftari_Base
  imports Main "HOL-Library.AList" "HOL-Library.List_Lexorder" "HOL-Library.Char_ord"
    "HOL-Library.Multiset" "HOL-Library.Log_Nat" "HOL-Library.Sublist" "HOL-Library.Code_Target_Nat"
begin

text \<open>
  The prelude of the development: the \<^theory_text>\<open>named_theorems\<close> collections, the pieces of
  JavaScript every component uses (strings, numbers read from ids, insertion-ordered
  \<^verbatim>\<open>Map\<close>s, \<^verbatim>\<open>Array.prototype.sort\<close> with a comparator) and two interfaces shared by several
  components, as locales: \<open>comparator\<close> (what a sort needs of its comparison function) and
  \<open>id_allocator\<close> (the "highest numeric suffix plus one" id scheme the tension log, the
  staged-action log and the positions all use).

  Strings are \<open>string\<close>, read as the UTF-8 bytes of the program's string. A
  \<^verbatim>\<open>Map\<close> is an association list in insertion order: \<open>AList.update\<close> replaces in place or
  appends, as \<^verbatim>\<open>Map.set\<close> does, and \<open>map_of\<close> looks up.
\<close>

named_theorems board_simps "equations of the board's event fold"
named_theorems store_simps "equations of the stores' operations"

section \<open>Association lists as insertion-ordered maps\<close>

type_synonym ('k, 'v) jmap = "('k \<times> 'v) list"

abbreviation jkeys :: "('k, 'v) jmap \<Rightarrow> 'k list" where
  "jkeys m \<equiv> map fst m"

lemma map_of_update [simp]: "map_of (AList.update k v m) = (map_of m)(k \<mapsto> v)"
  by (rule update_conv')

lemma map_of_delete [simp]: "map_of (AList.delete k m) = (map_of m)(k := None)"
  by (rule delete_conv')

lemma jkeys_update:
  "jkeys (AList.update k v m) = (if k \<in> set (jkeys m) then jkeys m else jkeys m @ [k])"
  by (rule update_keys)

lemma keys_update [simp]: "fst ` set (AList.update k v m) = insert k (fst ` set m)"
  by (induction m) auto

lemma distinct_jkeys_update [intro]: "distinct (jkeys m) \<Longrightarrow> distinct (jkeys (AList.update k v m))"
  by (rule distinct_update)

text \<open>Looking up and writing back an entry that satisfies \<open>P\<close> keeps \<open>P\<close> of all entries.\<close>

lemma update_entries:
  "\<forall>(k', v') \<in> set m. P k' v' \<Longrightarrow> P k v \<Longrightarrow> \<forall>(k', v') \<in> set (AList.update k v m). P k' v'"
  by (induction m) auto

lemma distinct_filter_keys [intro]: "distinct (jkeys m) \<Longrightarrow> distinct (jkeys (filter P m))"
  by (induction m) auto

text \<open>Indexing a list by a key: the loop \<^verbatim>\<open>for (d of docs) m.set(key(d), d)\<close>.\<close>

definition index_by :: "('a \<Rightarrow> 'k) \<Rightarrow> 'a list \<Rightarrow> ('k, 'a) jmap" where
  "index_by f xs = foldl (\<lambda>m x. AList.update (f x) x m) [] xs"

lemma index_by_snoc [simp]: "index_by f (xs @ [x]) = AList.update (f x) x (index_by f xs)"
  by (simp add: index_by_def)

lemma index_by_Nil [simp]: "index_by f [] = []"
  by (simp add: index_by_def)

lemma index_by_sound: "map_of (index_by f xs) k = Some x \<Longrightarrow> x \<in> set xs \<and> f x = k"
  by (induction xs rule: rev_induct) (auto split: if_splits)

lemma index_by_None: "map_of (index_by f xs) k = None \<longleftrightarrow> k \<notin> f ` set xs"
  by (induction xs rule: rev_induct) auto

lemma index_by_lookup: "distinct (map f xs) \<Longrightarrow> x \<in> set xs \<Longrightarrow> map_of (index_by f xs) (f x) = Some x"
proof (induction xs rule: rev_induct)
  case (snoc y xs)
  show ?case
  proof (cases "x = y")
    case False
    with snoc.prems have "x \<in> set xs" "f y \<notin> f ` set xs" by auto
    then have "f x \<noteq> f y" by (metis imageI)
    with snoc \<open>x \<in> set xs\<close> show ?thesis by simp
  qed simp
qed simp

lemma distinct_index_by: "distinct (jkeys (index_by f xs))"
  by (induction xs rule: rev_induct) auto

lemma map_of_filter_distinct:
  "distinct (jkeys m) \<Longrightarrow>
   map_of (filter P m) k = (case map_of m k of None \<Rightarrow> None | Some v \<Rightarrow> if P (k, v) then Some v else None)"
proof (induction m)
  case Nil
  then show ?case by simp
next
  case (Cons e m)
  obtain k' v where e: "e = (k', v)" by (cases e)
  have none: "k' = k \<Longrightarrow> map_of m k = None"
    using Cons.prems e by (auto simp: map_of_eq_None_iff)
  then show ?case using Cons e by (auto split: option.splits)
qed

section \<open>Sorting with a comparator\<close>

text \<open>
  \<^verbatim>\<open>Array.prototype.sort\<close> is stable. \<open>js_sort\<close> inserts from the right, each element before
  the first one it does not follow, so elements the comparator calls equal keep their order.
\<close>

fun js_insert :: "('a \<Rightarrow> 'a \<Rightarrow> int) \<Rightarrow> 'a \<Rightarrow> 'a list \<Rightarrow> 'a list" where
  "js_insert cmp x [] = [x]"
| "js_insert cmp x (y # ys) = (if cmp x y \<le> 0 then x # y # ys else y # js_insert cmp x ys)"

fun js_sort :: "('a \<Rightarrow> 'a \<Rightarrow> int) \<Rightarrow> 'a list \<Rightarrow> 'a list" where
  "js_sort cmp [] = []"
| "js_sort cmp (x # xs) = js_insert cmp x (js_sort cmp xs)"

lemma mset_js_insert [simp]: "mset (js_insert cmp x xs) = add_mset x (mset xs)"
  by (induction xs) auto

lemma mset_js_sort [simp]: "mset (js_sort cmp xs) = mset xs"
  by (induction xs) auto

lemma set_js_insert [simp]: "set (js_insert cmp x xs) = insert x (set xs)"
  by (induction xs) auto

lemma set_js_sort [simp]: "set (js_sort cmp xs) = set xs"
  by (induction xs) auto

lemma length_js_sort [simp]: "length (js_sort cmp xs) = length xs"
  by (metis mset_js_sort size_mset)

lemma distinct_js_sort [simp]: "distinct (js_sort cmp xs) = distinct xs"
  by (metis mset_js_sort mset_eq_imp_distinct_iff)

definition cmp_sorted :: "('a \<Rightarrow> 'a \<Rightarrow> int) \<Rightarrow> 'a list \<Rightarrow> bool" where
  "cmp_sorted cmp = sorted_wrt (\<lambda>x y. cmp x y \<le> 0)"

lemma cmp_sorted_simps [simp]:
  "cmp_sorted cmp []"
  "cmp_sorted cmp (x # xs) \<longleftrightarrow> (\<forall>y \<in> set xs. cmp x y \<le> 0) \<and> cmp_sorted cmp xs"
  by (auto simp: cmp_sorted_def)

text \<open>The contract of a comparator: the sign flips with the arguments, and \<open>\<le> 0\<close> is transitive.\<close>

locale comparator =
  fixes cmp :: "'a \<Rightarrow> 'a \<Rightarrow> int"
  assumes cmp_flip: "cmp x y \<le> 0 \<longleftrightarrow> cmp y x \<ge> 0"
    and cmp_trans: "cmp x y \<le> 0 \<Longrightarrow> cmp y z \<le> 0 \<Longrightarrow> cmp x z \<le> 0"
begin

lemma cmp_total: "\<not> cmp x y \<le> 0 \<Longrightarrow> cmp y x \<le> 0"
  using cmp_flip [of y x] by linarith

lemma sorted_insert: "cmp_sorted cmp ys \<Longrightarrow> cmp_sorted cmp (js_insert cmp x ys)"
  by (induction ys) (auto dest: cmp_total intro: cmp_trans)

lemma sorted_sort: "cmp_sorted cmp (js_sort cmp xs)"
  by (induction xs) (auto intro: sorted_insert)

lemma insert_sorted_head: "\<forall>y \<in> set ys. cmp x y \<le> 0 \<Longrightarrow> js_insert cmp x ys = x # ys"
  by (cases ys) auto

lemma sort_sorted: "cmp_sorted cmp xs \<Longrightarrow> js_sort cmp xs = xs"
  by (induction xs) (auto simp: insert_sorted_head)

lemma sort_idem: "js_sort cmp (js_sort cmp xs) = js_sort cmp xs"
  by (rule sort_sorted [OF sorted_sort])

lemma sorted_unique:
  assumes "cmp_sorted cmp xs" "cmp_sorted cmp ys" "mset xs = mset ys"
    and strict: "\<forall>x \<in> set xs. \<forall>y \<in> set xs. cmp x y \<le> 0 \<longrightarrow> cmp y x \<le> 0 \<longrightarrow> x = y"
  shows "xs = ys"
  using assms
proof (induction xs arbitrary: ys)
  case Nil
  then show ?case by simp
next
  case (Cons x xs)
  then obtain y ys' where ys: "ys = y # ys'"
    by (cases ys) auto
  have same: "set (x # xs) = set ys"
    using Cons.prems(3) by (rule mset_eq_setD)
  then have y_in: "y \<in> set (x # xs)" and x_in: "x \<in> set ys" using ys by auto
  have refl_le: "cmp z z \<le> 0" for z using cmp_total by blast
  have "cmp x y \<le> 0" using y_in Cons.prems(1) refl_le by auto
  moreover have "cmp y x \<le> 0" using x_in Cons.prems(2) refl_le ys by auto
  ultimately have "x = y" using Cons.prems(4) y_in by auto
  moreover have "xs = ys'"
    using Cons.prems ys \<open>x = y\<close> by (intro Cons.IH) auto
  ultimately show ?case using ys by simp
qed

text \<open>With a comparator that tells distinct elements apart, the input's order is irrelevant.\<close>

lemma sort_cong_mset:
  assumes "mset xs = mset ys"
    and "\<forall>x \<in> set xs. \<forall>y \<in> set xs. cmp x y \<le> 0 \<longrightarrow> cmp y x \<le> 0 \<longrightarrow> x = y"
  shows "js_sort cmp xs = js_sort cmp ys"
  using assms by (intro sorted_unique) (auto simp: sorted_sort)

end

text \<open>The comparators the program writes: by a key, and one after another.\<close>

definition cmp_key :: "('a \<Rightarrow> 'k::linorder) \<Rightarrow> 'a \<Rightarrow> 'a \<Rightarrow> int" where
  "cmp_key f x y = (if f x < f y then - 1 else if f y < f x then 1 else 0)"

definition cmp_then :: "('a \<Rightarrow> 'a \<Rightarrow> int) \<Rightarrow> ('a \<Rightarrow> 'a \<Rightarrow> int) \<Rightarrow> 'a \<Rightarrow> 'a \<Rightarrow> int" where
  "cmp_then c d x y = (if c x y \<noteq> 0 then c x y else d x y)"

definition cmp_desc :: "('a \<Rightarrow> 'a \<Rightarrow> int) \<Rightarrow> 'a \<Rightarrow> 'a \<Rightarrow> int" where
  "cmp_desc c x y = c y x"

lemma comparator_key: "comparator (cmp_key f)"
  by (unfold_locales) (auto simp: cmp_key_def split: if_splits)

lemma comparator_desc: "comparator c \<Longrightarrow> comparator (cmp_desc c)"
  unfolding comparator_def cmp_desc_def by (meson order_refl)

lemma comparator_then:
  assumes "comparator c" and "comparator d"
  shows "comparator (cmp_then c d)"
proof -
  have flip: "c x y \<le> 0 \<longleftrightarrow> c y x \<ge> 0" "d x y \<le> 0 \<longleftrightarrow> d y x \<ge> 0" for x y
    using assms by (auto simp: comparator_def)
  have trans: "c x y \<le> 0 \<Longrightarrow> c y z \<le> 0 \<Longrightarrow> c x z \<le> 0"
    "d x y \<le> 0 \<Longrightarrow> d y z \<le> 0 \<Longrightarrow> d x z \<le> 0" for x y z
    using assms unfolding comparator_def by blast+
  have zero: "c x y = 0 \<longleftrightarrow> c y x = 0" for x y
    using flip(1) [of x y] flip(1) [of y x] by linarith
  have strict: "c x y \<le> 0 \<Longrightarrow> c y z \<le> 0 \<Longrightarrow> c x z = 0 \<Longrightarrow> c x y = 0 \<and> c y z = 0" for x y z
    using trans(1) [of z x y] trans(1) [of y z x] flip(1) [of x y] flip(1) [of y z] flip(1) [of z x]
      zero [of x z] zero [of x y] zero [of y z] by force
  show ?thesis
  proof
    fix x y
    show "cmp_then c d x y \<le> 0 \<longleftrightarrow> cmp_then c d y x \<ge> 0"
      using flip [of x y] zero [of x y] by (auto simp: cmp_then_def)
  next
    fix x y z
    assume "cmp_then c d x y \<le> 0" and "cmp_then c d y z \<le> 0"
    then show "cmp_then c d x z \<le> 0"
      using strict [of x y z] trans [of x y z] unfolding cmp_then_def
      by (smt (verit) trans(1))
  qed
qed

text \<open>The elements of a JavaScript \<^verbatim>\<open>Set\<close> built from a list: first occurrences, in order.\<close>

definition remdups_first :: "'a list \<Rightarrow> 'a list" where
  "remdups_first xs = foldl (\<lambda>acc x. if x \<in> set acc then acc else acc @ [x]) [] xs"

lemma remdups_first_snoc [simp]:
  "remdups_first (xs @ [x]) = (if x \<in> set xs then remdups_first xs else remdups_first xs @ [x])"
  "set (remdups_first xs) = set xs"
proof -
  show set: "set (remdups_first xs) = set xs" for xs :: "'a list"
    by (induction xs rule: rev_induct) (auto simp: remdups_first_def)
  show "remdups_first (xs @ [x]) = (if x \<in> set xs then remdups_first xs else remdups_first xs @ [x])"
    using set [of xs] by (simp add: remdups_first_def)
qed

lemma remdups_first_Nil [simp]: "remdups_first [] = []"
  by (simp add: remdups_first_def)

lemma distinct_remdups_first [simp]: "distinct (remdups_first xs)"
  by (induction xs rule: rev_induct) auto

section \<open>Strings\<close>

text \<open>
  \<^verbatim>\<open>String.prototype.trim\<close> and \<^verbatim>\<open>\s\<close> know the same white space: tab, line feed, vertical tab,
  form feed, carriage return, space and, in UTF-8, U+00A0, U+FEFF, U+1680, U+2000 to U+200A,
  U+2028, U+2029, U+202F, U+205F and U+3000.
\<close>

definition js_spaces :: "string list" where
  "js_spaces = [[CHR 0x09], [CHR 0x0A], [CHR 0x0B], [CHR 0x0C], [CHR 0x0D], [CHR 0x20],
     [CHR 0xC2, CHR 0xA0], [CHR 0xEF, CHR 0xBB, CHR 0xBF], [CHR 0xE1, CHR 0x9A, CHR 0x80],
     [CHR 0xE2, CHR 0x80, CHR 0x80], [CHR 0xE2, CHR 0x80, CHR 0x81],
     [CHR 0xE2, CHR 0x80, CHR 0x82], [CHR 0xE2, CHR 0x80, CHR 0x83],
     [CHR 0xE2, CHR 0x80, CHR 0x84], [CHR 0xE2, CHR 0x80, CHR 0x85],
     [CHR 0xE2, CHR 0x80, CHR 0x86], [CHR 0xE2, CHR 0x80, CHR 0x87],
     [CHR 0xE2, CHR 0x80, CHR 0x88], [CHR 0xE2, CHR 0x80, CHR 0x89],
     [CHR 0xE2, CHR 0x80, CHR 0x8A], [CHR 0xE2, CHR 0x80, CHR 0xA8],
     [CHR 0xE2, CHR 0x80, CHR 0xA9], [CHR 0xE2, CHR 0x80, CHR 0xAF],
     [CHR 0xE2, CHR 0x81, CHR 0x9F], [CHR 0xE3, CHR 0x80, CHR 0x80]]"

fun strip_one :: "string list \<Rightarrow> string \<Rightarrow> string option" where
  "strip_one [] s = None"
| "strip_one (w # ws) s =
     (if w \<noteq> [] \<and> take (length w) s = w then Some (drop (length w) s) else strip_one ws s)"

lemma strip_one_shorter: "strip_one ws s = Some t \<Longrightarrow> length t < length s"
proof (induction ws)
  case Nil
  then show ?case by simp
next
  case (Cons w ws)
  then show ?case by (cases s) (auto split: if_splits)
qed

function strip_all :: "string list \<Rightarrow> string \<Rightarrow> string" where
  "strip_all ws s = (case strip_one ws s of None \<Rightarrow> s | Some t \<Rightarrow> strip_all ws t)"
  by pat_completeness auto
termination
  by (relation "measure (\<lambda>(ws, s). length s)") (auto dest: strip_one_shorter)

declare strip_all.simps [simp del]

definition trim_start :: "string \<Rightarrow> string" where
  "trim_start s = strip_all js_spaces s"

definition trim_end :: "string \<Rightarrow> string" where
  "trim_end s = rev (strip_all (map rev js_spaces) (rev s))"

definition js_trim :: "string \<Rightarrow> string" where
  "js_trim s = trim_end (trim_start s)"

lemma strip_all_stuck: "strip_one ws (strip_all ws s) = None"
proof (induction ws s rule: strip_all.induct)
  case (1 ws s)
  then show ?case
    by (subst strip_all.simps) (auto split: option.splits)
qed

lemma strip_all_none: "strip_one ws s = None \<Longrightarrow> strip_all ws s = s"
  by (subst strip_all.simps) simp

lemma strip_all_idem [simp]: "strip_all ws (strip_all ws s) = strip_all ws s"
  by (rule strip_all_none) (rule strip_all_stuck)

lemma strip_one_Nil [simp]: "strip_one ws [] = None"
  by (induction ws) auto

lemma js_trim_Nil [simp]: "js_trim [] = []"
  by (simp add: js_trim_def trim_start_def trim_end_def strip_all_none)

text \<open>Facts about trimming: a prefix of a string that starts with no space starts with none.\<close>

lemma strip_one_None: "strip_one ws s = None \<longleftrightarrow> (\<forall>w \<in> set ws. w = [] \<or> take (length w) s \<noteq> w)"
  by (induction ws) auto

lemma strip_one_prefix: "strip_one ws (s @ t) = None \<Longrightarrow> strip_one ws s = None"
  by (auto simp: strip_one_None)

lemma strip_all_suffix: "\<exists>p. s = p @ strip_all ws s"
proof (induction ws s rule: strip_all.induct)
  case (1 ws s)
  show ?case
  proof (cases "strip_one ws s")
    case None
    then show ?thesis by (simp add: strip_all_none)
  next
    case (Some t)
    then have "\<exists>p. s = p @ t" by (induction ws) (auto split: if_splits, metis append_take_drop_id)
    moreover have "strip_all ws s = strip_all ws t" by (simp add: strip_all.simps [of ws s] Some)
    ultimately show ?thesis using 1 [OF Some] by (metis append.assoc)
  qed
qed

lemma strip_all_id: "strip_all ws s = s \<longleftrightarrow> strip_one ws s = None"
  using strip_all_none strip_all_stuck by metis

lemma trim_end_prefix: "\<exists>q. s = trim_end s @ q"
proof -
  obtain p where "rev s = p @ strip_all (map rev js_spaces) (rev s)" using strip_all_suffix by blast
  then have "s = rev (strip_all (map rev js_spaces) (rev s)) @ rev p" by (metis rev_append rev_rev_ident)
  then show ?thesis by (auto simp: trim_end_def)
qed

lemma js_trim_ends:
  "strip_one js_spaces (js_trim s) = None" "strip_one (map rev js_spaces) (rev (js_trim s)) = None"
proof -
  obtain q where "trim_start s = js_trim s @ q" using trim_end_prefix by (auto simp: js_trim_def)
  then show "strip_one js_spaces (js_trim s) = None"
    using strip_all_stuck [of js_spaces s] strip_one_prefix by (metis trim_start_def)
  show "strip_one (map rev js_spaces) (rev (js_trim s)) = None"
    by (simp add: js_trim_def trim_end_def strip_all_stuck)
qed

lemma js_trim_id:
  "js_trim s = s \<longleftrightarrow> strip_one js_spaces s = None \<and> strip_one (map rev js_spaces) (rev s) = None"
  using js_trim_ends [of s] by (metis js_trim_def rev_rev_ident strip_all_id trim_end_def trim_start_def)

lemma js_trim_idem [simp]: "js_trim (js_trim s) = js_trim s"
  using js_trim_ends js_trim_id by metis

lemma js_spaces_Cons:
  "strip_one js_spaces (CHR '' '' # s) = Some s"
  "strip_one (map rev js_spaces) (CHR 0x0A # s) = Some s"
  by (simp_all add: js_spaces_def)

lemma strip_space [simp]: "strip_all js_spaces (CHR '' '' # s) = strip_all js_spaces s"
  by (subst strip_all.simps) (simp add: js_spaces_Cons)

text \<open>\<^verbatim>\<open>split\<close> by one character, and \<^verbatim>\<open>join\<close>.\<close>

fun split_on :: "char \<Rightarrow> string \<Rightarrow> string list" where
  "split_on c [] = [[]]"
| "split_on c (x # xs) =
     (if x = c then [] # split_on c xs
      else (case split_on c xs of [] \<Rightarrow> [[x]] | w # ws \<Rightarrow> (x # w) # ws))"

fun join_with :: "string \<Rightarrow> string list \<Rightarrow> string" where
  "join_with sep [] = []"
| "join_with sep [w] = w"
| "join_with sep (w # v # ws) = w @ sep @ join_with sep (v # ws)"

lemma split_on_nonempty [simp]: "split_on c s \<noteq> []"
  by (induction s) (auto split: list.splits)

lemma split_on_plain: "c \<notin> set s \<Longrightarrow> split_on c s = [s]"
  by (induction s) auto

lemma split_on_append: "c \<notin> set w \<Longrightarrow> split_on c (w @ c # s) = w # split_on c s"
  by (induction w) auto

lemma split_join:
  "ws \<noteq> [] \<Longrightarrow> \<forall>w \<in> set ws. c \<notin> set w \<Longrightarrow> split_on c (join_with [c] ws) = ws"
  by (induction "[c]" ws rule: join_with.induct) (auto simp: split_on_plain split_on_append)

definition first_segment :: "string \<Rightarrow> string" where
  "first_segment p = hd (split_on (CHR ''/'') p)"

section \<open>Decimal numbers in ids\<close>

text \<open>
  A number is printed by \<open>dec\<close> and read back by \<open>dec_value\<close>. \<^verbatim>\<open>Number.parseInt\<close> returns the
  nearest double, ties to the even significand, so an integer of more than 53 bits is rounded
  (\<open>js_int\<close>); from \<open>2 ^ 1024\<close> on the result is infinite.
\<close>

definition digit :: "nat \<Rightarrow> char" where
  "digit n = char_of (48 + n)"

definition is_digit :: "char \<Rightarrow> bool" where
  "is_digit c \<longleftrightarrow> c \<in> set ''0123456789''"

fun dec :: "nat \<Rightarrow> string" where
  "dec n = (if n < 10 then [digit n] else dec (n div 10) @ [digit (n mod 10)])"

declare dec.simps [simp del]

definition dec_value :: "string \<Rightarrow> nat" where
  "dec_value s = foldl (\<lambda>a c. 10 * a + (of_char c - 48)) 0 s"

definition pad_left :: "nat \<Rightarrow> char \<Rightarrow> string \<Rightarrow> string" where
  "pad_left k c s = replicate (k - length s) c @ s"

definition js_int :: "nat \<Rightarrow> nat" where
  "js_int n = (let b = floorlog 2 n in
     if b \<le> 53 then n
     else let s = b - 53; q = n div 2 ^ s; r = n mod 2 ^ s
          in (if 2 * r > 2 ^ s \<or> (2 * r = 2 ^ s \<and> odd q) then q + 1 else q) * 2 ^ s)"

lemma of_char_digit [simp]: "n < 10 \<Longrightarrow> (of_char (digit n) :: nat) = 48 + n"
  by (simp add: digit_def)

lemma is_digit_zero [simp]: "is_digit (CHR ''0'')"
  by (simp add: is_digit_def)

lemma is_digit_digit [simp]: "n < 10 \<Longrightarrow> is_digit (digit n)"
proof -
  assume "n < 10"
  then have "n = 0 \<or> n = 1 \<or> n = 2 \<or> n = 3 \<or> n = 4 \<or> n = 5 \<or> n = 6 \<or> n = 7 \<or> n = 8 \<or> n = 9"
    by presburger
  then show ?thesis
    by (elim disjE) (simp_all add: is_digit_def digit_def char_of_def bit_iff_odd)
qed

lemma dec_nonempty [simp]: "dec n \<noteq> []"
  by (subst dec.simps) simp

lemma dec_digits: "\<forall>c \<in> set (dec n). is_digit c"
proof (induction n rule: dec.induct)
  case (1 n)
  then show ?case by (subst dec.simps) auto
qed

lemma dec_value_append: "dec_value (s @ [c]) = 10 * dec_value s + (of_char c - 48)"
  by (simp add: dec_value_def)

lemma dec_value_dec [simp]: "dec_value (dec n) = n"
proof (induction n rule: dec.induct)
  case (1 n)
  show ?case
  proof (cases "n < 10")
    case True
    then show ?thesis by (subst dec.simps) (simp add: dec_value_def)
  next
    case False
    with 1 show ?thesis by (subst dec.simps) (simp add: dec_value_append)
  qed
qed

lemma dec_value_zeros [simp]: "dec_value (replicate k (CHR ''0'') @ s) = dec_value s"
  by (induction k) (auto simp: dec_value_def)

lemma dec_value_pad [simp]: "dec_value (pad_left k (CHR ''0'') s) = dec_value s"
  by (simp add: pad_left_def)

lemma js_int_exact: "n < 2 ^ 53 \<Longrightarrow> js_int n = n"
  by (simp add: js_int_def floorlog_le_iff)

text \<open>
  \<open>seq_suffix pre s\<close>: the number a string has when it matches \<^verbatim>\<open>^<pre>(\d+)$\<close> and parses to a
  finite number. \<open>max_suffix\<close> is the loop that keeps the largest, starting at 0, and
  \<open>seq_render\<close> the next id, padded to three digits.
\<close>

definition seq_suffix :: "string \<Rightarrow> string \<Rightarrow> nat option" where
  "seq_suffix pre s =
     (let d = drop (length pre) s in
      if take (length pre) s = pre \<and> d \<noteq> [] \<and> list_all is_digit d \<and> js_int (dec_value d) < 2 ^ 1024
      then Some (js_int (dec_value d)) else None)"

fun max_suffix :: "string \<Rightarrow> string list \<Rightarrow> nat \<Rightarrow> nat" where
  "max_suffix pre [] m = m"
| "max_suffix pre (s # ss) m =
     max_suffix pre ss (case seq_suffix pre s of None \<Rightarrow> m | Some n \<Rightarrow> if n > m then n else m)"

definition seq_render :: "string \<Rightarrow> nat \<Rightarrow> string" where
  "seq_render pre n = pre @ pad_left 3 (CHR ''0'') (dec n)"

lemma max_suffix_ge: "m \<le> max_suffix pre ss m"
proof (induction ss arbitrary: m)
  case Nil
  then show ?case by simp
next
  case (Cons s ss)
  have "m \<le> (case seq_suffix pre s of None \<Rightarrow> m | Some n \<Rightarrow> if n > m then n else m)"
    by (auto split: option.splits)
  then show ?case using Cons le_trans by fastforce
qed

lemma max_suffix_bound: "s \<in> set ss \<Longrightarrow> seq_suffix pre s = Some n \<Longrightarrow> n \<le> max_suffix pre ss m"
proof (induction ss arbitrary: m)
  case Nil
  then show ?case by simp
next
  case (Cons t ss)
  show ?case
  proof (cases "s = t")
    case True
    let ?m = "if n > m then n else m"
    have "n \<le> ?m" by simp
    also have "\<dots> \<le> max_suffix pre ss ?m" by (rule max_suffix_ge)
    finally show ?thesis using True Cons.prems by simp
  next
    case False
    then show ?thesis using Cons by auto
  qed
qed

lemma seq_suffix_render:
  "n < 2 ^ 53 \<Longrightarrow> seq_suffix pre (seq_render pre n) = Some n"
proof -
  assume n: "n < 2 ^ 53"
  have "(2::nat) ^ 53 \<le> 2 ^ 1024" by (rule power_increasing) auto
  with n have fin: "n < 2 ^ 1024" by linarith
  have "list_all is_digit (pad_left 3 (CHR ''0'') (dec n))"
    using dec_digits [of n] by (auto simp: pad_left_def list_all_iff)
  moreover have "pad_left 3 (CHR ''0'') (dec n) \<noteq> []" by (simp add: pad_left_def)
  ultimately show ?thesis
    using fin n by (simp add: seq_suffix_def seq_render_def js_int_exact del: power_increasing_iff)
qed

lemma max_suffix_render:
  "n < 2 ^ 53 \<Longrightarrow> max_suffix pre (seq_render pre n # ss) m = max_suffix pre ss (max m n)"
  by (simp add: seq_suffix_render max_def)

lemma seq_render_small: "n < 10 \<Longrightarrow> seq_render pre n = pre @ ''00'' @ [digit n]"
  by (simp add: seq_render_def pad_left_def dec.simps numeral_eq_Suc)

text \<open>
  The interface of the three id allocators: from a store they render the id after the largest
  suffix of the ids the store holds. Its client lemma is freshness, as long as the suffixes
  stay below \<open>2 ^ 53 - 1\<close>, where numbers are exact.
\<close>

locale id_allocator =
  fixes pre :: string
    and ids :: "'s \<Rightarrow> string list"
    and next_id :: "'s \<Rightarrow> string"
  assumes next_id_eq: "next_id s = seq_render pre (js_int (max_suffix pre (ids s) 0 + 1))"
begin

lemma allocated_suffix:
  assumes "max_suffix pre (ids s) 0 < 2 ^ 53 - 1"
  shows "seq_suffix pre (next_id s) = Some (max_suffix pre (ids s) 0 + 1)"
  using assms by (simp add: next_id_eq js_int_exact seq_suffix_render)

lemma fresh:
  assumes "max_suffix pre (ids s) 0 < 2 ^ 53 - 1"
  shows "next_id s \<notin> set (ids s)"
proof
  assume "next_id s \<in> set (ids s)"
  from max_suffix_bound [OF this allocated_suffix [OF assms], of 0] show False by simp
qed

end

section \<open>Loops that may throw\<close>

text \<open>
  A loop whose body may throw and otherwise pushes results on two arrays: the arrays so far are
  threaded, the first exception ends it.
\<close>

fun collect :: "('a \<Rightarrow> 'e + 'b list \<times> 'c list) \<Rightarrow> 'b list \<times> 'c list \<Rightarrow> 'a list \<Rightarrow> 'e + 'b list \<times> 'c list" where
  "collect f acc [] = Inr acc"
| "collect f acc (x # xs) = (case f x of Inl e \<Rightarrow> Inl e | Inr r \<Rightarrow> collect f (fst acc @ fst r, snd acc @ snd r) xs)"

lemma collect_Inr:
  "\<forall>x \<in> set xs. f x = Inr (g x) \<Longrightarrow>
   collect f acc xs = Inr (fst acc @ concat (map (fst \<circ> g) xs), snd acc @ concat (map (snd \<circ> g) xs))"
  by (induction xs arbitrary: acc) auto

end
