(* ===== verification/Access.thy ===== *)
theory Access
  imports Daftari_Base
begin

text \<open>
  Role-based access control: \<^verbatim>\<open>src/src/access/rbac.ts\<close> with the role shape of
  \<^verbatim>\<open>src/src/utils/config.ts\<close>, and the visibility rule for tension entries of
  \<^verbatim>\<open>src/src/curation/tension-access.ts\<close>. An absent optional flag of a role is \<open>None\<close>; the
  null role is \<open>None\<close>. The lemmas show that access is deny by default, that the pushed-down
  collection filter agrees with the per-document check, and that a filter keeps exactly the
  permitted items.
\<close>

record role_config =
  rc_read :: "string list"
  rc_write :: "string list"
  rc_promote :: bool
  rc_ratify :: bool
  rc_propose_only :: "bool option"
  rc_erase :: "bool option"
  rc_dispose :: "bool option"
  rc_verify_repo_sources :: "bool option"
  rc_manage_integrations :: "bool option"

record access_context =
  ac_user :: string
  ac_role_name :: string
  ac_role :: "role_config option"

definition GUEST_ROLE :: string where "GUEST_ROLE = ''guest''"
definition WILDCARD :: string where "WILDCARD = ''*''"

text \<open>\<^verbatim>\<open>config.roles\<close> is the config's own keys, so \<open>Object.hasOwn\<close> is membership in the map.\<close>

definition resolveAccess :: "(string, role_config) jmap \<Rightarrow> string \<Rightarrow> string \<Rightarrow> access_context" where
  "resolveAccess roles user roleName =
     \<lparr>ac_user = user, ac_role_name = roleName, ac_role = map_of roles roleName\<rparr>"

definition guestAccess :: "string option \<Rightarrow> access_context" where
  "guestAccess user =
     \<lparr>ac_user = (case user of None \<Rightarrow> ''guest'' | Some u \<Rightarrow> u),
      ac_role_name = GUEST_ROLE, ac_role = None\<rparr>"

definition permits :: "string list \<Rightarrow> string \<Rightarrow> bool" where
  "permits l collection \<longleftrightarrow> WILDCARD \<in> set l \<or> collection \<in> set l"

definition canRead :: "role_config option \<Rightarrow> string \<Rightarrow> bool" where
  "canRead role collection = (case role of None \<Rightarrow> False | Some r \<Rightarrow> permits (rc_read r) collection)"

definition canWrite :: "role_config option \<Rightarrow> string \<Rightarrow> bool" where
  "canWrite role collection = (case role of None \<Rightarrow> False | Some r \<Rightarrow> permits (rc_write r) collection)"

definition canPromote :: "role_config option \<Rightarrow> bool" where
  "canPromote role = (case role of None \<Rightarrow> False | Some r \<Rightarrow> rc_promote r)"

definition canRatify :: "role_config option \<Rightarrow> bool" where
  "canRatify role = (case role of None \<Rightarrow> False | Some r \<Rightarrow> rc_ratify r)"

definition flag :: "(role_config \<Rightarrow> bool option) \<Rightarrow> role_config option \<Rightarrow> bool" where
  "flag f role = (case role of None \<Rightarrow> False | Some r \<Rightarrow> f r = Some True)"

definition canErase :: "role_config option \<Rightarrow> bool" where
  "canErase = flag rc_erase"

definition canDispose :: "role_config option \<Rightarrow> bool" where
  "canDispose = flag rc_dispose"

definition canVerifyRepoSources :: "role_config option \<Rightarrow> bool" where
  "canVerifyRepoSources = flag rc_verify_repo_sources"

definition canManageIntegrations :: "role_config option \<Rightarrow> bool" where
  "canManageIntegrations = flag rc_manage_integrations"

definition isProposeOnly :: "role_config option \<Rightarrow> bool" where
  "isProposeOnly = flag rc_propose_only"

definition hasAnyRead :: "role_config option \<Rightarrow> bool" where
  "hasAnyRead role = (case role of None \<Rightarrow> False | Some r \<Rightarrow> rc_read r \<noteq> [])"

text \<open>\<open>None\<close> is the code's \<open>undefined\<close> (no filter), \<open>Some []\<close> reads nothing.\<close>

definition readableCollections :: "role_config option \<Rightarrow> string list option" where
  "readableCollections role =
     (case role of None \<Rightarrow> Some []
      | Some r \<Rightarrow> if WILDCARD \<in> set (rc_read r) then None else Some (rc_read r))"

definition filterByReadPermission :: "role_config option \<Rightarrow> ('a \<Rightarrow> string) \<Rightarrow> 'a list \<Rightarrow> 'a list" where
  "filterByReadPermission role coll items = filter (\<lambda>i. canRead role (coll i)) items"

section \<open>Facts about the checks\<close>

lemmas access_defs = canRead_def canWrite_def canPromote_def canRatify_def canErase_def
  canDispose_def canVerifyRepoSources_def canManageIntegrations_def isProposeOnly_def
  hasAnyRead_def flag_def permits_def

lemma canRead_None [simp]: "canRead None c = False"
  by (simp add: canRead_def)

lemma canRead_readable:
  "canRead role c \<longleftrightarrow> (case readableCollections role of None \<Rightarrow> True | Some cs \<Rightarrow> c \<in> set cs)"
  by (auto simp: access_defs readableCollections_def split: option.splits)

text \<open>
  A role name the config does not declare resolves to the null role, and the null role is
  denied every capability: reading, writing, promoting, ratifying, erasing, disposing,
  verifying repo sources and managing integrations.
\<close>

theorem unknown_role_denied:
  assumes "roleName \<notin> set (jkeys roles)"
    and "r = ac_role (resolveAccess roles user roleName)"
  shows "\<not> canRead r c \<and> \<not> canWrite r c \<and> \<not> canPromote r \<and> \<not> canRatify r \<and> \<not> canErase r
    \<and> \<not> canDispose r \<and> \<not> canVerifyRepoSources r \<and> \<not> canManageIntegrations r \<and> \<not> hasAnyRead r
    \<and> filterByReadPermission r coll items = []"
proof -
  have "r = None" using assms by (simp add: resolveAccess_def map_of_eq_None_iff)
  then show ?thesis by (simp add: access_defs filterByReadPermission_def)
qed

theorem unknown_role_denied_witness:
  "\<not> canRead (ac_role (resolveAccess [] ''ann'' ''constructor'')) ''notes''"
  using unknown_role_denied [OF _ refl, of "''constructor''" "[]" "''ann''" "''notes''" id "[]"] by simp

text \<open>
  The collection list pushed down into a query and the per-document check agree for every
  role: filtering items by \<open>canRead\<close> keeps exactly the items whose collection is in
  \<open>readableCollections\<close>, or all of them when that is undefined.
\<close>

theorem read_pushdown_agrees:
  "filterByReadPermission role coll items =
     (case readableCollections role of None \<Rightarrow> items | Some cs \<Rightarrow> filter (\<lambda>i. coll i \<in> set cs) items)"
  by (auto simp: filterByReadPermission_def canRead_readable split: option.splits)

section \<open>Who may see a tension\<close>

text \<open>
  \<open>posix_normalize\<close> is Node's \<^verbatim>\<open>path.posix.normalize\<close>: empty and \<^verbatim>\<open>.\<close> segments go, a
  \<^verbatim>\<open>..\<close> removes the segment before it or, in a relative path, stays at the front.
\<close>

abbreviation dotdot :: string where "dotdot \<equiv> ''..''"

fun norm_segs :: "bool \<Rightarrow> string list \<Rightarrow> string list \<Rightarrow> string list" where
  "norm_segs absolute acc [] = rev acc"
| "norm_segs absolute acc (s # ss) =
     (if s = [] \<or> s = ''.'' then norm_segs absolute acc ss
      else if s = dotdot then
        (if acc \<noteq> [] \<and> hd acc \<noteq> dotdot then norm_segs absolute (tl acc) ss
         else if absolute then norm_segs absolute acc ss
         else norm_segs absolute (dotdot # acc) ss)
      else norm_segs absolute (s # acc) ss)"

definition posix_normalize :: "string \<Rightarrow> string" where
  "posix_normalize p =
     (if p = [] then ''.''
      else let absolute = (hd p = CHR ''/''); trailing = (last p = CHR ''/'');
               body = join_with ''/'' (norm_segs absolute [] (split_on (CHR ''/'') p))
           in if body = [] then (if absolute then ''/'' else if trailing then ''./'' else ''.'')
              else (if absolute then ''/'' else []) @ body @ (if trailing then ''/'' else []))"

definition canonicalRel :: "string \<Rightarrow> string" where
  "canonicalRel p =
     (let n = posix_normalize (map (\<lambda>c. if c = CHR 0x5C then CHR ''/'' else c) (js_trim p))
      in if n = ''.'' then [] else if take 2 n = ''./'' then drop 2 n else n)"

text \<open>
  The index, when it is open, maps a document's path to its collection; without it the first
  path segment is the collection.
\<close>

type_synonym index_db = "string \<Rightarrow> string option"

definition collectionForPath :: "index_db option \<Rightarrow> string \<Rightarrow> string" where
  "collectionForPath db path =
     (case db of None \<Rightarrow> first_segment path
      | Some d \<Rightarrow> (case d path of Some c \<Rightarrow> c | None \<Rightarrow> first_segment path))"

definition sourceReadable :: "index_db option \<Rightarrow> access_context \<Rightarrow> string \<Rightarrow> bool" where
  "sourceReadable db access source =
     (let canonical = canonicalRel source in
      if canonical = [] \<or> take 2 canonical = dotdot then False
      else canRead (ac_role access) (collectionForPath db canonical))"

definition canSeeTension :: "index_db option \<Rightarrow> access_context option \<Rightarrow> string \<Rightarrow> string \<Rightarrow> bool" where
  "canSeeTension db access sourceA sourceB =
     (case access of None \<Rightarrow> True
      | Some a \<Rightarrow> sourceReadable db a sourceA \<and> sourceReadable db a sourceB)"

definition sourceVerifiable :: "index_db option \<Rightarrow> access_context option \<Rightarrow> string \<Rightarrow> bool" where
  "sourceVerifiable db access u =
     (case db of None \<Rightarrow> True
      | Some d \<Rightarrow>
          if (case access of Some a \<Rightarrow> \<not> sourceReadable db a u | None \<Rightarrow> False) then False
          else let canonical = canonicalRel u in
               if canonical = [] \<or> take 2 canonical = dotdot then False else d canonical \<noteq> None)"

definition visibleTensions ::
    "index_db option \<Rightarrow> ('e \<Rightarrow> string) \<Rightarrow> ('e \<Rightarrow> string) \<Rightarrow> 'e list \<Rightarrow> access_context option \<Rightarrow> 'e list" where
  "visibleTensions db srcA srcB entries access =
     (case access of None \<Rightarrow> entries
      | Some a \<Rightarrow> filter (\<lambda>e. canSeeTension db access (srcA e) (srcB e)) entries)"

lemma join_with_Cons: "join_with sep (w # ws) = w @ (if ws = [] then [] else sep @ join_with sep ws)"
  by (cases ws) auto

text \<open>The accumulator of \<open>norm_segs\<close> holds its \<^verbatim>\<open>..\<close> segments at the bottom only.\<close>

definition climbs_first :: "string list \<Rightarrow> bool" where
  "climbs_first ss \<longleftrightarrow> (\<exists>k rest. ss = replicate k dotdot @ rest \<and> dotdot \<notin> set rest)"

lemma climbs_first_Nil [simp]: "climbs_first []"
  by (auto simp: climbs_first_def)

lemma climbs_first_snoc: "climbs_first ss \<Longrightarrow> s \<noteq> dotdot \<Longrightarrow> climbs_first (ss @ [s])"
  unfolding climbs_first_def by (metis append_assoc insert_iff list.simps(15) rotate1.simps(2) set_rotate1)

lemma climbs_first_butlast: "climbs_first (ss @ [s]) \<Longrightarrow> climbs_first ss"
  unfolding climbs_first_def
proof (elim exE conjE)
  fix k rest
  assume eq: "ss @ [s] = replicate k dotdot @ rest" and rest: "dotdot \<notin> set rest"
  show "\<exists>k rest. ss = replicate k dotdot @ rest \<and> dotdot \<notin> set rest"
  proof (cases rest rule: rev_cases)
    case Nil
    then obtain j where "k = Suc j" using eq by (cases k) auto
    then have "ss = replicate j dotdot" using eq Nil by (simp add: replicate_append_same [symmetric])
    then show ?thesis by (intro exI [of _ j] exI [of _ "[]"]) simp
  next
    case (snoc rest' r)
    then have "ss = replicate k dotdot @ rest'" using eq by (simp flip: append_assoc)
    then show ?thesis using rest snoc by auto
  qed
qed

lemma climbs_first_dotdot: "climbs_first ss \<Longrightarrow> (ss = [] \<or> last ss = dotdot) \<Longrightarrow> climbs_first (ss @ [dotdot])"
  unfolding climbs_first_def
proof (elim exE conjE)
  fix k rest
  assume eq: "ss = replicate k dotdot @ rest" "dotdot \<notin> set rest" and l: "ss = [] \<or> last ss = dotdot"
  then have "rest = []" by (metis append_is_Nil_conv last_appendR last_in_set)
  then have "ss @ [dotdot] = replicate (Suc k) dotdot @ []"
    using eq by (simp add: replicate_append_same)
  then show "\<exists>k rest. ss @ [dotdot] = replicate k dotdot @ rest \<and> dotdot \<notin> set rest"
    by (metis empty_iff empty_set)
qed

lemma norm_segs_climbs: "climbs_first (rev acc) \<Longrightarrow> climbs_first (norm_segs absolute acc ss)"
proof (induction absolute acc ss rule: norm_segs.induct)
  case (2 absolute acc s ss)
  have tl: "acc \<noteq> [] \<Longrightarrow> climbs_first (rev (tl acc))"
    using "2.prems" by (cases acc) (auto dest: climbs_first_butlast)
  have push: "s \<noteq> dotdot \<Longrightarrow> climbs_first (rev (s # acc))"
    using "2.prems" by (simp add: climbs_first_snoc)
  have climb: "acc = [] \<or> hd acc = dotdot \<Longrightarrow> climbs_first (rev (dotdot # acc))"
    using climbs_first_dotdot [OF "2.prems"] by (cases acc) simp_all
  show ?case using "2" tl push climb by auto
qed simp

lemma norm_segs_absolute: "dotdot \<notin> set acc \<Longrightarrow> dotdot \<notin> set (norm_segs True acc ss)"
proof (induction "True" acc ss rule: norm_segs.induct)
  case (2 acc s ss)
  then show ?case by (auto dest: list.set_sel(2))
qed auto

lemma norm_segs_subset: "set (norm_segs b acc ss) \<subseteq> set acc \<union> set ss"
proof (induction b acc ss rule: norm_segs.induct)
  case (1 b acc)
  then show ?case by simp
next
  case (2 b acc s ss)
  have tl: "set (tl acc) \<subseteq> set acc" by (cases acc) auto
  show ?case
  proof (cases "s = [] \<or> s = ''.''")
    case True
    with "2.IH"(1) show ?thesis by auto
  next
    case plain: False
    show ?thesis
    proof (cases "s = dotdot")
      case False
      then have "norm_segs b acc (s # ss) = norm_segs b (s # acc) ss" using plain by simp
      moreover have "set (norm_segs b (s # acc) ss) \<subseteq> set (s # acc) \<union> set ss"
        using "2.IH"(5) plain False by blast
      ultimately show ?thesis by auto
    next
      case True
      show ?thesis
      proof (cases "acc \<noteq> [] \<and> hd acc \<noteq> dotdot")
        case hd: True
        with "2.IH"(2) plain True have "set (norm_segs b (tl acc) ss) \<subseteq> set (tl acc) \<union> set ss" by blast
        with hd True tl show ?thesis by auto
      next
        case hd: False
        with "2.IH"(3,4) plain True show ?thesis by (cases b) auto
      qed
    qed
  qed
qed

lemma norm_segs_plain:
  "[] \<notin> set acc \<and> ''.'' \<notin> set acc \<Longrightarrow> [] \<notin> set (norm_segs b acc ss) \<and> ''.'' \<notin> set (norm_segs b acc ss)"
proof (induction b acc ss rule: norm_segs.induct)
  case (1 b acc)
  then show ?case by simp
next
  case (2 b acc s ss)
  then show ?case by (cases acc) auto
qed

lemma split_on_no_sep: "\<forall>w \<in> set (split_on c s). c \<notin> set w"
  by (induction c s rule: split_on.induct) (auto split: list.splits)

text \<open>A non-empty path is its kept segments, with an empty one for a leading or trailing slash.\<close>

lemma posix_normalize_shape:
  assumes "p \<noteq> []"
  obtains b ns where
    "posix_normalize p = (if ns = [] then (if b then ''/'' else if last p = CHR ''/'' then ''./'' else ''.'')
      else join_with ''/'' ((if b then [[]] else []) @ ns @ (if last p = CHR ''/'' then [[]] else [])))"
    and "climbs_first ns" and "b \<Longrightarrow> dotdot \<notin> set ns"
    and "\<forall>w \<in> set ns. CHR ''/'' \<notin> set w" and "[] \<notin> set ns" and "''.'' \<notin> set ns"
    and "set ns \<subseteq> set (split_on (CHR ''/'') p)"
proof -
  let ?b = "hd p = CHR ''/''" and ?t = "last p = CHR ''/''"
  define ns where "ns = norm_segs ?b [] (split_on (CHR ''/'') p)"
  have slash: "\<forall>w \<in> set ns. CHR ''/'' \<notin> set w"
    using norm_segs_subset [of ?b "[]" "split_on (CHR ''/'') p"] split_on_no_sep [of "CHR ''/''" p]
    unfolding ns_def by auto
  have dots: "?b \<Longrightarrow> dotdot \<notin> set ns" using norm_segs_absolute [of "[]"] by (simp add: ns_def)
  have plain: "[] \<notin> set ns" "''.'' \<notin> set ns" using norm_segs_plain [of "[]"] by (simp_all add: ns_def)
  have empty: "join_with ''/'' ns = [] \<longleftrightarrow> ns = []"
    using plain(1) by (cases ns) (auto simp: join_with_Cons)
  have app: "ws \<noteq> [] \<Longrightarrow> join_with ''/'' (ws @ [[]]) = join_with ''/'' ws @ ''/''" for ws
    by (induction ws) (auto simp: join_with_Cons)
  have "posix_normalize p = (if ns = [] then (if ?b then ''/'' else if ?t then ''./'' else ''.'')
      else join_with ''/'' ((if ?b then [[]] else []) @ ns @ (if ?t then [[]] else [])))"
    using assms empty by (auto simp: posix_normalize_def Let_def ns_def [symmetric] app join_with_Cons)
  then show ?thesis
    using that [where b = ?b and ns = ns] slash dots plain norm_segs_climbs [of "[]"] norm_segs_subset [of ?b "[]"]
    by (simp add: ns_def)
qed

lemma canonicalRel_no_climb:
  assumes "canonicalRel s \<noteq> []" and "take 2 (canonicalRel s) \<noteq> dotdot"
  shows "dotdot \<notin> set (split_on (CHR ''/'') (canonicalRel s))"
proof -
  let ?q = "map (\<lambda>c. if c = CHR 0x5C then CHR ''/'' else c) (js_trim s)"
  have q: "?q \<noteq> []" using assms(1) by (auto simp: canonicalRel_def posix_normalize_def)
  obtain b ns where n: "posix_normalize ?q = (if ns = [] then (if b then ''/'' else if last ?q = CHR ''/'' then ''./'' else ''.'')
      else join_with ''/'' ((if b then [[]] else []) @ ns @ (if last ?q = CHR ''/'' then [[]] else [])))"
    and c: "climbs_first ns" and d: "b \<Longrightarrow> dotdot \<notin> set ns"
    and sl: "\<forall>w \<in> set ns. CHR ''/'' \<notin> set w" and pl: "[] \<notin> set ns" "''.'' \<notin> set ns"
    by (rule posix_normalize_shape [OF q]) blast
  show ?thesis
  proof (cases ns)
    case Nil
    then show ?thesis using n assms(1) by (auto simp: canonicalRel_def split: if_splits)
  next
    case (Cons w ws)
    let ?all = "(if b then [[]] else []) @ ns @ (if last ?q = CHR ''/'' then [[]] else [])"
    have n': "posix_normalize ?q = join_with ''/'' ?all" using n Cons by simp
    have w: "w \<noteq> []" "w \<noteq> ''.''" "CHR ''/'' \<notin> set w" using pl sl Cons by auto
    have "CHR ''/'' \<notin> set (take 2 w)" using w(3) by (auto dest: in_set_takeD)
    then have "take 2 w \<noteq> ''./''" by auto
    then have not_dot: "take 2 (join_with ''/'' ?all) \<noteq> ''./''" "join_with ''/'' ?all \<noteq> ''.''"
      using w Cons by (auto simp: join_with_Cons take_Cons' append_eq_Cons_conv split: if_splits)
    have can: "canonicalRel s = join_with ''/'' ?all"
      using n' not_dot by (simp add: canonicalRel_def)
    have "dotdot \<notin> set ns"
    proof (cases b)
      case True
      then show ?thesis by (rule d)
    next
      case False
      obtain k rest where k: "ns = replicate k dotdot @ rest" "dotdot \<notin> set rest"
        using c by (auto simp: climbs_first_def)
      have "k = 0"
      proof (rule ccontr)
        assume "k \<noteq> 0"
        then have "w = dotdot" using k Cons by (cases k) auto
        then have "take 2 (join_with ''/'' ?all) = dotdot" using False Cons by (simp add: join_with_Cons)
        then show False using assms(2) can by simp
      qed
      then show ?thesis using k by simp
    qed
    moreover have "split_on (CHR ''/'') (join_with ''/'' ?all) = ?all"
      using sl Cons by (intro split_join) auto
    ultimately show ?thesis using can by auto
  qed
qed

text \<open>
  No role, not even one with the wildcard grant, can read a tension source that escapes the
  vault: a readable source canonicalizes to a path without a single \<^verbatim>\<open>..\<close> segment.
\<close>

theorem readable_source_inside_vault:
  assumes "sourceReadable db access s"
  shows "dotdot \<notin> set (split_on (CHR ''/'') (canonicalRel s))"
  using assms by (intro canonicalRel_no_climb) (auto simp: sourceReadable_def Let_def)

definition demo_reader :: access_context where
  "demo_reader = \<lparr>ac_user = ''ann'', ac_role_name = ''reader'', ac_role = Some \<lparr>rc_read = [WILDCARD],
     rc_write = [], rc_promote = False, rc_ratify = False, rc_propose_only = None, rc_erase = None,
     rc_dispose = None, rc_verify_repo_sources = None, rc_manage_integrations = None\<rparr>\<rparr>"

theorem readable_source_inside_vault_witness:
  "dotdot \<notin> set (split_on (CHR ''/'') (canonicalRel ''notes/../pricing/a.md''))"
proof -
  have "sourceReadable None demo_reader ''notes/../pricing/a.md''" by code_simp
  then show ?thesis by (rule readable_source_inside_vault)
qed

text \<open>
  A caller with an access context sees a tension only with read access to both sides'
  collections; entries it may not see are omitted, never altered, and the order is kept.
\<close>

theorem visible_tensions_both_sides:
  "e \<in> set (visibleTensions db srcA srcB entries (Some a)) \<Longrightarrow>
     e \<in> set entries
     \<and> canRead (ac_role a) (collectionForPath db (canonicalRel (srcA e)))
     \<and> canRead (ac_role a) (collectionForPath db (canonicalRel (srcB e)))
     \<and> subseq (visibleTensions db srcA srcB entries (Some a)) entries"
  by (auto simp: visibleTensions_def canSeeTension_def sourceReadable_def Let_def split: if_splits)

theorem visible_tensions_both_sides_witness:
  "canRead (ac_role demo_reader) (collectionForPath None (canonicalRel ''notes/b.md''))"
proof -
  have "canSeeTension None (Some demo_reader) ''notes/a.md'' ''notes/b.md''" by code_simp
  then have "(''notes/a.md'', ''notes/b.md'') \<in> set (visibleTensions None fst snd
     [(''notes/a.md'', ''notes/b.md'')] (Some demo_reader))" by (simp add: visibleTensions_def)
  from visible_tensions_both_sides [OF this] show ?thesis by simp
qed

end
