(* ===== verification/Dates.thy ===== *)
theory Dates
  imports Daftari_Base
begin

text \<open>
  Dates: \<^verbatim>\<open>src/src/utils/dates.ts\<close> and \<open>ageInDays\<close> of \<^verbatim>\<open>src/src/curation/staleness.ts\<close>, over
  the part of JavaScript's \<^verbatim>\<open>Date\<close> they use. A date is its time value, milliseconds since the
  epoch as an \<open>int\<close>; \<open>None\<close> is the invalid date. \<open>date_parse\<close> reads the ECMAScript date-time
  format the program writes (\<^verbatim>\<open>YYYY-MM-DD\<close>, or that with \<^verbatim>\<open>THH:MM:SS\<close>, optional milliseconds
  and \<^verbatim>\<open>Z\<close>), with the day-of-month check the engine makes (1 to 31, so 30 February rolls
  over); \<open>to_iso\<close> is \<^verbatim>\<open>toISOString\<close>. The calendar is ECMA-262's \<open>DayFromYear\<close>. The lemmas
  show that \<open>to_iso\<close> and \<open>date_parse\<close> are inverse on the years 0 to 9999.
\<close>

section \<open>The calendar\<close>

definition leap_year :: "int \<Rightarrow> bool" where
  "leap_year y \<longleftrightarrow> 4 dvd y \<and> (\<not> 100 dvd y \<or> 400 dvd y)"

definition day_from_year :: "int \<Rightarrow> int" where
  "day_from_year y = 365 * (y - 1970) + (y - 1969) div 4 - (y - 1901) div 100 + (y - 1601) div 400"

definition month_offsets :: "bool \<Rightarrow> int list" where
  "month_offsets leap = [0, 31] @ map (\<lambda>o1. if leap then o1 + 1 else o1)
     [59, 90, 120, 151, 181, 212, 243, 273, 304, 334]"

definition days_from_civil :: "int \<Rightarrow> nat \<Rightarrow> nat \<Rightarrow> int" where
  "days_from_civil y m d = day_from_year y + month_offsets (leap_year y) ! (m - 1) + (int d - 1)"

lemma day_from_year_Suc: "day_from_year (y + 1) = day_from_year y + (if leap_year y then 366 else 365)"
proof -
  have step: "(x + 1) div k = x div k + (if k dvd x + 1 then 1 else 0)" if k: "k > 0" for x k :: int
  proof (cases "k dvd x + 1")
    case True
    then obtain q where q: "x + 1 = k * q" by auto
    have "x div k = q - 1"
      by (rule int_div_pos_eq [where r = "k - 1"]) (use q k in \<open>auto simp: algebra_simps\<close>)
    then show ?thesis using q k True by simp
  next
    case False
    have eq: "x + 1 = k * (x div k) + (x mod k + 1)" by simp
    have "x mod k + 1 \<noteq> k" using False eq by (metis dvd_add_right_iff dvd_refl dvd_triv_left)
    then have "(x + 1) div k = x div k"
      using eq k pos_mod_bound [OF k, of x] pos_mod_sign [OF k, of x]
      by (intro int_div_pos_eq [where r = "x mod k + 1"]) linarith+
    then show ?thesis using False by simp
  qed
  have shift: "k dvd y - k * c \<longleftrightarrow> k dvd y" for k c :: int
    by (metis diff_add_cancel dvd_add_left_iff dvd_triv_left)
  have eqs: "(y - 1969) + 1 = y - 4 * 492" "(y - 1901) + 1 = y - 100 * 19"
    "(y - 1601) + 1 = y - 400 * 4" by simp_all
  have "4 dvd (y - 1969) + 1 \<longleftrightarrow> 4 dvd y" "100 dvd (y - 1901) + 1 \<longleftrightarrow> 100 dvd y"
    "400 dvd (y - 1601) + 1 \<longleftrightarrow> 400 dvd y"
    by (simp_all only: eqs shift)
  note dvds = this
  have mono: "100 dvd y \<Longrightarrow> 4 dvd y" "400 dvd y \<Longrightarrow> 100 dvd y"
    by (erule dvd_trans [rotated], simp)+
  have split: "day_from_year (y + 1) = 365 * (y - 1970) + 365 + ((y - 1969) + 1) div 4
      - ((y - 1901) + 1) div 100 + ((y - 1601) + 1) div 400"
    by (simp add: day_from_year_def algebra_simps)
  have "day_from_year (y + 1) = day_from_year y + 365 + (if 4 dvd y then 1 else 0)
      - (if 100 dvd y then 1 else 0) + (if 400 dvd y then 1 else 0)"
    unfolding split using step [of 4 "y - 1969"] step [of 100 "y - 1901"] step [of 400 "y - 1601"]
    by (simp only: dvds day_from_year_def)
  then show ?thesis
    using mono by (cases "4 dvd y"; cases "100 dvd y"; cases "400 dvd y") (simp_all add: leap_year_def)
qed

text \<open>The year of a day: step forward from a year that does not start after it.\<close>

function find_year :: "int \<Rightarrow> int \<Rightarrow> int" where
  "find_year d y = (if day_from_year (y + 1) \<le> d then find_year d (y + 1) else y)"
  by pat_completeness auto
termination
  by (relation "measure (\<lambda>(d, y). nat (d - day_from_year y))") (auto simp: day_from_year_Suc split: if_splits)

declare find_year.simps [simp del]

definition year_of_day :: "int \<Rightarrow> int" where
  "year_of_day d = find_year d (1969 + (if d \<ge> 0 then d div 366 else d div 365))"

lemma find_year_bounds:
  "day_from_year y \<le> d \<Longrightarrow>
   day_from_year (find_year d y) \<le> d \<and> d < day_from_year (find_year d y + 1) \<and> y \<le> find_year d y"
proof (induction d y rule: find_year.induct)
  case (1 d y)
  show ?case
  proof (cases "day_from_year (y + 1) \<le> d")
    case True
    with 1 show ?thesis by (simp add: find_year.simps [of d y])
  next
    case False
    with 1 show ?thesis by (simp add: find_year.simps [of d y])
  qed
qed

lemma day_from_year_guess:
  "day_from_year (1969 + (if d \<ge> 0 then d div 366 else d div 365)) \<le> d"
proof -
  define k where "k = (if d \<ge> 0 then d div 366 else d div 365)"
  have bounds: "n * (x div n) \<le> x \<and> x < n * (x div n) + n" if "n > 0" for n x :: int
    using mult_div_mod_eq [of n x] pos_mod_sign [OF that, of x] pos_mod_bound [OF that, of x] by linarith
  have "365 * k \<le> d"
    using bounds [of 366 d] bounds [of 365 d] by (auto simp: k_def)
  moreover have "day_from_year (1969 + k) = 365 * (k - 1) + k div 4 - (68 + k) div 100 + (368 + k) div 400"
    by (simp add: day_from_year_def algebra_simps)
  moreover have "d \<ge> 0 \<Longrightarrow> 366 * k \<le> d \<and> k \<ge> 0"
    using bounds [of 366 d] by (simp add: k_def pos_imp_zdiv_nonneg_iff)
  ultimately show ?thesis
    using conjunct1 [OF bounds [of 4 k]] conjunct2 [OF bounds [of 100 "68 + k"]]
      conjunct1 [OF bounds [of 400 "368 + k"]]
    unfolding k_def [symmetric] by (cases "d \<ge> 0") auto
qed

lemma year_of_day_bounds:
  "day_from_year (year_of_day d) \<le> d" "d < day_from_year (year_of_day d + 1)"
  using find_year_bounds [OF day_from_year_guess [of d]] by (simp_all add: year_of_day_def)

section \<open>Parsing and printing\<close>

definition digits_value :: "nat \<Rightarrow> string \<Rightarrow> nat option" where
  "digits_value k s =
     (if length s \<ge> k \<and> list_all is_digit (take k s) then Some (dec_value (take k s)) else None)"

definition MS_PER_DAY :: int where "MS_PER_DAY = 86400000"

text \<open>The time of day after the \<^verbatim>\<open>T\<close>, in milliseconds.\<close>

definition parse_time :: "string \<Rightarrow> int option" where
  "parse_time s =
     (case (digits_value 2 s, digits_value 2 (drop 3 s), digits_value 2 (drop 6 s)) of
        (Some h, Some m, Some sec) \<Rightarrow>
          (let frac = drop 8 s;
               ms = (if frac = ''Z'' then Some 0
                     else if take 1 frac = ''.'' \<and> drop 4 frac = ''Z'' then digits_value 3 (drop 1 frac)
                     else None)
           in case ms of
                None \<Rightarrow> None
              | Some f \<Rightarrow>
                  if take 1 (drop 2 s) = '':'' \<and> take 1 (drop 5 s) = '':'' \<and> m < 60 \<and> sec < 60
                     \<and> (h < 24 \<or> h = 24 \<and> m = 0 \<and> sec = 0 \<and> f = 0)
                  then Some (int h * 3600000 + int m * 60000 + int sec * 1000 + int f)
                  else None)
      | _ \<Rightarrow> None)"

definition parse_day :: "string \<Rightarrow> int option" where
  "parse_day s =
     (case (digits_value 4 s, digits_value 2 (drop 5 s), digits_value 2 (drop 8 s)) of
        (Some y, Some m, Some d) \<Rightarrow>
          if take 1 (drop 4 s) = ''-'' \<and> take 1 (drop 7 s) = ''-'' \<and> 1 \<le> m \<and> m \<le> 12 \<and> 1 \<le> d \<and> d \<le> 31
          then Some (days_from_civil (int y) m d) else None
      | _ \<Rightarrow> None)"

definition date_parse :: "string \<Rightarrow> int option" where
  "date_parse s =
     (case parse_day (take 10 s) of
        None \<Rightarrow> None
      | Some d \<Rightarrow>
          if length s = 10 then Some (d * MS_PER_DAY)
          else if take 1 (drop 10 s) = ''T''
          then map_option (\<lambda>t. d * MS_PER_DAY + t) (parse_time (drop 11 s))
          else None)"

definition pad0 :: "nat \<Rightarrow> int \<Rightarrow> string" where
  "pad0 k n = pad_left k (CHR ''0'') (dec (nat n))"

definition month_of :: "bool \<Rightarrow> int \<Rightarrow> nat" where
  "month_of leap doy = length (takeWhile (\<lambda>p. p \<le> doy) (month_offsets leap))"

definition iso_date :: "int \<Rightarrow> string" where
  "iso_date d =
     (let y = year_of_day d; doy = d - day_from_year y; m = month_of (leap_year y) doy;
          dom = doy - month_offsets (leap_year y) ! (m - 1) + 1;
          ys = (if 0 \<le> y \<and> y \<le> 9999 then pad0 4 y
                else (if y < 0 then ''-'' else ''+'') @ pad0 6 \<bar>y\<bar>)
      in ys @ ''-'' @ pad0 2 (int m) @ ''-'' @ pad0 2 dom)"

definition iso_seconds :: "int \<Rightarrow> string" where
  "iso_seconds ms = pad0 2 (ms div 3600000) @ '':'' @ pad0 2 (ms div 60000 mod 60) @ '':''
     @ pad0 2 (ms div 1000 mod 60)"

definition to_iso :: "int \<Rightarrow> string" where
  "to_iso t = iso_date (t div MS_PER_DAY) @ ''T'' @ iso_seconds (t mod MS_PER_DAY) @ ''.''
     @ pad0 3 (t mod 1000) @ ''Z''"

text \<open>
  \<open>toSecondISO\<close> replaces the final \<^verbatim>\<open>.ddd Z\<close> of \<open>to_iso\<close>, which always ends so, by \<^verbatim>\<open>Z\<close>.
\<close>

definition toSecondISO :: "int \<Rightarrow> string" where
  "toSecondISO t = (let s = to_iso t in take (length s - 5) s @ ''Z'')"

text \<open>The regular expression of \<open>normalizeIsoDate\<close>: four digits and twice one or two digits.\<close>

definition iso_groups :: "string \<Rightarrow> (string \<times> string \<times> string) option" where
  "iso_groups s = (case split_on (CHR ''-'') s of
     [y, m, d] \<Rightarrow>
       if length y = 4 \<and> list_all is_digit y \<and> length m \<in> {1, 2} \<and> list_all is_digit m
          \<and> length d \<in> {1, 2} \<and> list_all is_digit d
       then Some (y, m, d) else None
   | _ \<Rightarrow> None)"

definition normalizeIsoDate :: "string \<Rightarrow> string option" where
  "normalizeIsoDate s =
     (case iso_groups s of
        None \<Rightarrow> None
      | Some (y, m, d) \<Rightarrow>
          (let candidate = y @ ''-'' @ pad_left 2 (CHR ''0'') m @ ''-'' @ pad_left 2 (CHR ''0'') d
           in case date_parse (candidate @ ''T00:00:00Z'') of
                None \<Rightarrow> None
              | Some t \<Rightarrow> if take 10 (to_iso t) \<noteq> candidate then None else Some candidate))"

text \<open>Whole days since a date; an unparseable date reads as 0.\<close>

definition ageInDays :: "string \<Rightarrow> int \<Rightarrow> int" where
  "ageInDays dateISO now =
     (case date_parse (dateISO @ ''T00:00:00Z'') of
        None \<Rightarrow> 0
      | Some t \<Rightarrow> (now - t) div MS_PER_DAY)"

section \<open>The round trip\<close>

lemma dec_length: "n < 10 ^ Suc k \<Longrightarrow> length (dec n) \<le> Suc k"
proof (induction n arbitrary: k rule: dec.induct)
  case (1 n)
  show ?case
  proof (cases "n < 10")
    case True
    then show ?thesis by (subst dec.simps) simp
  next
    case False
    with 1 obtain j where k: "k = Suc j" by (cases k) auto
    with 1 False have "n div 10 < 10 ^ Suc j" by (simp add: less_mult_imp_div_less)
    with 1 False k show ?thesis by (subst dec.simps) simp
  qed
qed

lemma pad0_length: "0 < k \<Longrightarrow> 0 \<le> n \<Longrightarrow> n < 10 ^ k \<Longrightarrow> length (pad0 k n) = k"
  using dec_length [of "nat n" "k - 1"] by (auto simp: pad0_def pad_left_def nat_less_iff)

lemma pad0_digits: "list_all is_digit (pad0 k n)"
  using dec_digits [of "nat n"] by (auto simp: pad0_def pad_left_def list_all_iff)

lemma digits_value_pad0:
  "0 < k \<Longrightarrow> 0 \<le> n \<Longrightarrow> n < 10 ^ k \<Longrightarrow> digits_value k (pad0 k n @ r) = Some (nat n)"
  using pad0_length [of k n] pad0_digits [of k n]
  by (simp add: digits_value_def) (simp add: pad0_def)

lemma month_offsets_facts:
  "length (month_offsets b) = 12" "month_offsets b ! 0 = 0"
  "i < 11 \<Longrightarrow> month_offsets b ! Suc i \<le> month_offsets b ! i + 31"
  "month_offsets b ! 11 = (if b then 335 else 334)"
proof -
  show "length (month_offsets b) = 12" "month_offsets b ! 0 = 0"
    "month_offsets b ! 11 = (if b then 335 else 334)" by (simp_all add: month_offsets_def)
  have "\<forall>i \<in> {..<11}. month_offsets b ! Suc i \<le> month_offsets b ! i + 31"
    by (cases b) (simp_all add: month_offsets_def lessThan_Suc numeral_nat)
  then show "i < 11 \<Longrightarrow> month_offsets b ! Suc i \<le> month_offsets b ! i + 31" by simp
qed

lemma month_of_bounds:
  assumes "0 \<le> doy" "doy < (if leap then 366 else 365)"
  shows "1 \<le> month_of leap doy" "month_of leap doy \<le> 12"
    "month_offsets leap ! (month_of leap doy - 1) \<le> doy"
    "doy \<le> month_offsets leap ! (month_of leap doy - 1) + 30"
proof -
  let ?o = "month_offsets leap" and ?m = "month_of leap doy"
  obtain r where o: "?o = 0 # r" by (simp add: month_offsets_def)
  with assms show m1: "1 \<le> ?m" by (simp add: month_of_def)
  show m2: "?m \<le> 12"
    using length_takeWhile_le [of "\<lambda>p. p \<le> doy" ?o] by (simp add: month_of_def month_offsets_facts)
  from m1 have "?m - 1 < length (takeWhile (\<lambda>p. p \<le> doy) ?o)" by (simp add: month_of_def)
  from set_takeWhileD [OF nth_mem [OF this]] takeWhile_nth [OF this]
  show "?o ! (?m - 1) \<le> doy" by simp
  show "doy \<le> ?o ! (?m - 1) + 30"
  proof (cases "?m = 12")
    case True
    with assms show ?thesis by (simp add: month_offsets_facts split: if_splits)
  next
    case False
    with m2 have "\<not> ?o ! ?m \<le> doy"
      using nth_length_takeWhile [of "\<lambda>p. p \<le> doy" ?o] by (simp add: month_of_def month_offsets_facts)
    moreover have "?o ! Suc (?m - 1) \<le> ?o ! (?m - 1) + 31"
      using False m1 m2 by (intro month_offsets_facts) simp
    ultimately show ?thesis using m1 by simp
  qed
qed

lemma iso_date_parse:
  assumes "0 \<le> year_of_day d" "year_of_day d \<le> 9999"
  shows "length (iso_date d) = 10" "parse_day (iso_date d) = Some d"
proof -
  let ?y = "year_of_day d"
  define doy where "doy = d - day_from_year ?y"
  define m where "m = month_of (leap_year ?y) doy"
  define dm where "dm = doy - month_offsets (leap_year ?y) ! (m - 1) + 1"
  have doy: "0 \<le> doy" "doy < (if leap_year ?y then 366 else 365)"
    using year_of_day_bounds [of d] by (simp_all add: doy_def day_from_year_Suc split: if_splits)
  note mb = month_of_bounds [OF doy, folded m_def]
  have dm: "1 \<le> dm" "dm \<le> 31" using mb by (simp_all add: dm_def)
  have iso: "iso_date d = pad0 4 ?y @ ''-'' @ pad0 2 (int m) @ ''-'' @ pad0 2 dm"
    using assms by (simp add: iso_date_def Let_def doy_def m_def dm_def)
  have len: "length (pad0 4 ?y) = 4" "length (pad0 2 (int m)) = 2" "length (pad0 2 dm) = 2"
    using assms mb dm by (simp_all add: pad0_length)
  show "length (iso_date d) = 10" by (simp add: iso len)
  have "digits_value 4 (iso_date d) = Some (nat ?y)"
    "digits_value 2 (drop 5 (iso_date d)) = Some m" "digits_value 2 (drop 8 (iso_date d)) = Some (nat dm)"
    using assms mb dm digits_value_pad0 [of 2 dm "[]"] by (simp_all add: iso len digits_value_pad0)
  moreover have "take 1 (drop 4 (iso_date d)) = ''-''" "take 1 (drop 7 (iso_date d)) = ''-''"
    by (simp_all add: iso len)
  moreover have "days_from_civil (int (nat ?y)) m (nat dm) = d"
    using assms dm by (simp add: days_from_civil_def dm_def doy_def)
  ultimately show "parse_day (iso_date d) = Some d"
    using mb dm nat_mono [OF dm(2)] by (simp add: parse_day_def)
qed

lemma parse_time_fields:
  assumes "digits_value 2 s = Some h" "digits_value 2 (drop 3 s) = Some m" "digits_value 2 (drop 6 s) = Some sec"
    and "take 1 (drop 2 s) = '':''" "take 1 (drop 5 s) = '':''" "h < 24" "m < 60" "sec < 60"
    and "drop 8 s = ''Z'' \<and> f = 0 \<or>
         take 1 (drop 8 s) = ''.'' \<and> drop 12 s = ''Z'' \<and> digits_value 3 (drop 9 s) = Some f"
  shows "parse_time s = Some (int h * 3600000 + int m * 60000 + int sec * 1000 + int f)"
proof -
  have "drop 8 s = ''.'' @ drop 9 s" if "take 1 (drop 8 s) = ''.''"
    using that drop_Suc [of 8 s] tl_drop [of 8 s] by (cases "drop 8 s") auto
  then show ?thesis using assms by (auto simp: parse_time_def Let_def)
qed

lemma day_fields:
  assumes "0 \<le> ms" "ms < MS_PER_DAY"
  obtains h m sec where "ms div 3600000 = h" "ms div 60000 mod 60 = m" "ms div 1000 mod 60 = sec"
    "0 \<le> h" "h < 24" "0 \<le> m" "m < 60" "0 \<le> sec" "sec < 60"
    "h * 3600000 + m * 60000 + sec * 1000 = ms - ms mod 1000"
proof -
  have h: "0 \<le> ms div 3600000" "ms div 3600000 < 24" using assms by (auto simp: MS_PER_DAY_def)
  have m: "0 \<le> q mod 60" "q mod 60 < 60" for q :: int by simp_all
  have nested: "ms div 60000 = ms div 1000 div 60" "ms div 3600000 = ms div 1000 div 60 div 60"
    by (simp_all flip: zdiv_zmult2_eq)
  have "q div 60 div 60 * 3600000 + q div 60 mod 60 * 60000 + q mod 60 * 1000 = 1000 * q" for q :: int
    using mult_div_mod_eq [of 60 q] mult_div_mod_eq [of 60 "q div 60"] by linarith
  then have "ms div 3600000 * 3600000 + ms div 60000 mod 60 * 60000 + ms div 1000 mod 60 * 1000
      = ms - ms mod 1000"
    by (simp add: nested minus_mod_eq_mult_div)
  from that [OF refl refl refl h m m this] show ?thesis .
qed

lemma iso_seconds_parse:
  assumes "0 \<le> ms" "ms < MS_PER_DAY" "0 \<le> f" "f < 1000"
  shows "length (iso_seconds ms) = 8"
    "parse_time (iso_seconds ms @ ''.'' @ pad0 3 f @ ''Z'') = Some (ms - ms mod 1000 + f)"
    "parse_time (iso_seconds ms @ ''Z'') = Some (ms - ms mod 1000)"
proof -
  obtain h m sec where fields: "ms div 3600000 = h" "ms div 60000 mod 60 = m" "ms div 1000 mod 60 = sec"
    and b: "0 \<le> h" "h < 24" "0 \<le> m" "m < 60" "0 \<le> sec" "sec < 60"
    and sum: "h * 3600000 + m * 60000 + sec * 1000 = ms - ms mod 1000"
    using day_fields [OF assms(1,2)] by metis
  have iso: "iso_seconds ms = pad0 2 h @ '':'' @ pad0 2 m @ '':'' @ pad0 2 sec"
    by (simp only: iso_seconds_def fields)
  have len: "length (pad0 2 h) = 2" "length (pad0 2 m) = 2" "length (pad0 2 sec) = 2"
    "length (pad0 3 f) = 3"
    using b assms by (simp_all add: pad0_length)
  show l8: "length (iso_seconds ms) = 8" by (simp add: iso len)
  have vals: "digits_value 2 (iso_seconds ms @ r) = Some (nat h)"
    "digits_value 2 (drop 3 (iso_seconds ms @ r)) = Some (nat m)"
    "digits_value 2 (drop 6 (iso_seconds ms @ r)) = Some (nat sec)" for r
    using b by (simp_all add: iso len digits_value_pad0)
  have seps: "take 1 (drop 2 (iso_seconds ms @ r)) = '':''" "take 1 (drop 5 (iso_seconds ms @ r)) = '':''" for r
    by (simp_all add: iso len)
  have small: "nat h < 24" "nat m < 60" "nat sec < 60" using b by (simp_all add: nat_less_iff)
  have drop8: "drop (8 + k) (iso_seconds ms @ r) = drop k r" for k r by (simp add: l8)
  have "drop 8 (iso_seconds ms @ r) = r" "drop 9 (iso_seconds ms @ r) = drop 1 r"
    "drop 12 (iso_seconds ms @ r) = drop 4 r" for r
    using drop8 [of 0 r] drop8 [of 1 r] drop8 [of 4 r] by simp_all
  note drop8 = this
  have f: "digits_value 3 (pad0 3 f @ ''Z'') = Some (nat f)"
    using assms by (simp add: digits_value_pad0)
  have "parse_time (iso_seconds ms @ ''.'' @ pad0 3 f @ ''Z'')
      = Some (int (nat h) * 3600000 + int (nat m) * 60000 + int (nat sec) * 1000 + int (nat f))"
    by (rule parse_time_fields [OF vals seps small]) (simp only: drop8, use f in \<open>simp add: len\<close>)
  then show "parse_time (iso_seconds ms @ ''.'' @ pad0 3 f @ ''Z'') = Some (ms - ms mod 1000 + f)"
    using b assms by (simp add: sum)
  have "parse_time (iso_seconds ms @ ''Z'')
      = Some (int (nat h) * 3600000 + int (nat m) * 60000 + int (nat sec) * 1000 + int (0::nat))"
    by (rule parse_time_fields [OF vals seps small]) (simp only: drop8, simp)
  then show "parse_time (iso_seconds ms @ ''Z'') = Some (ms - ms mod 1000)"
    using b by (simp add: sum)
qed

lemma date_parse_iso_time:
  assumes "0 \<le> year_of_day d" "year_of_day d \<le> 9999" "parse_time s = Some t" "s \<noteq> []"
  shows "date_parse (iso_date d @ ''T'' @ s) = Some (d * MS_PER_DAY + t)"
  using iso_date_parse [OF assms(1,2)] assms(3,4) by (simp add: date_parse_def)

lemma day_mod: "t mod MS_PER_DAY mod 1000 = t mod 1000"
  unfolding MS_PER_DAY_def by (rule mod_mod_cancel) simp

lemma ms_bounds: "0 \<le> t mod MS_PER_DAY" "t mod MS_PER_DAY < MS_PER_DAY"
  by (simp_all add: MS_PER_DAY_def)

text \<open>The clock readings \<^verbatim>\<open>toISOString\<close> prints with a four-digit year.\<close>

definition in_calendar :: "int \<Rightarrow> bool" where
  "in_calendar t \<longleftrightarrow> 0 \<le> year_of_day (t div MS_PER_DAY) \<and> year_of_day (t div MS_PER_DAY) \<le> 9999"

lemma date_parse_to_iso:
  assumes "in_calendar t"
  shows "date_parse (to_iso t) = Some t"
proof -
  have f: "0 \<le> t mod 1000" "t mod 1000 < 1000" by simp_all
  note secs = iso_seconds_parse [OF ms_bounds [of t] f]
  have "t div MS_PER_DAY * MS_PER_DAY + t mod MS_PER_DAY = t" by simp
  with assms date_parse_iso_time [OF _ _ secs(2), of "t div MS_PER_DAY"]
  show ?thesis by (simp add: to_iso_def in_calendar_def day_mod algebra_simps)
qed

text \<open>
  C1: a timestamp in the years 0 to 9999 printed by \<^verbatim>\<open>toISOString\<close> parses back to itself, and
  printed by \<open>toSecondISO\<close> it parses back to the start of its second.
\<close>

theorem timestamp_roundtrip:
  assumes "0 \<le> year_of_day (t div MS_PER_DAY)" "year_of_day (t div MS_PER_DAY) \<le> 9999"
  shows "date_parse (to_iso t) = Some t \<and> date_parse (toSecondISO t) = Some (t - t mod 1000)"
proof -
  let ?ms = "t mod MS_PER_DAY"
  have f: "0 \<le> t mod 1000" "t mod 1000 < 1000" by simp_all
  note secs = iso_seconds_parse [OF ms_bounds [of t] f]
  have t: "t div MS_PER_DAY * MS_PER_DAY + ?ms = t" by simp
  have "length (pad0 3 (t mod 1000)) = 3" by (simp add: pad0_length)
  then have second: "toSecondISO t = iso_date (t div MS_PER_DAY) @ ''T'' @ iso_seconds ?ms @ ''Z''"
    by (simp add: toSecondISO_def to_iso_def)
  from date_parse_iso_time [OF assms secs(2)] date_parse_iso_time [OF assms secs(3)] t
  show ?thesis unfolding second to_iso_def by (simp add: day_mod algebra_simps)
qed

theorem timestamp_roundtrip_witness:
  "date_parse (to_iso 1718236800123) = Some 1718236800123 \<and> date_parse (toSecondISO 1718236800123) = Some 1718236800000"
proof -
  have "year_of_day (1718236800123 div MS_PER_DAY) = 2024" by code_simp
  then show ?thesis using timestamp_roundtrip [of 1718236800123] by simp
qed

section \<open>Canonical dates\<close>

lemma iso_groups_fields:
  "iso_groups s = Some (y, m, d) \<Longrightarrow>
   length y = 4 \<and> list_all is_digit y \<and> length m \<in> {1, 2} \<and> list_all is_digit m
     \<and> length d \<in> {1, 2} \<and> list_all is_digit d"
  by (auto simp: iso_groups_def split: list.splits if_splits)

lemma digits_no_dash: "list_all is_digit s \<Longrightarrow> CHR ''-'' \<notin> set s"
proof -
  have "\<not> is_digit (CHR ''-'')" by (simp add: is_digit_def)
  then show "list_all is_digit s \<Longrightarrow> CHR ''-'' \<notin> set s" by (auto simp: list_all_iff)
qed

lemma pad2_digits:
  "length m \<in> {1, 2} \<Longrightarrow> list_all is_digit m \<Longrightarrow>
   length (pad_left 2 (CHR ''0'') m) = 2 \<and> list_all is_digit (pad_left 2 (CHR ''0'') m)"
  by (auto simp: pad_left_def)

lemma iso_groups_render:
  assumes "length y = 4" "length m = 2" "length d = 2"
    "list_all is_digit y" "list_all is_digit m" "list_all is_digit d"
  shows "iso_groups (y @ ''-'' @ m @ ''-'' @ d) = Some (y, m, d)"
  using assms split_on_append [of "CHR ''-''" y "m @ ''-'' @ d"] split_on_append [of "CHR ''-''" m d]
    split_on_plain [of "CHR ''-''" d]
  by (simp add: iso_groups_def digits_no_dash)

lemma pad2_id: "length m = 2 \<Longrightarrow> pad_left 2 c m = m"
  by (simp add: pad_left_def)

lemma normalize_canonical:
  assumes "normalizeIsoDate s = Some r"
  shows "length r = 10" "normalizeIsoDate r = Some r"
    "\<exists>t. date_parse (r @ ''T00:00:00Z'') = Some t \<and> take 10 (to_iso t) = r"
proof -
  obtain y m d t where g: "iso_groups s = Some (y, m, d)"
    and r: "r = y @ ''-'' @ pad_left 2 (CHR ''0'') m @ ''-'' @ pad_left 2 (CHR ''0'') d"
    and t: "date_parse (r @ ''T00:00:00Z'') = Some t" "take 10 (to_iso t) = r"
    using assms by (auto simp: normalizeIsoDate_def Let_def split: option.splits if_splits)
  note f = iso_groups_fields [OF g] pad2_digits [of m] pad2_digits [of d]
  have "iso_groups r = Some (y, pad_left 2 (CHR ''0'') m, pad_left 2 (CHR ''0'') d)"
    unfolding r using f by (intro iso_groups_render) auto
  with f show "normalizeIsoDate r = Some r"
    using t by (auto simp: normalizeIsoDate_def Let_def pad2_id r)
  show "length r = 10" using f by (auto simp: r)
  show "\<exists>t. date_parse (r @ ''T00:00:00Z'') = Some t \<and> take 10 (to_iso t) = r" using t by auto
qed

text \<open>
  A date \<open>normalizeIsoDate\<close> accepts is rendered in the ten-character form that it returns
  unchanged, and that form names a real calendar day: it parses to an instant whose own date is
  the same string.
\<close>

theorem normalized_date_canonical:
  assumes "normalizeIsoDate s = Some r"
  shows "length r = 10 \<and> normalizeIsoDate r = Some r
    \<and> (\<exists>t. date_parse (r @ ''T00:00:00Z'') = Some t \<and> take 10 (to_iso t) = r)"
  using normalize_canonical [OF assms] by blast

theorem normalized_date_canonical_witness:
  "length ''2024-02-09'' = 10 \<and> normalizeIsoDate ''2024-02-09'' = Some ''2024-02-09''
   \<and> normalizeIsoDate ''2024-2-30'' = None"
proof -
  have "normalizeIsoDate ''2024-2-9'' = Some ''2024-02-09''" "normalizeIsoDate ''2024-2-30'' = None"
    by code_simp+
  then show ?thesis using normalized_date_canonical [of "''2024-2-9''"] by simp
qed

end
