(* ===== verification/Frontmatter.thy ===== *)
theory Frontmatter
  imports Daftari_Base
begin

text \<open>
  The data model of a vault document: \<^verbatim>\<open>src/src/frontmatter/types.ts\<close>. The string unions of the
  code are datatypes with one constructor per member, in the order of the code's constant
  lists; \<open>Confidence\<close> and \<open>Criticality\<close> carry that order, which the code reads with
  \<^verbatim>\<open>indexOf\<close>. A \<^verbatim>\<open>string | null\<close> field is \<open>string option\<close>; an optional array that is absent reads
  as the empty list. Numbers that documents carry (\<^verbatim>\<open>ttl_days\<close>) are rationals, which contain
  every finite double.
\<close>

datatype domain = Accumulation | Generative
datatype doc_status = Draft | Canonical | Deprecated | Superseded | Archived
datatype confidence = ConfLow | ConfMedium | ConfHigh
datatype provenance = Direct | Synthesized | Inferred
datatype stance = Assert | Dispute | Qualify
datatype tier = SourceTier | CompiledTier | ManualTier
datatype criticality = CritLow | CritMedium | CritHigh

definition CONFIDENCES :: "confidence list" where
  "CONFIDENCES = [ConfLow, ConfMedium, ConfHigh]"

definition CRITICALITIES :: "criticality list" where
  "CRITICALITIES = [CritLow, CritMedium, CritHigh]"

text \<open>\<^verbatim>\<open>indexOf\<close> of a list that holds the value.\<close>

definition index_of :: "'a list \<Rightarrow> 'a \<Rightarrow> int" where
  "index_of xs x = int (length (takeWhile (\<lambda>y. y \<noteq> x) xs))"

instantiation confidence :: linorder
begin

definition less_eq_confidence :: "confidence \<Rightarrow> confidence \<Rightarrow> bool" where
  "less_eq_confidence a b \<longleftrightarrow> index_of CONFIDENCES a \<le> index_of CONFIDENCES b"

definition less_confidence :: "confidence \<Rightarrow> confidence \<Rightarrow> bool" where
  "less_confidence a b \<longleftrightarrow> index_of CONFIDENCES a < index_of CONFIDENCES b"

instance
proof
  fix a b c :: confidence
  show "a < b \<longleftrightarrow> a \<le> b \<and> \<not> b \<le> a"
    by (auto simp: less_confidence_def less_eq_confidence_def)
  show "a \<le> a" by (simp add: less_eq_confidence_def)
  show "a \<le> b \<Longrightarrow> b \<le> c \<Longrightarrow> a \<le> c" by (simp add: less_eq_confidence_def)
  show "a \<le> b \<Longrightarrow> b \<le> a \<Longrightarrow> a = b"
    by (cases a; cases b) (simp_all add: less_eq_confidence_def index_of_def CONFIDENCES_def)
  show "a \<le> b \<or> b \<le> a" by (auto simp: less_eq_confidence_def)
qed

end

record position =
  p_id :: string
  p_principal :: string
  p_stance :: stance
  p_statement :: "string option"
  p_confidence :: confidence
  p_provenance :: provenance
  p_valid_from :: "string option"
  p_superseded_by :: "string option"
  p_created :: string
  p_sources :: "string list"

record org_position =
  op_stance :: stance
  op_confidence :: confidence
  op_ratified_by :: string
  op_ratified_at :: string
  op_dissent :: "string list"

datatype ext_value =
    ExtString string
  | ExtNumber rat
  | ExtBool bool
  | ExtStrings "string list"
  | ExtNull

record frontmatter =
  fm_title :: string
  fm_domain :: domain
  fm_collection :: string
  fm_status :: doc_status
  fm_confidence :: confidence
  fm_created :: string
  fm_updated :: string
  fm_updated_by :: string
  fm_provenance :: provenance
  fm_tier :: "tier option"
  fm_criticality :: "criticality option"
  fm_sources :: "string list"
  fm_superseded_by :: "string option"
  fm_ttl_days :: "rat option"
  fm_series :: "string option"
  fm_valid_from :: "string option"
  fm_valid_until :: "string option"
  fm_said_at :: "string option"
  fm_tags :: "string list"
  fm_describes :: "string list"
  fm_amends :: "string list"
  fm_questions_answered :: "string list"
  fm_questions_raised :: "string list"
  fm_subjects :: "string list"
  fm_positions :: "position list option"
  fm_org_position :: "org_position option"
  fm_contested :: "bool option"
  fm_extensions :: "(string, ext_value) jmap"

record loaded_doc =
  ld_path :: string
  ld_frontmatter :: frontmatter
  ld_content :: string

text \<open>The document every test of the library starts from.\<close>

definition blank_fm :: frontmatter where
  "blank_fm = \<lparr>fm_title = [], fm_domain = Accumulation, fm_collection = [], fm_status = Draft,
     fm_confidence = ConfMedium, fm_created = [], fm_updated = [], fm_updated_by = [],
     fm_provenance = Direct, fm_tier = None, fm_criticality = None, fm_sources = [],
     fm_superseded_by = None, fm_ttl_days = None, fm_series = None, fm_valid_from = None,
     fm_valid_until = None, fm_said_at = None, fm_tags = [], fm_describes = [], fm_amends = [],
     fm_questions_answered = [], fm_questions_raised = [], fm_subjects = [], fm_positions = None,
     fm_org_position = None, fm_contested = None, fm_extensions = []\<rparr>"

text \<open>\<open>js_or a b\<close> is \<^verbatim>\<open>a || b\<close> on strings: the empty string is falsy. \<open>int_str\<close> prints an integer.\<close>

definition js_or :: "string \<Rightarrow> string \<Rightarrow> string" where
  "js_or a b = (if a = [] then b else a)"

definition int_str :: "int \<Rightarrow> string" where
  "int_str n = (if n < 0 then ''-'' @ dec (nat (- n)) else dec (nat n))"

end
