(* ===== verification/Staleness.thy ===== *)
theory Staleness
  imports Frontmatter Dates "HOL-Library.Option_ord" "HOL-Library.Product_Lexorder"
begin

text \<open>
  The advisory signals computed from one document's dates: time decay against the TTL and the
  series rule (\<^verbatim>\<open>src/src/curation/staleness.ts\<close>), the inline decay banner
  (\<^verbatim>\<open>src/src/curation/decay.ts\<close>) and world validity with its lint
  (\<^verbatim>\<open>src/src/curation/validity.ts\<close>). \<open>now\<close> is a time value in milliseconds. The text of a decay
  reason is kept as a datatype that carries the values the message interpolates.
\<close>

section \<open>Staleness\<close>

record staleness_result =
  st_score :: rat
  st_age_days :: int
  st_ttl_days :: "rat option"
  st_expired :: bool

definition computeStaleness :: "string \<Rightarrow> rat option \<Rightarrow> int \<Rightarrow> staleness_result" where
  "computeStaleness updated ttl now =
     (let age = ageInDays updated now in
      case ttl of
        None \<Rightarrow> \<lparr>st_score = 0, st_age_days = age, st_ttl_days = None, st_expired = False\<rparr>
      | Some t \<Rightarrow>
          if t \<le> 0 then
            (let e = age > 0
             in \<lparr>st_score = (if e then 1 else 0), st_age_days = age, st_ttl_days = Some t, st_expired = e\<rparr>)
          else
            \<lparr>st_score = min 1 (max 0 (of_int age / t)), st_age_days = age, st_ttl_days = Some t,
              st_expired = of_int age \<ge> t\<rparr>)"

definition RETIRED_STATUSES :: "doc_status list" where
  "RETIRED_STATUSES = [Deprecated, Superseded, Archived]"

record series_member =
  sm_path :: string
  sm_series :: "string option"
  sm_status :: doc_status
  sm_created :: string
  sm_updated :: string

text \<open>Milliseconds, with \<open>None\<close> below every number for \<^verbatim>\<open>Number.NEGATIVE_INFINITY\<close>.\<close>

definition writtenAt :: "series_member \<Rightarrow> int option" where
  "writtenAt fm = date_parse (js_or (sm_created fm) (sm_updated fm) @ ''T00:00:00Z'')"

definition isNewer :: "series_member \<Rightarrow> series_member \<Rightarrow> bool" where
  "isNewer a b =
     (let aAt = writtenAt a; bAt = writtenAt b
      in aAt > bAt \<or> (aAt = bAt \<and> sm_path a > sm_path b))"

definition series_key :: "series_member \<Rightarrow> string option" where
  "series_key doc =
     (case sm_series doc of
        None \<Rightarrow> None
      | Some s \<Rightarrow> if js_trim s = [] then None else Some (js_trim s))"

definition series_step ::
    "(string, series_member) jmap \<times> string set \<Rightarrow> series_member \<Rightarrow> (string, series_member) jmap \<times> string set" where
  "series_step st doc =
     (case (st, series_key doc) of
        ((newest, older), None) \<Rightarrow> (newest, older)
      | ((newest, older), Some series) \<Rightarrow>
          (let older' = insert (sm_path doc) older in
           if sm_status doc \<in> set RETIRED_STATUSES then (newest, older')
           else case map_of newest series of
                  None \<Rightarrow> (AList.update series doc newest, older')
                | Some head \<Rightarrow>
                    if isNewer doc head then (AList.update series doc newest, older')
                    else (newest, older')))"

definition olderSeriesMembers :: "series_member list \<Rightarrow> string set" where
  "olderSeriesMembers docs =
     (case foldl series_step ([], {}) docs of
        (newest, older) \<Rightarrow> foldl (\<lambda>o1 head. o1 - {sm_path head}) older (map snd newest))"

section \<open>Decay\<close>

definition DRAFT_MAX_DAYS :: int where "DRAFT_MAX_DAYS = 30"
definition LOW_CONFIDENCE_MAX_DAYS :: int where "LOW_CONFIDENCE_MAX_DAYS = 30"

datatype decay_level = LevelDeprecated | LevelWarn | LevelAging

datatype decay_reason =
    RSuperseded
  | RDeprecated
  | RPastTTL int rat
  | RDraft int
  | RLowConfidence int
  | RAging int rat "rat option"

datatype banner_head = HeadSuperseded | HeadDeprecated | HeadStale

record decay_input =
  di_status :: string
  di_confidence :: string
  di_updated :: string
  di_created :: string
  di_ttl_days :: "rat option"
  di_superseded_by :: "string option"

record decay_state =
  ds_level :: decay_level
  ds_reasons :: "decay_reason list"
  ds_banner :: "(banner_head \<times> decay_reason list) option"

definition renderBanner ::
    "decay_level \<Rightarrow> decay_reason list \<Rightarrow> string \<Rightarrow> (banner_head \<times> decay_reason list) option" where
  "renderBanner level reasons status =
     (if level = LevelAging then None
      else Some ((if status = ''superseded'' then HeadSuperseded
                  else if level = LevelDeprecated then HeadDeprecated else HeadStale), reasons))"

text \<open>The step every check of \<open>computeDecay\<close> makes: raise the level when none is set, add a reason.\<close>

definition warn_if ::
    "bool \<Rightarrow> decay_reason \<Rightarrow> decay_level option \<times> decay_reason list \<Rightarrow> decay_level option \<times> decay_reason list" where
  "warn_if c r st =
     (if c then (if fst st = None then Some LevelWarn else fst st, snd st @ [r]) else st)"

definition decay_checks :: "decay_input \<Rightarrow> int \<Rightarrow> decay_level option \<times> decay_reason list" where
  "decay_checks i now =
     (let st0 = (None, []);
          st1 = (if di_status i = ''superseded'' then (Some LevelDeprecated, snd st0 @ [RSuperseded]) else st0);
          st2 = (if di_status i = ''deprecated'' then (Some LevelDeprecated, snd st1 @ [RDeprecated]) else st1);
          s = computeStaleness (di_updated i) (di_ttl_days i) now;
          st3 = (case st_ttl_days s of
                   None \<Rightarrow> st2
                 | Some t \<Rightarrow> warn_if (st_expired s) (RPastTTL (st_age_days s) t) st2);
          draftAge = ageInDays (js_or (di_created i) (di_updated i)) now;
          st4 = warn_if (di_status i = ''draft'' \<and> draftAge > DRAFT_MAX_DAYS) (RDraft draftAge) st3;
          idle = ageInDays (di_updated i) now
      in warn_if (di_confidence i = ''low'' \<and> idle \<ge> LOW_CONFIDENCE_MAX_DAYS) (RLowConfidence idle) st4)"

definition computeDecay :: "decay_input \<Rightarrow> int \<Rightarrow> decay_state option" where
  "computeDecay i now =
     (let st5 = decay_checks i now;
          s = computeStaleness (di_updated i) (di_ttl_days i) now;
          st6 = (if fst st5 = None \<and> \<not> st_expired s \<and> st_score s \<ge> 1 / 2
                 then (Some LevelAging, snd st5 @ [RAging (st_age_days s) (st_score s) (st_ttl_days s)])
                 else st5)
      in case fst st6 of
           None \<Rightarrow> None
         | Some level \<Rightarrow> Some \<lparr>ds_level = level, ds_reasons = snd st6,
             ds_banner = renderBanner level (snd st6) (di_status i)\<rparr>)"

section \<open>Validity\<close>

datatype validity_state = InWindow | Expired | NotYet | UnknownValidity

record validity_report =
  vr_from :: "string option"
  vr_until :: "string option"
  vr_state :: validity_state
  vr_banner :: "string option"

definition daysBetween :: "string \<Rightarrow> string \<Rightarrow> int" where
  "daysBetween fromISO toISO =
     (case (date_parse (fromISO @ ''T00:00:00Z''), date_parse (toISO @ ''T00:00:00Z'')) of
        (Some a, Some b) \<Rightarrow> (b - a) div MS_PER_DAY
      | _ \<Rightarrow> 0)"

text \<open>The warning sign and the dash of the banner are not ASCII; these are their UTF-8 bytes.\<close>

definition stale_prefix :: string where
  "stale_prefix = [CHR 0xE2, CHR 0x9A, CHR 0xA0] @ '' STALE '' @ [CHR 0xE2, CHR 0x80, CHR 0x94]"

definition norm_opt :: "string option \<Rightarrow> string option" where
  "norm_opt raw = (case raw of None \<Rightarrow> None | Some s \<Rightarrow> normalizeIsoDate s)"

definition malformed :: "string option \<Rightarrow> bool" where
  "malformed raw \<longleftrightarrow> raw \<noteq> None \<and> norm_opt raw = None"

definition computeValidity :: "string option \<Rightarrow> string option \<Rightarrow> string \<Rightarrow> validity_report option" where
  "computeValidity rawFrom rawUntil day =
     (let report = (\<lambda>state banner. Some \<lparr>vr_from = rawFrom, vr_until = rawUntil, vr_state = state,
                     vr_banner = banner\<rparr>)
      in if rawFrom = None \<and> rawUntil = None then None
         else if malformed rawFrom \<or> malformed rawUntil then report UnknownValidity None
         else case normalizeIsoDate day of
           None \<Rightarrow> report UnknownValidity None
         | Some when \<Rightarrow>
             (case (norm_opt rawFrom, norm_opt rawUntil) of
                (Some f, Some u) \<Rightarrow>
                  if u \<le> f then report UnknownValidity None
                  else if when < f then report NotYet None
                  else if when \<ge> u
                  then report Expired (Some (stale_prefix @ '' validity ended '' @ u @ '' ('' @
                         int_str (daysBetween u when) @ ''d ago)''))
                  else report InWindow None
              | (Some f, None) \<Rightarrow> if when < f then report NotYet None else report InWindow None
              | (None, Some u) \<Rightarrow>
                  if when \<ge> u
                  then report Expired (Some (stale_prefix @ '' validity ended '' @ u @ '' ('' @
                         int_str (daysBetween u when) @ ''d ago)''))
                  else report InWindow None
              | (None, None) \<Rightarrow> report InWindow None))"

datatype conflict_kind = MalformedEndpoint | Inverted | SupersessionOverlap | SupersessionGap | ExpiredCanonical

text \<open>A finding names the document, the kind and the dates its message quotes.\<close>

record validity_conflict =
  vc_path :: string
  vc_kind :: conflict_kind
  vc_dates :: "string list"

definition todayISO :: "int \<Rightarrow> string" where
  "todayISO now = take 10 (to_iso now)"

definition byPathOf :: "loaded_doc list \<Rightarrow> (string, loaded_doc) jmap" where
  "byPathOf docs = index_by ld_path docs"

definition pair_conflicts :: "(string, loaded_doc) jmap \<Rightarrow> loaded_doc \<Rightarrow> string option \<Rightarrow> validity_conflict list" where
  "pair_conflicts byPath d until =
     (case (fm_superseded_by (ld_frontmatter d), until) of
        (Some successorPath, Some u) \<Rightarrow>
          (case map_of byPath successorPath of
             None \<Rightarrow> []
           | Some successor \<Rightarrow>
               (case normalizeIsoDate (case fm_valid_from (ld_frontmatter successor) of None \<Rightarrow> [] | Some s \<Rightarrow> s) of
                  None \<Rightarrow> []
                | Some sFrom \<Rightarrow>
                    if sFrom < u then [\<lparr>vc_path = ld_path d, vc_kind = SupersessionOverlap, vc_dates = [u, sFrom]\<rparr>]
                    else if sFrom > u then [\<lparr>vc_path = ld_path d, vc_kind = SupersessionGap, vc_dates = [u, sFrom]\<rparr>]
                    else []))
      | _ \<Rightarrow> [])"

definition expired_canonical :: "string \<Rightarrow> loaded_doc \<Rightarrow> string option \<Rightarrow> validity_conflict list" where
  "expired_canonical today d until =
     (case until of
        None \<Rightarrow> []
      | Some u \<Rightarrow>
          if fm_status (ld_frontmatter d) = Canonical \<and> fm_domain (ld_frontmatter d) = Accumulation
             \<and> u < today \<and> fm_superseded_by (ld_frontmatter d) = None
          then [\<lparr>vc_path = ld_path d, vc_kind = ExpiredCanonical, vc_dates = [u]\<rparr>] else [])"

definition doc_conflicts :: "(string, loaded_doc) jmap \<Rightarrow> string \<Rightarrow> loaded_doc \<Rightarrow> validity_conflict list" where
  "doc_conflicts byPath today d =
     (let fm = ld_frontmatter d; rawFrom = fm_valid_from fm; rawUntil = fm_valid_until fm;
          from1 = norm_opt rawFrom; until1 = norm_opt rawUntil;
          bad = (\<lambda>raw. if malformed raw
                  then [\<lparr>vc_path = ld_path d, vc_kind = MalformedEndpoint, vc_dates = [the raw]\<rparr>] else [])
      in if rawFrom = None \<and> rawUntil = None then []
         else if malformed rawFrom \<or> malformed rawUntil then bad rawFrom @ bad rawUntil
         else case (from1, until1) of
                (Some f, Some u) \<Rightarrow>
                  if u \<le> f then [\<lparr>vc_path = ld_path d, vc_kind = Inverted, vc_dates = [f, u]\<rparr>]
                  else pair_conflicts byPath d until1 @ expired_canonical today d until1
              | _ \<Rightarrow> pair_conflicts byPath d until1 @ expired_canonical today d until1)"

definition validityConflicts :: "loaded_doc list \<Rightarrow> int \<Rightarrow> validity_conflict list" where
  "validityConflicts docs now = concat (map (doc_conflicts (byPathOf docs) (todayISO now)) docs)"

section \<open>Staleness: the score\<close>

lemma ageInDays_mono: "now \<le> now' \<Longrightarrow> ageInDays d now \<le> ageInDays d now'"
  by (auto simp: ageInDays_def MS_PER_DAY_def split: option.splits intro!: zdiv_mono1)

lemma staleness_no_ttl [simp]:
  "st_score (computeStaleness u None now) = 0" "\<not> st_expired (computeStaleness u None now)"
  by (simp_all add: computeStaleness_def Let_def)

lemma staleness_fields [simp]:
  "st_age_days (computeStaleness u ttl now) = ageInDays u now"
  "st_ttl_days (computeStaleness u ttl now) = ttl"
  by (simp_all add: computeStaleness_def Let_def split: option.splits)

lemma staleness_expired:
  "st_expired (computeStaleness u (Some t) now) \<longleftrightarrow>
     (if t \<le> 0 then 0 < ageInDays u now else t \<le> of_int (ageInDays u now))"
  by (simp add: computeStaleness_def Let_def)

lemma staleness_score_one:
  "st_score (computeStaleness u (Some t) now) = 1 \<longleftrightarrow> st_expired (computeStaleness u (Some t) now)"
  by (auto simp: computeStaleness_def Let_def min_def max_def field_simps split: if_splits)

text \<open>
  the staleness score of a document with a TTL lies between 0 and 1, is 1 exactly when the
  document is expired, and never falls as time passes.
\<close>

theorem staleness_score_monotone:
  assumes "now \<le> now'"
  shows "0 \<le> st_score (computeStaleness u (Some t) now)
    \<and> st_score (computeStaleness u (Some t) now) \<le> 1
    \<and> (st_score (computeStaleness u (Some t) now) = 1 \<longleftrightarrow> st_expired (computeStaleness u (Some t) now))
    \<and> st_score (computeStaleness u (Some t) now) \<le> st_score (computeStaleness u (Some t) now')"
proof (intro conjI)
  show "0 \<le> st_score (computeStaleness u (Some t) now)" "st_score (computeStaleness u (Some t) now) \<le> 1"
    by (simp_all add: computeStaleness_def Let_def)
  show "st_score (computeStaleness u (Some t) now) = 1 \<longleftrightarrow> st_expired (computeStaleness u (Some t) now)"
    by (rule staleness_score_one)
  have age: "ageInDays u now \<le> ageInDays u now'" using assms by (rule ageInDays_mono)
  then have "of_int (ageInDays u now) / t \<le> of_int (ageInDays u now') / t" if "0 < t"
    using that by (intro divide_right_mono) simp_all
  with age show "st_score (computeStaleness u (Some t) now) \<le> st_score (computeStaleness u (Some t) now')"
    by (auto simp: computeStaleness_def Let_def intro!: min.mono max.mono)
qed

theorem staleness_score_monotone_witness:
  "st_score (computeStaleness ''2024-01-01'' (Some 30) 1704067200000)
     \<le> st_score (computeStaleness ''2024-01-01'' (Some 30) 1706659200000)"
  using staleness_score_monotone [of 1704067200000 1706659200000 "''2024-01-01''" 30] by simp

section \<open>Staleness: the series rule\<close>

definition rank :: "series_member \<Rightarrow> int option \<times> string" where
  "rank d = (writtenAt d, sm_path d)"

lemma isNewer_rank: "isNewer a b \<longleftrightarrow> rank b < rank a"
  by (auto simp: isNewer_def rank_def Let_def)

definition active_in :: "string \<Rightarrow> series_member \<Rightarrow> bool" where
  "active_in s d \<longleftrightarrow> series_key d = Some s \<and> sm_status d \<notin> set RETIRED_STATUSES"

definition newest_of :: "series_member option \<Rightarrow> series_member \<Rightarrow> series_member option" where
  "newest_of h d = (case h of None \<Rightarrow> Some d | Some x \<Rightarrow> if isNewer d x then Some d else h)"

lemma newest_of_simps:
  "newest_of None d = Some d" "newest_of (Some x) d = (if isNewer d x then Some d else Some x)"
  by (simp_all add: newest_of_def)

lemma series_step_newest:
  "map_of (fst (series_step st d)) s =
     (if active_in s d then newest_of (map_of (fst st) s) d else map_of (fst st) s)"
  by (cases st) (auto simp: series_step_def active_in_def newest_of_def Let_def split: option.splits)

lemma series_step_keys: "distinct (jkeys (fst st)) \<Longrightarrow> distinct (jkeys (fst (series_step st d)))"
  by (cases st) (auto simp: series_step_def Let_def split: option.splits)

lemma series_step_older:
  "snd (series_step st d) = (if series_key d = None then snd st else insert (sm_path d) (snd st))"
  by (cases st) (auto simp: series_step_def Let_def split: option.splits)

lemma series_fold:
  defines "st ds \<equiv> foldl series_step ([], {}) ds"
  shows "distinct (jkeys (fst (st docs)))"
    "snd (st docs) = sm_path ` {d \<in> set docs. series_key d \<noteq> None}"
    "map_of (fst (st docs)) s = foldl newest_of None (filter (active_in s) docs)"
  unfolding st_def
  by (induction docs rule: rev_induct) (auto simp: series_step_keys series_step_older series_step_newest)

lemma newest_of_foldl:
  "foldl newest_of None ds = None \<longleftrightarrow> ds = []"
  "foldl newest_of None ds = Some h \<Longrightarrow> h \<in> set ds \<and> (\<forall>d \<in> set ds. rank d \<le> rank h)"
proof (induction ds arbitrary: h rule: rev_induct)
  case Nil
  { case 1 show ?case by simp }
  { case 2 then show ?case by simp }
next
  case (snoc d ds)
  { case 1 show ?case by (cases "foldl newest_of None ds") (auto simp: newest_of_simps) }
  { case 2
    then show ?case
    proof (cases "foldl newest_of None ds")
      case None
      then have "ds = []" using snoc.IH(1) by simp
      with 2 show ?thesis by (simp add: newest_of_simps)
    next
      case (Some x)
      from snoc.IH(2) [OF Some] 2 Some show ?thesis
        by (auto simp: newest_of_simps isNewer_rank split: if_splits dest: order.strict_implies_order order.trans)
    qed }
qed

lemma foldl_remove: "foldl (\<lambda>o1 h. o1 - {f h}) A hs = A - f ` set hs"
  by (induction hs arbitrary: A) auto

lemma older_members_heads:
  "olderSeriesMembers docs =
     sm_path ` {d \<in> set docs. series_key d \<noteq> None}
     - sm_path ` {h. \<exists>s. foldl newest_of None (filter (active_in s) docs) = Some h}"
proof -
  obtain newest older where st: "foldl series_step ([], {}) docs = (newest, older)"
    by (metis surj_pair)
  have "set (map snd newest) = {h. \<exists>s. map_of newest s = Some h}"
    using series_fold(1) [of docs] st by (force simp: map_of_eq_Some_iff)
  then show ?thesis
    using series_fold(2,3) [of docs] st by (simp add: olderSeriesMembers_def foldl_remove)
qed

text \<open>
  with distinct paths, a document that belongs to a series keeps its TTL exactly when it is
  not retired and no other active member of its series is newer; every other member is reported
  as an older snapshot, and documents outside every series never are.
\<close>

theorem series_newest_kept:
  assumes paths: "distinct (map sm_path docs)" and d: "d \<in> set docs"
  shows "sm_path d \<in> olderSeriesMembers docs \<longleftrightarrow>
    (case series_key d of
       None \<Rightarrow> False
     | Some s \<Rightarrow> sm_status d \<in> set RETIRED_STATUSES
         \<or> (\<exists>e \<in> set docs. series_key e = Some s \<and> sm_status e \<notin> set RETIRED_STATUSES \<and> isNewer e d))"
proof -
  have inj: "x = d" if "sm_path x = sm_path d" "x \<in> set docs" for x
    using paths d that by (auto simp: distinct_map dest: inj_onD)
  have head_in: "h \<in> set docs" "active_in s h" "\<forall>e \<in> set docs. active_in s e \<longrightarrow> rank e \<le> rank h"
    if "foldl newest_of None (filter (active_in s) docs) = Some h" for s h
    using newest_of_foldl(2) [OF that] by auto
  have older: "sm_path d \<in> olderSeriesMembers docs \<longleftrightarrow> series_key d \<noteq> None
      \<and> (\<forall>s. foldl newest_of None (filter (active_in s) docs) \<noteq> Some d)"
  proof -
    have "sm_path d \<in> sm_path ` {d \<in> set docs. series_key d \<noteq> None} \<longleftrightarrow> series_key d \<noteq> None"
    proof
      assume "sm_path d \<in> sm_path ` {d \<in> set docs. series_key d \<noteq> None}"
      then obtain x where "sm_path x = sm_path d" "x \<in> set docs" "series_key x \<noteq> None" by auto
      with inj show "series_key d \<noteq> None" by metis
    qed (use d in simp)
    moreover have "sm_path d \<in> sm_path ` {h. \<exists>s. foldl newest_of None (filter (active_in s) docs) = Some h}
        \<longleftrightarrow> (\<exists>s. foldl newest_of None (filter (active_in s) docs) = Some d)"
    proof
      assume "sm_path d \<in> sm_path ` {h. \<exists>s. foldl newest_of None (filter (active_in s) docs) = Some h}"
      then obtain h s where h: "sm_path h = sm_path d" "foldl newest_of None (filter (active_in s) docs) = Some h"
        by auto
      with inj head_in(1) have "h = d" by metis
      with h show "\<exists>s. foldl newest_of None (filter (active_in s) docs) = Some d" by metis
    qed blast
    ultimately show ?thesis by (simp add: older_members_heads)
  qed
  show ?thesis
  proof (cases "series_key d")
    case None
    then show ?thesis by (simp add: older)
  next
    case (Some s)
    have key: "s' = s" if "foldl newest_of None (filter (active_in s') docs) = Some d" for s'
      using head_in(2) [OF that] Some by (simp add: active_in_def)
    show ?thesis
    proof (cases "active_in s d")
      case False
      then have "foldl newest_of None (filter (active_in s') docs) \<noteq> Some d" for s'
        using head_in(2) key by metis
      moreover have "sm_status d \<in> set RETIRED_STATUSES" using False Some by (simp add: active_in_def)
      ultimately show ?thesis using Some by (simp add: older)
    next
      case True
      then have "filter (active_in s) docs \<noteq> []" using d by (auto simp: filter_empty_conv)
      then obtain h where h: "foldl newest_of None (filter (active_in s) docs) = Some h"
        using newest_of_foldl(1) by (metis not_None_eq)
      have "h = d \<longleftrightarrow> (\<forall>e \<in> set docs. active_in s e \<longrightarrow> rank e \<le> rank d)"
        using head_in [OF h] inj [of h] d True by (metis antisym prod.inject rank_def)
      moreover have "(\<exists>s'. foldl newest_of None (filter (active_in s') docs) = Some d) \<longleftrightarrow> h = d"
        using key h by (metis option.inject)
      ultimately show ?thesis
        using True Some by (simp add: older active_in_def isNewer_rank) (metis not_le)
    qed
  qed
qed

definition weekly :: "string \<Rightarrow> doc_status \<Rightarrow> string \<Rightarrow> series_member" where
  "weekly p st c = \<lparr>sm_path = p, sm_series = Some ''weekly'', sm_status = st, sm_created = c, sm_updated = c\<rparr>"

theorem series_newest_kept_witness:
  "''w1.md'' \<in> olderSeriesMembers [weekly ''w1.md'' Draft ''2024-01-01'', weekly ''w2.md'' Draft ''2024-01-08'']"
proof -
  let ?docs = "[weekly ''w1.md'' Draft ''2024-01-01'', weekly ''w2.md'' Draft ''2024-01-08'']"
  have "isNewer (?docs ! 1) (?docs ! 0)" "series_key (?docs ! 0) = Some ''weekly''"
    "series_key (?docs ! 1) = Some ''weekly''" by code_simp+
  then show ?thesis
    using series_newest_kept [of ?docs "?docs ! 0"] by (simp add: weekly_def RETIRED_STATUSES_def)
qed

section \<open>Decay: the level\<close>

definition retired_input :: "decay_input \<Rightarrow> bool" where
  "retired_input i \<longleftrightarrow> di_status i = ''superseded'' \<or> di_status i = ''deprecated''"

definition warns :: "decay_input \<Rightarrow> int \<Rightarrow> bool" where
  "warns i now \<longleftrightarrow> st_expired (computeStaleness (di_updated i) (di_ttl_days i) now)
     \<or> di_status i = ''draft'' \<and> ageInDays (js_or (di_created i) (di_updated i)) now > 30
     \<or> di_confidence i = ''low'' \<and> ageInDays (di_updated i) now \<ge> 30"

definition decay_level_spec :: "decay_input \<Rightarrow> int \<Rightarrow> decay_level option" where
  "decay_level_spec i now =
     (if retired_input i then Some LevelDeprecated
      else if warns i now then Some LevelWarn
      else if st_score (computeStaleness (di_updated i) (di_ttl_days i) now) \<ge> 1 / 2 then Some LevelAging
      else None)"

lemma expired_has_ttl: "st_expired (computeStaleness u ttl now) \<Longrightarrow> ttl \<noteq> None"
  by (cases ttl) simp_all

lemma warn_if_level [simp]:
  "fst (warn_if c r st) = (if c \<and> fst st = None then Some LevelWarn else fst st)"
  by (simp add: warn_if_def)

lemma warn_if_reasons [simp]: "snd (warn_if c r st) = snd st @ (if c then [r] else [])"
  by (simp add: warn_if_def)

lemma decay_checks_level:
  "fst (decay_checks i now) =
     (if retired_input i then Some LevelDeprecated else if warns i now then Some LevelWarn else None)"
  by (cases "di_ttl_days i")
    (simp_all add: decay_checks_def retired_input_def warns_def DRAFT_MAX_DAYS_def
      LOW_CONFIDENCE_MAX_DAYS_def Let_def)

lemma decay_checks_reasons: "snd (decay_checks i now) = [] \<longleftrightarrow> fst (decay_checks i now) = None"
  by (cases "di_ttl_days i") (simp_all add: decay_checks_def Let_def)

lemma decay_facts:
  "map_option ds_level (computeDecay i now) = decay_level_spec i now"
  "computeDecay i now = Some s \<Longrightarrow> (ds_banner s = None \<longleftrightarrow> ds_level s = LevelAging) \<and> ds_reasons s \<noteq> []"
proof -
  have exp: "\<not> warns i now \<Longrightarrow> \<not> st_expired (computeStaleness (di_updated i) (di_ttl_days i) now)"
    by (simp add: warns_def)
  show "map_option ds_level (computeDecay i now) = decay_level_spec i now"
    using exp by (simp add: computeDecay_def decay_level_spec_def decay_checks_level Let_def)
  show "computeDecay i now = Some s \<Longrightarrow> (ds_banner s = None \<longleftrightarrow> ds_level s = LevelAging) \<and> ds_reasons s \<noteq> []"
    using decay_checks_reasons [of i now]
    by (auto simp: computeDecay_def renderBanner_def Let_def split: option.splits if_splits)
qed

text \<open>
  The function \<open>computeDecay\<close> reports nothing exactly for a document that is neither retired, nor past a
  warning threshold, nor past half its TTL; retirement outranks the warnings, which outrank
  ageing; only the ageing level has no banner, and every report states at least one reason.
\<close>

theorem decay_level_precedence:
  "map_option ds_level (computeDecay i now) = decay_level_spec i now
   \<and> pred_option (\<lambda>s. (ds_banner s = None \<longleftrightarrow> ds_level s = LevelAging) \<and> ds_reasons s \<noteq> []) (computeDecay i now)"
  using decay_facts [of i now] by (cases "computeDecay i now") simp_all

section \<open>Validity: half-open windows\<close>

definition validity_at :: "string option \<Rightarrow> string option \<Rightarrow> string \<Rightarrow> validity_state option" where
  "validity_at rawFrom rawUntil day = map_option vr_state (computeValidity rawFrom rawUntil day)"

lemma validity_at_cases:
  assumes "normalizeIsoDate day = Some d"
  shows "normalizeIsoDate rf = Some f \<Longrightarrow> normalizeIsoDate ru = Some u \<Longrightarrow> f < u \<Longrightarrow>
      validity_at (Some rf) (Some ru) day = Some (if d < f then NotYet else if u \<le> d then Expired else InWindow)"
    "normalizeIsoDate ru = Some u \<Longrightarrow>
      validity_at None (Some ru) day = Some (if u \<le> d then Expired else InWindow)"
    "normalizeIsoDate rf = Some f \<Longrightarrow>
      validity_at (Some rf) None day = Some (if d < f then NotYet else InWindow)"
  using assms by (auto simp: validity_at_def computeValidity_def malformed_def norm_opt_def Let_def)

text \<open>
  C2: windows are half-open, so a handoff is exact: when a document's \<^verbatim>\<open>valid_until\<close> names the
  same day as its successor's \<^verbatim>\<open>valid_from\<close>, every day between the first one's start and the
  second one's end is in the window of exactly one of the two, and no other day is in either.
\<close>

theorem validity_handoff_exact:
  assumes "normalizeIsoDate rawF = Some f" "normalizeIsoDate rawM = Some m" "normalizeIsoDate rawU = Some u"
    and "f < m" "m < u" "normalizeIsoDate day = Some d"
  shows "f \<le> d \<and> d < u \<longleftrightarrow>
    (validity_at (Some rawF) (Some rawM) day = Some InWindow) \<noteq> (validity_at (Some rawM) (Some rawU) day = Some InWindow)"
    (is ?exact)
proof -
  have "validity_at (Some rawF) (Some rawM) day = Some InWindow \<longleftrightarrow> f \<le> d \<and> d < m"
    "validity_at (Some rawM) (Some rawU) day = Some InWindow \<longleftrightarrow> m \<le> d \<and> d < u"
    using assms by (auto simp: validity_at_cases not_le not_less)
  then show ?exact using assms(4,5) by (metis leD leI less_le_trans order.strict_trans)
qed

lemma normalize_2024: "normalizeIsoDate ''2024-01-01'' = Some ''2024-01-01''"
  "normalizeIsoDate ''2024-02-01'' = Some ''2024-02-01''" "normalizeIsoDate ''2024-03-01'' = Some ''2024-03-01''"
  by code_simp+

theorem validity_handoff_exact_witness:
  "validity_at (Some ''2024-01-01'') (Some ''2024-02-01'') ''2024-02-01''
     \<noteq> validity_at (Some ''2024-02-01'') (Some ''2024-03-01'') ''2024-02-01''"
proof -
  have "''2024-01-01'' < ''2024-02-01''" "''2024-02-01'' < ''2024-03-01''" by code_simp+
  with validity_handoff_exact [OF normalize_2024 this normalize_2024(2)] show ?thesis by auto
qed

section \<open>Validity: the lint\<close>

lemma doc_conflicts_path: "c \<in> set (doc_conflicts m t d) \<Longrightarrow> vc_path c = ld_path d"
  by (auto simp: doc_conflicts_def pair_conflicts_def expired_canonical_def Let_def
      split: option.splits if_splits)

lemma expired_canonical_kind: "c \<in> set (expired_canonical t d u) \<Longrightarrow> vc_kind c = ExpiredCanonical"
  by (auto simp: expired_canonical_def split: option.splits if_splits)

text \<open>
  For a document whose window is well formed and whose successor states when its own window
  begins, the lint reports an overlap exactly when the successor begins earlier than the
  document ends, a gap exactly when it begins later, and neither for the exact handoff.
\<close>

theorem lint_reports_bad_handoff:
  assumes paths: "distinct (map ld_path docs)" and d: "d \<in> set docs" "s \<in> set docs"
    and succ: "fm_superseded_by (ld_frontmatter d) = Some (ld_path s)"
    and until1: "fm_valid_until (ld_frontmatter d) = Some ru" "normalizeIsoDate ru = Some u"
    and from1: "fm_valid_from (ld_frontmatter d) = Some rf" "normalizeIsoDate rf = Some f" "f < u"
    and sfrom: "fm_valid_from (ld_frontmatter s) = Some rs" "normalizeIsoDate rs = Some b"
  shows "{vc_kind c | c. c \<in> set (validityConflicts docs now) \<and> vc_path c = ld_path d}
    = (if b < u then {SupersessionOverlap} else if u < b then {SupersessionGap} else {})"
proof -
  let ?m = "byPathOf docs" and ?t = "todayISO now"
  have only: "c \<in> set (validityConflicts docs now) \<and> vc_path c = ld_path d \<longleftrightarrow> c \<in> set (doc_conflicts ?m ?t d)" for c
  proof
    assume c: "c \<in> set (validityConflicts docs now) \<and> vc_path c = ld_path d"
    then obtain e where e: "e \<in> set docs" "c \<in> set (doc_conflicts ?m ?t e)"
      by (auto simp: validityConflicts_def)
    with c have "ld_path e = ld_path d" by (auto dest: doc_conflicts_path)
    with e paths d have "e = d" by (auto simp: distinct_map dest: inj_onD)
    with e show "c \<in> set (doc_conflicts ?m ?t d)" by simp
  qed (use d in \<open>auto simp: validityConflicts_def dest: doc_conflicts_path\<close>)
  have "doc_conflicts ?m ?t d = pair_conflicts ?m d (Some u)"
    using until1 from1 succ by (simp add: doc_conflicts_def malformed_def norm_opt_def expired_canonical_def Let_def
        not_le [THEN iffD2, OF from1(3)])
  then show ?thesis
    using index_by_lookup [OF paths d(2)] succ sfrom by (simp add: only pair_conflicts_def byPathOf_def)
qed

definition windowed :: "string \<Rightarrow> string \<Rightarrow> string \<Rightarrow> string option \<Rightarrow> loaded_doc" where
  "windowed p f u s = \<lparr>ld_path = p, ld_frontmatter = blank_fm\<lparr>fm_status := Canonical, fm_valid_from := Some f,
     fm_valid_until := Some u, fm_superseded_by := s\<rparr>, ld_content = []\<rparr>"

theorem lint_reports_bad_handoff_witness:
  "{vc_kind c | c. c \<in> set (validityConflicts [windowed ''a.md'' ''2024-01-01'' ''2024-02-01'' (Some ''b.md''),
       windowed ''b.md'' ''2024-03-01'' ''2024-04-01'' None] 0) \<and> vc_path c = ''a.md''} = {SupersessionGap}"
proof -
  have lt: "''2024-01-01'' < ''2024-02-01''" "\<not> ''2024-03-01'' < ''2024-02-01''" "''2024-02-01'' < ''2024-03-01''"
    by code_simp+
  let ?a = "windowed ''a.md'' ''2024-01-01'' ''2024-02-01'' (Some ''b.md'')"
  let ?b = "windowed ''b.md'' ''2024-03-01'' ''2024-04-01'' None"
  have "distinct (map ld_path [?a, ?b])" "?a \<in> set [?a, ?b]" "?b \<in> set [?a, ?b]"
    "fm_superseded_by (ld_frontmatter ?a) = Some (ld_path ?b)"
    "fm_valid_until (ld_frontmatter ?a) = Some ''2024-02-01''"
    "fm_valid_from (ld_frontmatter ?a) = Some ''2024-01-01''"
    "fm_valid_from (ld_frontmatter ?b) = Some ''2024-03-01''" and "ld_path ?a = ''a.md''"
    by (simp_all add: windowed_def)
  note facts = this
  from lint_reports_bad_handoff [OF facts(1-5) normalize_2024(2) facts(6) normalize_2024(1) lt(1)
      facts(7) normalize_2024(3), of 0] show ?thesis
    unfolding facts(8) by (simp only: lt if_True if_False)
qed

text \<open>
  The lint's expired-canonical check compares with \<^verbatim>\<open>until < today\<close>, while the window is
  half-open: on the first day a canonical document no longer holds, \<open>computeValidity\<close> says it is
  expired and the lint is silent.
\<close>

lemma lint_silent_on_first_expired_day:
  assumes "fm_valid_from (ld_frontmatter d) = None" "fm_valid_until (ld_frontmatter d) = Some (todayISO now)"
    and "fm_superseded_by (ld_frontmatter d) = None" "normalizeIsoDate (todayISO now) = Some (todayISO now)"
  shows "validity_at None (Some (todayISO now)) (todayISO now) = Some Expired"
    "validityConflicts [d] now = []"
proof -
  show "validity_at None (Some (todayISO now)) (todayISO now) = Some Expired"
    using assms by (simp add: validity_at_cases)
  show "validityConflicts [d] now = []"
    using assms by (simp add: validityConflicts_def doc_conflicts_def malformed_def norm_opt_def
        pair_conflicts_def expired_canonical_def Let_def)
qed

end
