(* ===== verification/Walks.thy ===== *)
theory Walks
  imports Daftari_Base
begin

text \<open>
  Walks along a partial successor function, the shape of every \<^verbatim>\<open>superseded_by\<close> loop in the
  code: follow the pointer until it ends or comes back to a node already seen. A trail is the
  list of nodes visited so far. The lemmas show that a trail which cannot be extended by a new
  node is exactly the set of nodes reachable from its start, and that the start lies on a loop
  exactly when the trail's last node points back to it.
\<close>

definition succ_rel :: "('k \<Rightarrow> 'k option) \<Rightarrow> ('k \<times> 'k) set" where
  "succ_rel nxt = {(a, b). nxt a = Some b}"

lemma succ_rel_iff [simp]: "(a, b) \<in> succ_rel nxt \<longleftrightarrow> nxt a = Some b"
  by (simp add: succ_rel_def)

fun is_trail :: "('k \<Rightarrow> 'k option) \<Rightarrow> 'k list \<Rightarrow> bool" where
  "is_trail nxt [] = False"
| "is_trail nxt [k] = True"
| "is_trail nxt (k # l # ks) = (nxt k = Some l \<and> is_trail nxt (l # ks))"

lemma is_trail_nonempty: "is_trail nxt w \<Longrightarrow> w \<noteq> []"
  by auto

lemma is_trail_snoc:
  "w \<noteq> [] \<Longrightarrow> is_trail nxt (w @ [k]) \<longleftrightarrow> is_trail nxt w \<and> nxt (last w) = Some k"
proof (induction nxt w rule: is_trail.induct)
  case (3 nxt a b ks)
  then show ?case by simp
qed auto

lemma is_trail_nth: "is_trail nxt w \<Longrightarrow> Suc i < length w \<Longrightarrow> nxt (w ! i) = Some (w ! Suc i)"
proof (induction nxt w arbitrary: i rule: is_trail.induct)
  case (3 nxt a b ks)
  then show ?case by (cases i) auto
qed auto

lemma is_trail_drop: "is_trail nxt w \<Longrightarrow> i < length w \<Longrightarrow> is_trail nxt (drop i w)"
proof (induction nxt w arbitrary: i rule: is_trail.induct)
  case (3 nxt a b ks)
  then show ?case by (cases i) auto
qed (auto split: nat.splits simp: less_Suc_eq)

lemma trail_reaches: "is_trail nxt w \<Longrightarrow> k \<in> set w \<Longrightarrow> (hd w, k) \<in> (succ_rel nxt)\<^sup>*"
proof (induction nxt w rule: is_trail.induct)
  case (3 nxt a b ks)
  then show ?case by (auto intro: converse_rtrancl_into_rtrancl)
qed auto

definition trail_closed :: "('k \<Rightarrow> 'k option) \<Rightarrow> 'k list \<Rightarrow> bool" where
  "trail_closed nxt w \<longleftrightarrow> (\<forall>k. nxt (last w) = Some k \<longrightarrow> k \<in> set w)"

lemma trail_succ_inside:
  assumes "is_trail nxt w" "trail_closed nxt w" "k \<in> set w" "nxt k = Some l"
  shows "l \<in> set w"
proof -
  obtain i where i: "i < length w" "w ! i = k" using assms(3) by (auto simp: in_set_conv_nth)
  show ?thesis
  proof (cases "Suc i < length w")
    case True
    with is_trail_nth [OF assms(1) True] i assms(4) show ?thesis by auto
  next
    case False
    with i have "k = last w" using is_trail_nonempty [OF assms(1)]
      by (metis Suc_lessI diff_Suc_1 last_conv_nth)
    with assms(2,4) show ?thesis by (simp add: trail_closed_def)
  qed
qed

lemma trail_reachable:
  assumes "is_trail nxt w" "trail_closed nxt w"
  shows "{k. (hd w, k) \<in> (succ_rel nxt)\<^sup>*} = set w"
proof
  show "set w \<subseteq> {k. (hd w, k) \<in> (succ_rel nxt)\<^sup>*}"
    using trail_reaches [OF assms(1)] by auto
  have "k \<in> set w" if "(hd w, k) \<in> (succ_rel nxt)\<^sup>*" for k
    using that
  proof (induction rule: rtrancl_induct)
    case base
    show ?case using is_trail_nonempty [OF assms(1)] by simp
  next
    case (step y z)
    then show ?case using trail_succ_inside [OF assms] by auto
  qed
  then show "{k. (hd w, k) \<in> (succ_rel nxt)\<^sup>*} \<subseteq> set w" by blast
qed

lemma trail_back_to_start:
  assumes w: "is_trail nxt w" "distinct w" and closed: "trail_closed nxt w"
  shows "(hd w, hd w) \<in> (succ_rel nxt)\<^sup>+ \<longleftrightarrow> nxt (last w) = Some (hd w)"
proof
  assume "nxt (last w) = Some (hd w)"
  moreover have "(hd w, last w) \<in> (succ_rel nxt)\<^sup>*"
    using w(1) is_trail_nonempty [OF w(1)] by (intro trail_reaches) auto
  ultimately show "(hd w, hd w) \<in> (succ_rel nxt)\<^sup>+" by (meson rtrancl_into_trancl1 succ_rel_iff)
next
  assume "(hd w, hd w) \<in> (succ_rel nxt)\<^sup>+"
  then obtain b where b: "(hd w, b) \<in> (succ_rel nxt)\<^sup>*" "nxt b = Some (hd w)"
    by (auto dest: tranclD2)
  then obtain i where i: "i < length w" "w ! i = b"
    using trail_reachable [OF w(1) closed] by (metis in_set_conv_nth mem_Collect_eq)
  have "\<not> Suc i < length w"
  proof
    assume "Suc i < length w"
    moreover from this have "w ! Suc i = w ! 0"
      using is_trail_nth [OF w(1), of i] i b(2) is_trail_nonempty [OF w(1)] by (simp add: hd_conv_nth)
    ultimately show False using nth_eq_iff_index_eq [OF w(2), of "Suc i" 0] by force
  qed
  with i have "b = last w" using is_trail_nonempty [OF w(1)]
    by (metis Suc_lessI diff_Suc_1 last_conv_nth)
  with b(2) show "nxt (last w) = Some (hd w)" by simp
qed

lemma trail_last_reach: "is_trail nxt w \<Longrightarrow> k \<in> set w \<Longrightarrow> (k, last w) \<in> (succ_rel nxt)\<^sup>*"
proof -
  assume w: "is_trail nxt w" and k: "k \<in> set w"
  then obtain i where i: "i < length w" "w ! i = k" by (auto simp: in_set_conv_nth)
  have "is_trail nxt (drop i w)" "last w \<in> set (drop i w)" "hd (drop i w) = k"
    using is_trail_drop [OF w i(1)] i by (auto simp: hd_drop_conv_nth last_drop [symmetric] simp del: last_drop)
  then show "(k, last w) \<in> (succ_rel nxt)\<^sup>*" using trail_reaches by metis
qed

text \<open>On a trail that closes into its start, every node is on the loop and reaches exactly the trail.\<close>

lemma loop_members:
  assumes w: "is_trail nxt w" and close: "nxt (last w) = Some (hd w)" and k: "k \<in> set w"
  shows "(k, k) \<in> (succ_rel nxt)\<^sup>+" "{q. (k, q) \<in> (succ_rel nxt)\<^sup>*} = set w"
proof -
  have closed: "trail_closed nxt w" using close is_trail_nonempty [OF w] by (simp add: trail_closed_def)
  have to_hd: "(k, hd w) \<in> (succ_rel nxt)\<^sup>+"
    using trail_last_reach [OF w k] close by (meson rtrancl_into_trancl1 succ_rel_iff)
  have from_hd: "(hd w, q) \<in> (succ_rel nxt)\<^sup>* \<longleftrightarrow> q \<in> set w" for q
    using trail_reachable [OF w closed] by blast
  show "(k, k) \<in> (succ_rel nxt)\<^sup>+" using to_hd from_hd k by (meson trancl_rtrancl_trancl)
  have "(k, q) \<in> (succ_rel nxt)\<^sup>* \<longleftrightarrow> q \<in> set w" for q
    using to_hd from_hd k by (meson rtrancl_trans trancl_into_rtrancl)
  then show "{q. (k, q) \<in> (succ_rel nxt)\<^sup>*} = set w" by blast
qed

section \<open>Walking an edge map with a guard on seen nodes\<close>

definition walk_measure :: "('k, 'k) jmap \<Rightarrow> 'k list \<Rightarrow> 'k option \<Rightarrow> nat" where
  "walk_measure edges seen at1 =
     (case at1 of None \<Rightarrow> 0 | Some a \<Rightarrow> Suc (card (insert a (snd ` set edges) - set seen)))"

lemma walk_measure_step:
  assumes "a \<notin> set seen"
  shows "walk_measure edges (seen @ [a]) (map_of edges a) < walk_measure edges seen (Some a)"
proof (cases "map_of edges a")
  case None
  then show ?thesis by (simp add: walk_measure_def)
next
  case (Some b)
  then have "b \<in> snd ` set edges" by (force dest: map_of_SomeD)
  then have "insert b (snd ` set edges) - set (seen @ [a]) \<subset> insert a (snd ` set edges) - set seen"
    using assms by auto
  then show ?thesis using Some by (simp add: walk_measure_def psubset_card_mono)
qed

text \<open>The loop \<^verbatim>\<open>while (at !== undefined && !walk.includes(at)) { walk.push(at); at = edges.get(at) }\<close>.\<close>

function walk_edges :: "('k, 'k) jmap \<Rightarrow> 'k list \<Rightarrow> 'k option \<Rightarrow> 'k list \<times> 'k option" where
  "walk_edges edges walk at1 =
     (case at1 of
        None \<Rightarrow> (walk, None)
      | Some a \<Rightarrow> if a \<in> set walk then (walk, Some a) else walk_edges edges (walk @ [a]) (map_of edges a))"
  by pat_completeness auto
termination
  by (relation "measure (\<lambda>(edges, walk, at1). walk_measure edges walk at1)") (auto intro: walk_measure_step)

declare walk_edges.simps [simp del]

lemma walk_edges_spec:
  assumes "is_trail (map_of edges) w" "distinct w" "at1 = map_of edges (last w)" "walk_edges edges w at1 = (v, e)"
  shows "is_trail (map_of edges) v" "distinct v" "hd v = hd w" "e = map_of edges (last v)"
    "trail_closed (map_of edges) v" "e = None \<or> (\<exists>a \<in> set v. e = Some a)"
proof -
  have "is_trail (map_of edges) v \<and> distinct v \<and> hd v = hd w \<and> e = map_of edges (last v)
    \<and> (e = None \<or> (\<exists>a \<in> set v. e = Some a))"
    using assms
  proof (induction edges w at1 rule: walk_edges.induct)
    case (1 edges w at1)
    note ne = is_trail_nonempty [OF 1(2)]
    show ?case
    proof (cases at1)
      case None
      with 1(2-5) show ?thesis by (simp add: walk_edges.simps [of edges w])
    next
      case (Some a)
      show ?thesis
      proof (cases "a \<in> set w")
        case True
        with Some 1(2-5) show ?thesis by (auto simp: walk_edges.simps [of edges w])
      next
        case False
        have "walk_edges edges (w @ [a]) (map_of edges a) = (v, e)"
          using Some False 1(5) by (simp add: walk_edges.simps [of edges w])
        moreover have "is_trail (map_of edges) (w @ [a])" "distinct (w @ [a])"
          using 1(2,3,4) Some False ne by (simp_all add: is_trail_snoc)
        ultimately have "is_trail (map_of edges) v \<and> distinct v \<and> hd v = hd (w @ [a])
            \<and> e = map_of edges (last v) \<and> (e = None \<or> (\<exists>a \<in> set v. e = Some a))"
          by (intro 1(1) [OF Some False]) simp_all
        with ne show ?thesis by (metis hd_append2)
      qed
    qed
  qed
  then show "is_trail (map_of edges) v" "distinct v" "hd v = hd w" "e = map_of edges (last v)"
    "trail_closed (map_of edges) v" "e = None \<or> (\<exists>a \<in> set v. e = Some a)"
    by (auto simp: trail_closed_def)
qed

lemma walk_from:
  assumes "walk_edges edges [] (Some start) = (v, e)"
  shows "is_trail (map_of edges) v" "distinct v" "hd v = start" "e = map_of edges (last v)"
    "trail_closed (map_of edges) v" "e = None \<or> (\<exists>a \<in> set v. e = Some a)"
  using walk_edges_spec [of edges "[start]" "map_of edges start" v e] assms
  by (simp_all add: walk_edges.simps [of edges "[]"])

end
