(* ===== verification/Positions.thy ===== *)
theory Positions
  imports Frontmatter Walks
begin

text \<open>
  Multi-principal positions: \<^verbatim>\<open>src/src/curation/positions.ts\<close>. A claim document carries a list
  of positions; asserting appends the caller's new one and supersedes their old live one. The
  theorems show that ids are fresh, that an assertion leaves every other principal's entry
  alone and passes the foreign-position guard, what the guard guarantees, when a document is
  contested, and that following supersession pointers finds the live end of a chain when there
  is one.
\<close>

section \<open>The operations\<close>

definition nextPositionId :: "position list \<Rightarrow> string" where
  "nextPositionId existing = seq_render ''pos-'' (js_int (max_suffix ''pos-'' (map p_id existing) 0 + 1))"

definition unsuperseded :: "position list \<Rightarrow> position list" where
  "unsuperseded ps = filter (\<lambda>p. p_superseded_by p = None) ps"

definition legacySnapshot :: "confidence \<Rightarrow> provenance \<Rightarrow> string option \<Rightarrow> string \<Rightarrow> position" where
  "legacySnapshot conf prov vfrom updated =
     \<lparr>p_id = ''pos-000'', p_principal = ''unknown'', p_stance = Assert, p_statement = None,
      p_confidence = conf, p_provenance = prov, p_valid_from = vfrom, p_superseded_by = None,
      p_created = updated, p_sources = []\<rparr>"

definition isContested :: "position list \<Rightarrow> bool" where
  "isContested ps =
     (let live = unsuperseded ps
      in list_ex (\<lambda>p. p_stance p = Assert) live \<and> list_ex (\<lambda>p. p_stance p = Dispute) live)"

definition opposite :: "stance \<Rightarrow> stance option" where
  "opposite st = (case st of Assert \<Rightarrow> Some Dispute | Dispute \<Rightarrow> Some Assert | Qualify \<Rightarrow> None)"

definition conflictPairs :: "position \<Rightarrow> position list \<Rightarrow> (position \<times> position) list" where
  "conflictPairs incoming ps =
     (case opposite (p_stance incoming) of
        None \<Rightarrow> []
      | Some opp \<Rightarrow>
          map (\<lambda>p. (p, incoming))
            (filter (\<lambda>p. p_id p \<noteq> p_id incoming \<and> p_stance p = opp) (unsuperseded ps)))"

definition comparePositions :: "position \<Rightarrow> position \<Rightarrow> int" where
  "comparePositions a b =
     (let conf = index_of CONFIDENCES (p_confidence b) - index_of CONFIDENCES (p_confidence a)
      in if conf \<noteq> 0 then conf
         else if p_created a \<noteq> p_created b then (if p_created a < p_created b then 1 else -1)
         else if p_id a < p_id b then -1 else if p_id a > p_id b then 1 else 0)"

definition dissentIds :: "position list \<Rightarrow> stance \<Rightarrow> string list" where
  "dissentIds ps st =
     (case opposite st of
        None \<Rightarrow> []
      | Some opp \<Rightarrow> map p_id (js_sort comparePositions (filter (\<lambda>p. p_stance p = opp) (unsuperseded ps))))"

record positional_tension_ref =
  pt_id :: "string option"
  pt_resolved :: bool
  pt_resolution_kind :: "string option"
  pt_positionA :: string
  pt_positionB :: string

text \<open>
  The loop of \<open>chainEnd\<close>, with the ids seen so far. \<^verbatim>\<open>superseded_by\<close> is tested for truth, so an
  empty string ends the chain like null.
\<close>

definition pos_next :: "position \<Rightarrow> string option" where
  "pos_next p = (case p_superseded_by p of None \<Rightarrow> None | Some s \<Rightarrow> if s = [] then None else Some s)"

function chain_loop :: "(string, position) jmap \<Rightarrow> string list \<Rightarrow> position \<Rightarrow> position option" where
  "chain_loop byId seen cur =
     (case pos_next cur of
        None \<Rightarrow> Some cur
      | Some s \<Rightarrow>
          (case map_of byId s of
             None \<Rightarrow> None
           | Some nxt \<Rightarrow>
               if p_id nxt \<in> set seen then None else chain_loop byId (seen @ [p_id nxt]) nxt))"
  by pat_completeness auto
termination
proof (relation "measure (\<lambda>(byId, seen, cur). card (p_id ` snd ` set byId - set seen))")
  fix byId :: "(string, position) jmap" and seen cur s nxt
  assume "map_of byId s = Some nxt" "p_id nxt \<notin> set seen"
  then have "p_id ` snd ` set byId - set (seen @ [p_id nxt]) \<subset> p_id ` snd ` set byId - set seen"
    by (force dest: map_of_SomeD)
  then show "((byId, seen @ [p_id nxt], nxt), (byId, seen, cur))
      \<in> measure (\<lambda>(byId, seen, cur). card (p_id ` snd ` set byId - set seen))"
    by (simp add: psubset_card_mono)
qed simp

declare chain_loop.simps [simp del]

definition chainEnd :: "(string, position) jmap \<Rightarrow> string \<Rightarrow> position option" where
  "chainEnd byId i = (case map_of byId i of None \<Rightarrow> None | Some cur \<Rightarrow> chain_loop byId [p_id cur] cur)"

definition qualifies ::
    "(string, position) jmap \<Rightarrow> stance \<Rightarrow> string list \<Rightarrow> positional_tension_ref \<Rightarrow> string option" where
  "qualifies byId st dissent t =
     (if pt_resolved t then None
      else case (pt_id t, chainEnd byId (pt_positionA t), chainEnd byId (pt_positionB t)) of
        (Some i, Some ea, Some eb) \<Rightarrow>
          (let aligned = filter (\<lambda>p. p_stance p = st) [ea, eb];
               other = (if p_stance ea = st then eb else ea)
           in if length aligned = 1 \<and> p_id other \<in> set dissent then Some i else None)
      | _ \<Rightarrow> None)"

definition qualifyingDissentTensions ::
    "position list \<Rightarrow> stance \<Rightarrow> string list \<Rightarrow> positional_tension_ref list \<Rightarrow> string list" where
  "qualifyingDissentTensions ps st dissent ts = List.map_filter (qualifies (index_by p_id ps) st dissent) ts"

definition covering :: "positional_tension_ref list \<Rightarrow> string \<Rightarrow> string \<Rightarrow> positional_tension_ref list" where
  "covering ts a b = filter (\<lambda>t. (pt_positionA t = a \<and> pt_positionB t = b)
                              \<or> (pt_positionA t = b \<and> pt_positionB t = a)) ts"

definition covered :: "positional_tension_ref list \<Rightarrow> bool" where
  "covered named = list_ex (\<lambda>t. \<not> pt_resolved t \<or> pt_resolution_kind t = Some ''accepted''
                              \<or> pt_resolution_kind t = Some ''consolidated'') named"

definition uncoveredConflictPairs ::
    "position list \<Rightarrow> positional_tension_ref list \<Rightarrow> (position \<times> position \<times> string list) list" where
  "uncoveredConflictPairs ps ts =
     (let live = unsuperseded ps;
          asserts = filter (\<lambda>p. p_stance p = Assert) live;
          disputes = filter (\<lambda>p. p_stance p = Dispute) live
      in concat (map (\<lambda>a. concat (map (\<lambda>d.
           let named = covering ts (p_id a) (p_id d)
           in if covered named then [] else [(a, d, List.map_filter pt_resolution_kind named)]) disputes)) asserts))"

record assert_input =
  ai_principal :: string
  ai_stance :: stance
  ai_statement :: "string option"
  ai_confidence :: confidence
  ai_provenance :: provenance
  ai_valid_from :: "string option"
  ai_sources :: "string list"
  ai_created :: string

record assert_outcome =
  ao_positions :: "position list"
  ao_new :: position
  ao_superseded :: "position option"

definition new_position :: "string \<Rightarrow> assert_input \<Rightarrow> position" where
  "new_position i input =
     \<lparr>p_id = i, p_principal = ai_principal input, p_stance = ai_stance input,
      p_statement = ai_statement input, p_confidence = ai_confidence input,
      p_provenance = ai_provenance input, p_valid_from = ai_valid_from input,
      p_superseded_by = None, p_created = ai_created input, p_sources = ai_sources input\<rparr>"

text \<open>One step of the \<^verbatim>\<open>map\<close> with its assignment to the captured variable \<^verbatim>\<open>superseded\<close>.\<close>

definition assert_step ::
    "string \<Rightarrow> string \<Rightarrow> position list \<times> position option \<Rightarrow> position \<Rightarrow> position list \<times> position option" where
  "assert_step i caller st p =
     (if p_principal p = caller \<and> p_superseded_by p = None
      then (let q = p\<lparr>p_superseded_by := Some i\<rparr> in (fst st @ [q], Some q))
      else (fst st @ [p], snd st))"

definition applyAssert :: "position list option \<Rightarrow> assert_input \<Rightarrow> assert_outcome" where
  "applyAssert ps input =
     (let existing = (case ps of None \<Rightarrow> [] | Some xs \<Rightarrow> xs);
          i = nextPositionId existing;
          newp = new_position i input;
          r = foldl (assert_step i (ai_principal input)) ([], None) existing
      in \<lparr>ao_positions = fst r @ [newp], ao_new = newp, ao_superseded = snd r\<rparr>)"

definition samePosition :: "position \<Rightarrow> position \<Rightarrow> bool" where
  "samePosition a b \<longleftrightarrow>
     p_id a = p_id b \<and> p_principal a = p_principal b \<and> p_stance a = p_stance b
     \<and> p_statement a = p_statement b \<and> p_confidence a = p_confidence b
     \<and> p_provenance a = p_provenance b \<and> p_valid_from a = p_valid_from b
     \<and> p_superseded_by a = p_superseded_by b \<and> p_created a = p_created b
     \<and> length (p_sources a) = length (p_sources b)
     \<and> list_all (\<lambda>(x, y). x = y) (zip (p_sources a) (p_sources b))"

datatype guard_violation = RemovesPosition string string | AltersPosition string string

definition guard_one :: "(string, position) jmap \<Rightarrow> string \<Rightarrow> position \<Rightarrow> guard_violation option" where
  "guard_one byId user old =
     (if p_principal old = user then None
      else case map_of byId (p_id old) of
        None \<Rightarrow> Some (RemovesPosition (p_id old) (p_principal old))
      | Some nxt \<Rightarrow>
          if samePosition old nxt then None
          else (let onlySupersededByChanged = samePosition old (nxt\<lparr>p_superseded_by := p_superseded_by old\<rparr>);
                    successor = (case p_superseded_by nxt of None \<Rightarrow> None | Some s \<Rightarrow> map_of byId s)
                in if onlySupersededByChanged \<and> p_superseded_by old = None
                      \<and> (case successor of None \<Rightarrow> False | Some q \<Rightarrow> p_principal q = p_principal old)
                   then None
                   else Some (AltersPosition (p_id old) (p_principal old))))"

fun guard_scan :: "(string, position) jmap \<Rightarrow> string \<Rightarrow> position list \<Rightarrow> guard_violation option" where
  "guard_scan byId user [] = None"
| "guard_scan byId user (old # olds) =
     (case guard_one byId user old of None \<Rightarrow> guard_scan byId user olds | Some v \<Rightarrow> Some v)"

definition foreignPositionViolation ::
    "position list \<Rightarrow> position list option \<Rightarrow> string \<Rightarrow> guard_violation option" where
  "foreignPositionViolation before after1 user =
     guard_scan (index_by p_id (case after1 of None \<Rightarrow> [] | Some xs \<Rightarrow> xs)) user before"

section \<open>Ids, order and dissent\<close>

interpretation pos_ids: id_allocator "''pos-''" "map p_id" nextPositionId
  by unfold_locales (simp add: nextPositionId_def)

lemma comparePositions_cmp:
  "comparePositions = cmp_then (\<lambda>a b. index_of CONFIDENCES (p_confidence b) - index_of CONFIDENCES (p_confidence a))
     (cmp_then (cmp_desc (cmp_key p_created)) (cmp_key p_id))"
  by (intro ext) (auto simp: comparePositions_def cmp_then_def cmp_desc_def cmp_key_def Let_def)

interpretation pos_order: comparator comparePositions
  unfolding comparePositions_cmp
  by (intro comparator_then comparator_desc comparator_key) (unfold_locales; linarith)

lemma set_unsuperseded [simp]: "p \<in> set (unsuperseded ps) \<longleftrightarrow> p \<in> set ps \<and> p_superseded_by p = None"
  by (auto simp: unsuperseded_def)

lemma dissentIds_set:
  "i \<in> set (dissentIds ps st) \<longleftrightarrow>
     (\<exists>p \<in> set ps. p_superseded_by p = None \<and> Some (p_stance p) = opposite st \<and> p_id p = i)"
  by (auto simp: dissentIds_def split: option.splits)

lemma dissentIds_sorted:
  "\<exists>qs. dissentIds ps st = map p_id qs \<and> cmp_sorted comparePositions qs"
proof (cases "opposite st")
  case None
  then show ?thesis by (auto simp: dissentIds_def intro!: exI [of _ "[]"])
next
  case (Some opp)
  then show ?thesis using pos_order.sorted_sort by (auto simp: dissentIds_def)
qed

text \<open>
  A document is contested exactly when some live position opposes another live one, that is
  when asserting it again would record a conflict pair.
\<close>

theorem contested_iff_conflict:
  assumes "distinct (map p_id ps)"
  shows "isContested ps \<longleftrightarrow> (\<exists>p \<in> set ps. p_superseded_by p = None \<and> conflictPairs p ps \<noteq> [])"
proof
  assume "isContested ps"
  then obtain a d where ad: "a \<in> set ps" "d \<in> set ps" "p_superseded_by a = None" "p_superseded_by d = None"
    "p_stance a = Assert" "p_stance d = Dispute"
    by (auto simp: isContested_def Let_def list_ex_iff)
  then have "p_id d \<noteq> p_id a"
    using assms by (metis distinct_map inj_onD stance.distinct(1))
  with ad have "(d, a) \<in> set (conflictPairs a ps)"
    by (auto simp: conflictPairs_def opposite_def)
  with ad show "\<exists>p \<in> set ps. p_superseded_by p = None \<and> conflictPairs p ps \<noteq> []" by force
next
  assume "\<exists>p \<in> set ps. p_superseded_by p = None \<and> conflictPairs p ps \<noteq> []"
  then obtain p x where "p \<in> set ps" "p_superseded_by p = None" "x \<in> set ps" "p_superseded_by x = None"
    "opposite (p_stance p) = Some (p_stance x)"
    by (auto simp: conflictPairs_def filter_empty_conv split: option.splits)
  then show "isContested ps"
    by (cases "p_stance p"; cases "p_stance x") (auto simp: opposite_def isContested_def Let_def list_ex_iff)
qed

definition demo_position :: "string \<Rightarrow> string \<Rightarrow> stance \<Rightarrow> position" where
  "demo_position i who st = \<lparr>p_id = i, p_principal = who, p_stance = st, p_statement = None,
     p_confidence = ConfHigh, p_provenance = Direct, p_valid_from = None, p_superseded_by = None,
     p_created = ''2024-01-01'', p_sources = []\<rparr>"

theorem contested_iff_conflict_witness:
  "isContested [demo_position ''pos-001'' ''ann'' Assert, demo_position ''pos-002'' ''bob'' Dispute]"
  using contested_iff_conflict [of "[demo_position ''pos-001'' ''ann'' Assert, demo_position ''pos-002'' ''bob'' Dispute]"]
  by (simp add: demo_position_def conflictPairs_def opposite_def unsuperseded_def)

section \<open>Uncovered conflicts\<close>

lemma uncovered_pairs:
  "(a, d, ks) \<in> set (uncoveredConflictPairs ps ts) \<longleftrightarrow>
     a \<in> set ps \<and> d \<in> set ps \<and> p_superseded_by a = None \<and> p_superseded_by d = None
     \<and> p_stance a = Assert \<and> p_stance d = Dispute \<and> \<not> covered (covering ts (p_id a) (p_id d))
     \<and> ks = List.map_filter pt_resolution_kind (covering ts (p_id a) (p_id d))"
  by (auto simp: uncoveredConflictPairs_def Let_def split: if_splits)

text \<open>
  C3: no conflict is lost: when the recovery surface lists no pair, every live assertion and live
  dispute of the document is named, in either order, by a tension that is still open or was
  closed as accepted or consolidated.
\<close>

theorem no_uncovered_conflict:
  assumes "uncoveredConflictPairs ps ts = []" "a \<in> set ps" "d \<in> set ps"
    and "p_superseded_by a = None" "p_superseded_by d = None" "p_stance a = Assert" "p_stance d = Dispute"
  shows "\<exists>t \<in> set ts. {pt_positionA t, pt_positionB t} = {p_id a, p_id d}
    \<and> (pt_resolved t \<longrightarrow> pt_resolution_kind t \<in> {Some ''accepted'', Some ''consolidated''})"
proof -
  have "covered (covering ts (p_id a) (p_id d))"
    using assms uncovered_pairs [of a d _ ps ts] by auto
  then show ?thesis by (fastforce simp: covered_def covering_def list_ex_iff)
qed

theorem no_uncovered_conflict_witness:
  "\<exists>t \<in> set [\<lparr>pt_id = Some ''T1'', pt_resolved = False, pt_resolution_kind = None,
       pt_positionA = ''pos-001'', pt_positionB = ''pos-002''\<rparr>].
     {pt_positionA t, pt_positionB t} = {''pos-001'', ''pos-002''}"
proof -
  let ?a = "demo_position ''pos-001'' ''ann'' Assert" and ?d = "demo_position ''pos-002'' ''bob'' Dispute"
  let ?ts = "[\<lparr>pt_id = Some ''T1'', pt_resolved = False, pt_resolution_kind = None,
       pt_positionA = ''pos-001'', pt_positionB = ''pos-002''\<rparr>]"
  have "uncoveredConflictPairs [?a, ?d] ?ts = []"
    by (simp add: uncoveredConflictPairs_def unsuperseded_def demo_position_def covered_def covering_def)
  from no_uncovered_conflict [OF this, of ?a ?d] show ?thesis by (simp add: demo_position_def)
qed

section \<open>Assertions\<close>

lemma assert_fold:
  "foldl (assert_step i who) (acc, s0) ps =
     (acc @ map (\<lambda>p. if p_principal p = who \<and> p_superseded_by p = None then p\<lparr>p_superseded_by := Some i\<rparr> else p) ps,
      foldl (\<lambda>s p. if p_principal p = who \<and> p_superseded_by p = None
                   then Some (p\<lparr>p_superseded_by := Some i\<rparr>) else s) s0 ps)"
  by (induction ps arbitrary: acc s0) (auto simp: assert_step_def Let_def)

lemma applyAssert_positions:
  "ao_positions (applyAssert (Some ps) input) =
     map (\<lambda>p. if p_principal p = ai_principal input \<and> p_superseded_by p = None
               then p\<lparr>p_superseded_by := Some (nextPositionId ps)\<rparr> else p) ps
     @ [new_position (nextPositionId ps) input]"
  by (simp add: applyAssert_def Let_def assert_fold)

lemma applyAssert_new: "ao_new (applyAssert (Some ps) input) = new_position (nextPositionId ps) input"
  by (simp add: applyAssert_def Let_def)

lemma assert_others:
  "filter (\<lambda>p. p_principal p \<noteq> me)
     (map (\<lambda>p. if p_principal p = me \<and> p_superseded_by p = None then p\<lparr>p_superseded_by := Some i\<rparr> else p) ps)
   = filter (\<lambda>p. p_principal p \<noteq> me) ps"
  by (induction ps) auto

lemma samePosition_eq: "samePosition a b \<longleftrightarrow> a = b"
proof -
  have "length xs = length ys \<and> list_all (\<lambda>(x, y). x = y) (zip xs ys) \<longleftrightarrow> xs = ys" for xs ys :: "string list"
    by (induction xs ys rule: list_induct2') auto
  then show ?thesis by (cases a; cases b) (auto simp: samePosition_def)
qed

lemma guard_scan_none: "guard_scan m user olds = None \<longleftrightarrow> (\<forall>old \<in> set olds. guard_one m user old = None)"
  by (induction olds) (auto split: option.splits)

text \<open>
  C4: asserting leaves the caller with exactly one live position, the new one, whose id no entry
  had before; it touches no entry of another principal, keeps ids unique, and its result passes
  the foreign-position guard.
\<close>

theorem assert_only_own:
  assumes ids: "distinct (map p_id ps)" and bound: "max_suffix ''pos-'' (map p_id ps) 0 < 2 ^ 53 - 1"
  shows "let out = ao_positions (applyAssert (Some ps) input); me = ai_principal input in
    filter (\<lambda>p. p_principal p = me) (unsuperseded out) = [ao_new (applyAssert (Some ps) input)]
    \<and> filter (\<lambda>p. p_principal p \<noteq> me) out = filter (\<lambda>p. p_principal p \<noteq> me) ps
    \<and> distinct (map p_id out)
    \<and> foreignPositionViolation ps (Some out) me = None"
proof -
  let ?me = "ai_principal input" and ?i = "nextPositionId ps" and ?new = "new_position (nextPositionId ps) input"
  let ?f = "\<lambda>p. if p_principal p = ?me \<and> p_superseded_by p = None then p\<lparr>p_superseded_by := Some ?i\<rparr> else p"
  let ?out = "map ?f ps @ [?new]"
  have idf: "p_id (?f p) = p_id p" "p_principal (?f p) = p_principal p" for p by simp_all
  have dead: "\<not> (p_principal (?f p) = ?me \<and> p_superseded_by (?f p) = None)" for p by simp
  have new: "p_principal ?new = ?me" "p_superseded_by ?new = None" "p_id ?new = ?i"
    by (simp_all add: new_position_def)
  have fresh: "?i \<notin> set (map p_id ps)" by (rule pos_ids.fresh [OF bound])
  have own: "filter (\<lambda>p. p_principal p = ?me) (unsuperseded ?out) = [?new]"
  proof -
    have "filter (\<lambda>p. p_principal p = ?me) (unsuperseded (map ?f ps)) = []"
      unfolding unsuperseded_def filter_filter filter_empty_conv using dead by auto
    then show ?thesis using new by (simp add: unsuperseded_def)
  qed
  have others: "filter (\<lambda>p. p_principal p \<noteq> ?me) ?out = filter (\<lambda>p. p_principal p \<noteq> ?me) ps"
    using new by (simp add: assert_others)
  have map_ids: "map p_id (map ?f ps) = map p_id ps" by (simp add: idf)
  have dist: "distinct (map p_id ?out)"
    using ids fresh new map_ids by (simp del: map_map)
  have "guard_one (index_by p_id ?out) ?me p = None" if "p \<in> set ps" for p
  proof (cases "p_principal p = ?me")
    case False
    then have "p \<in> set ?out" using that by (auto simp: image_iff intro!: bexI [of _ p])
    from index_by_lookup [OF dist this] show ?thesis by (simp add: guard_one_def samePosition_eq)
  qed (simp add: guard_one_def)
  then have "foreignPositionViolation ps (Some ?out) ?me = None"
    by (simp add: foreignPositionViolation_def guard_scan_none)
  with own others dist show ?thesis
    unfolding Let_def applyAssert_positions applyAssert_new by blast
qed

definition demo_input :: "string \<Rightarrow> stance \<Rightarrow> assert_input" where
  "demo_input who st = \<lparr>ai_principal = who, ai_stance = st, ai_statement = None, ai_confidence = ConfLow,
     ai_provenance = Direct, ai_valid_from = None, ai_sources = [], ai_created = ''2024-02-01''\<rparr>"

theorem assert_only_own_witness:
  "distinct (map p_id (ao_positions (applyAssert (Some [demo_position ''pos-007'' ''ann'' Assert]) (demo_input ''ann'' Dispute))))"
proof -
  have "''pos-007'' = seq_render ''pos-'' 7"
    by (simp add: seq_render_small digit_def char_of_def bit_iff_odd)
  then have "max_suffix ''pos-'' (map p_id [demo_position ''pos-007'' ''ann'' Assert]) 0 = 7"
    using max_suffix_render [of 7 "''pos-''" "[]" 0] by (simp add: demo_position_def del: max_suffix.simps(2)) 
  then have "max_suffix ''pos-'' (map p_id [demo_position ''pos-007'' ''ann'' Assert]) 0 < 2 ^ 53 - 1" by simp
  with assert_only_own [of "[demo_position ''pos-007'' ''ann'' Assert]" "demo_input ''ann'' Dispute"]
  show ?thesis by (simp add: Let_def)
qed

section \<open>The foreign-position guard\<close>

text \<open>
  C5: an update the guard lets through keeps every entry of every other principal: it is in the
  result unchanged, or its only change is that it went from live to superseded by an entry of
  its own principal that is in the result too.
\<close>

theorem guard_protects_foreign:
  assumes "foreignPositionViolation before (Some after1) user = None"
    and "old \<in> set before" "p_principal old \<noteq> user"
  shows "\<exists>q \<in> set after1. q = old
    \<or> (p_superseded_by old = None \<and> (\<exists>s \<in> set after1. q = old\<lparr>p_superseded_by := Some (p_id s)\<rparr>
         \<and> p_principal s = p_principal old))"
proof -
  let ?m = "index_by p_id after1"
  have ok: "guard_one ?m user old = None"
    using assms by (auto simp: foreignPositionViolation_def guard_scan_none)
  with assms(3) obtain q where q: "map_of ?m (p_id old) = Some q"
    by (auto simp: guard_one_def split: option.splits)
  note q_in = index_by_sound [OF q]
  show ?thesis
  proof (cases "q = old")
    case False
    with ok q assms(3) obtain t s where sup: "p_superseded_by q = Some t" "map_of ?m t = Some s"
      "p_principal s = p_principal old" "p_superseded_by old = None"
      and same: "old = q\<lparr>p_superseded_by := p_superseded_by old\<rparr>"
      by (auto simp: guard_one_def samePosition_eq Let_def split: option.splits if_splits)
    have "q = (q\<lparr>p_superseded_by := p_superseded_by old\<rparr>)\<lparr>p_superseded_by := p_superseded_by q\<rparr>" by simp
    then have "q = old\<lparr>p_superseded_by := p_superseded_by q\<rparr>" using same by metis
    with sup index_by_sound [OF sup(2)] q_in show ?thesis
      by (intro bexI [of _ q] disjI2 conjI bexI [of _ s]) auto
  qed (use q_in in blast)
qed

theorem guard_protects_foreign_witness:
  "\<exists>q \<in> set [demo_position ''pos-001'' ''bob'' Assert, demo_position ''pos-002'' ''ann'' Dispute].
     q = demo_position ''pos-001'' ''bob'' Assert"
proof -
  let ?b = "demo_position ''pos-001'' ''bob'' Assert" and ?a = "demo_position ''pos-002'' ''ann'' Dispute"
  have "foreignPositionViolation [?b] (Some [?b, ?a]) ''ann'' = None"
    by (simp add: foreignPositionViolation_def guard_one_def samePosition_eq demo_position_def index_by_def)
  from guard_protects_foreign [OF this, of ?b] show ?thesis by (auto simp: demo_position_def)
qed

section \<open>The end of a supersession chain\<close>

definition keyed :: "(string, position) jmap \<Rightarrow> bool" where
  "keyed byId \<longleftrightarrow> (\<forall>k p. map_of byId k = Some p \<longrightarrow> p_id p = k)"

text \<open>The successor relation the chain follows: the truthy pointers that name an entry.\<close>

definition id_next :: "(string, position) jmap \<Rightarrow> string \<Rightarrow> string option" where
  "id_next byId i =
     (case map_of byId i of
        None \<Rightarrow> None
      | Some p \<Rightarrow> (case pos_next p of None \<Rightarrow> None | Some s \<Rightarrow> if map_of byId s = None then None else Some s))"

lemma keyed_index_by: "keyed (index_by p_id ps)"
  using index_by_sound by (fastforce simp: keyed_def)

lemma chain_loop_end:
  assumes "keyed byId" "is_trail (id_next byId) w" "last w = p_id cur" "map_of byId (p_id cur) = Some cur"
    and "\<And>k p. k \<in> set (butlast w) \<Longrightarrow> map_of byId k = Some p \<Longrightarrow> pos_next p \<noteq> None"
  shows "chain_loop byId w cur = Some e \<longleftrightarrow>
    (\<exists>k. (hd w, k) \<in> (succ_rel (id_next byId))\<^sup>* \<and> map_of byId k = Some e \<and> pos_next e = None)"
  using assms
proof (induction byId w cur rule: chain_loop.induct)
  case (1 byId w cur)
  have w: "w \<noteq> []" "set w = insert (p_id cur) (set (butlast w))"
    using is_trail_nonempty [OF 1(3)] 1(4) by (simp, metis append_butlast_last_id insert_is_Un
        set_append sup_commute list.set(1) list.set(2) is_trail_nonempty [OF 1(3)])
  have reach: "(hd w, k) \<in> (succ_rel (id_next byId))\<^sup>* \<longleftrightarrow> k \<in> set w" if "trail_closed (id_next byId) w" for k
    using trail_reachable [OF 1(3) that] by blast
  have inner: "\<not> (k \<in> set (butlast w) \<and> map_of byId k = Some e \<and> pos_next e = None)" for k
    using 1(6) by blast
  have no_end: "\<not> (\<exists>k. (hd w, k) \<in> (succ_rel (id_next byId))\<^sup>* \<and> map_of byId k = Some e \<and> pos_next e = None)"
    if "trail_closed (id_next byId) w" "pos_next cur = Some s" for s
    using reach [OF that(1)] that(2) w(2) 1(5) inner by (metis insert_iff option.inject option.distinct(1))
  show ?case
  proof (cases "pos_next cur")
    case None
    then have "id_next byId (p_id cur) = None" using 1(5) by (simp add: id_next_def)
    then have "trail_closed (id_next byId) w" using 1(4) by (simp add: trail_closed_def)
    from reach [OF this] have "(\<exists>k. (hd w, k) \<in> (succ_rel (id_next byId))\<^sup>* \<and> map_of byId k = Some e
        \<and> pos_next e = None) \<longleftrightarrow> cur = e"
      using w(2) 1(5) None inner by (metis insert_iff option.inject)
    then show ?thesis by (subst chain_loop.simps) (simp add: None)
  next
    case (Some s)
    show ?thesis
    proof (cases "map_of byId s")
      case None
      then have "id_next byId (p_id cur) = None" using 1(5) Some by (simp add: id_next_def)
      then have "trail_closed (id_next byId) w" using 1(4) by (simp add: trail_closed_def)
      moreover have "chain_loop byId w cur = None" by (subst chain_loop.simps) (simp add: Some None)
      ultimately show ?thesis using no_end Some by (metis option.distinct(1))
    next
      case (Some nxt)
      with \<open>pos_next cur = Some s\<close> 1(5) have step: "id_next byId (p_id cur) = Some s" by (simp add: id_next_def)
      have id: "p_id nxt = s" using 1(2) Some by (auto simp: keyed_def)
      show ?thesis
      proof (cases "s \<in> set w")
        case True
        then have "trail_closed (id_next byId) w" using 1(4) step by (simp add: trail_closed_def)
        moreover have "chain_loop byId w cur = None"
          using Some True id \<open>pos_next cur = Some s\<close> by (subst chain_loop.simps) simp
        ultimately show ?thesis using no_end \<open>pos_next cur = Some s\<close> by (metis option.distinct(1))
      next
        case False
        have "is_trail (id_next byId) (w @ [s])" using is_trail_snoc [OF w(1)] 1(3,4) step by simp
        moreover have "k \<in> set (butlast (w @ [s])) \<Longrightarrow> map_of byId k = Some p \<Longrightarrow> pos_next p \<noteq> None" for k p
          using 1(5,6) \<open>pos_next cur = Some s\<close> w by auto
        ultimately have "chain_loop byId (w @ [s]) nxt = Some e \<longleftrightarrow>
            (\<exists>k. (hd (w @ [s]), k) \<in> (succ_rel (id_next byId))\<^sup>* \<and> map_of byId k = Some e \<and> pos_next e = None)"
          using 1(1) [OF \<open>pos_next cur = Some s\<close> Some] False id 1(2) Some by simp
        then show ?thesis using False id w(1) Some \<open>pos_next cur = Some s\<close>
          by (subst chain_loop.simps) simp
      qed
    qed
  qed
qed

text \<open>
  C6: \<open>chainEnd\<close> always returns, and it returns an entry exactly when that entry is reached from
  the given id by following supersession pointers and ends the chain; an unknown id, a dangling
  pointer and a loop give nothing.
\<close>

theorem chainEnd_exact:
  "chainEnd (index_by p_id ps) i = Some e \<longleftrightarrow>
     map_of (index_by p_id ps) i \<noteq> None
     \<and> (\<exists>k. (i, k) \<in> (succ_rel (id_next (index_by p_id ps)))\<^sup>*
           \<and> map_of (index_by p_id ps) k = Some e \<and> pos_next e = None)"
proof (cases "map_of (index_by p_id ps) i")
  case None
  then show ?thesis by (simp add: chainEnd_def)
next
  case (Some cur)
  then have id: "p_id cur = i" using keyed_index_by by (auto simp: keyed_def)
  show ?thesis
    using chain_loop_end [OF keyed_index_by, of ps "[i]" cur e] Some id by (simp add: chainEnd_def)
qed

end
