(* ===== verification/VaultDocs.thy ===== *)
theory VaultDocs
  imports Access Frontmatter
begin

text \<open>
  Loading vault documents and resolving what they cite: \<^verbatim>\<open>src/src/curation/vault-docs.ts\<close>,
  \<^verbatim>\<open>src/src/frontmatter/source-ref.ts\<close> and the vault half of
  \<^verbatim>\<open>src/src/curation/source-refs.ts\<close>. The document cache is a map from path to fingerprint and
  parsed document; the disk is a function from path to what the stat and the read return, and
  the frontmatter parser, a library, is a parameter. The theorems show that the cache is
  transparent as long as a changed file changes its fingerprint, and that a resolved link is
  always a known document.
\<close>

section \<open>The incremental cache\<close>

record file_state =
  fs_resolves :: bool
  fs_stat :: "(int \<times> int) option"
  fs_content :: "string option"

record 'd cache_entry =
  ce_fp :: "int \<times> int"
  ce_doc :: 'd

type_synonym 'd doc_cache = "(string, 'd cache_entry) jmap"

text \<open>The fingerprint pass: a path that does not resolve has no fingerprint.\<close>

definition fingerprint :: "file_state \<Rightarrow> (int \<times> int) option" where
  "fingerprint f = (if fs_resolves f then fs_stat f else None)"

definition reread :: "(string \<Rightarrow> 'd option) \<Rightarrow> file_state \<Rightarrow> 'd option" where
  "reread parse f =
     (if fs_resolves f then (case fs_content f of None \<Rightarrow> None | Some c \<Rightarrow> parse c) else None)"

definition refresh_step ::
    "(string \<Rightarrow> 'd option) \<Rightarrow> (string \<Rightarrow> file_state) \<Rightarrow> 'd doc_cache
     \<Rightarrow> 'd doc_cache \<times> (string \<times> 'd) list \<Rightarrow> string \<Rightarrow> 'd doc_cache \<times> (string \<times> 'd) list" where
  "refresh_step parse disk entries st relPath =
     (let fp = fingerprint (disk relPath);
          prior = (case fp of None \<Rightarrow> None
                   | Some x \<Rightarrow> (case map_of entries relPath of None \<Rightarrow> None
                               | Some p \<Rightarrow> if ce_fp p = x then Some p else None))
      in case prior of
           Some p \<Rightarrow> (AList.update relPath p (fst st), snd st @ [(relPath, ce_doc p)])
         | None \<Rightarrow>
             (case reread parse (disk relPath) of
                None \<Rightarrow> st
              | Some doc \<Rightarrow>
                  ((case fp of None \<Rightarrow> fst st
                    | Some x \<Rightarrow> AList.update relPath \<lparr>ce_fp = x, ce_doc = doc\<rparr> (fst st)),
                   snd st @ [(relPath, doc)])))"

definition refresh ::
    "(string \<Rightarrow> 'd option) \<Rightarrow> (string \<Rightarrow> file_state) \<Rightarrow> string list \<Rightarrow> 'd doc_cache
     \<Rightarrow> 'd doc_cache \<times> (string \<times> 'd) list" where
  "refresh parse disk paths entries = foldl (refresh_step parse disk entries) ([], []) paths"

text \<open>
  An entry is faithful to a disk when, if the file still has the entry's fingerprint, reading it
  again gives the entry's document. This is what a fingerprint is for: it fails only for an
  edit that keeps both the modification time and the size.
\<close>

definition faithful :: "(string \<Rightarrow> 'd option) \<Rightarrow> (string \<Rightarrow> file_state) \<Rightarrow> 'd doc_cache \<Rightarrow> bool" where
  "faithful parse disk entries \<longleftrightarrow>
     (\<forall>p e. map_of entries p = Some e \<longrightarrow> fingerprint (disk p) = Some (ce_fp e)
        \<longrightarrow> reread parse (disk p) = Some (ce_doc e))"

lemma refresh_step_docs:
  assumes "faithful parse disk entries"
  shows "snd (refresh_step parse disk entries st p) =
    snd st @ (case reread parse (disk p) of None \<Rightarrow> [] | Some d \<Rightarrow> [(p, d)])"
  using assms
  by (auto simp: refresh_step_def faithful_def Let_def split: option.splits if_splits)

lemma refresh_step_faithful:
  assumes "faithful parse disk entries" "faithful parse disk (fst st)"
  shows "faithful parse disk (fst (refresh_step parse disk entries st p))"
  using assms
  by (auto simp: refresh_step_def faithful_def Let_def split: option.splits if_splits)

lemma refresh_fold:
  assumes "faithful parse disk entries"
  shows "snd (refresh parse disk ps entries)
      = List.map_filter (\<lambda>p. map_option (Pair p) (reread parse (disk p))) ps"
    "faithful parse disk (fst (refresh parse disk ps entries))"
proof -
  have "snd (refresh parse disk ps entries)
      = List.map_filter (\<lambda>p. map_option (Pair p) (reread parse (disk p))) ps
    \<and> faithful parse disk (fst (refresh parse disk ps entries))"
    unfolding refresh_def
  proof (induction ps rule: rev_induct)
    case Nil
    then show ?case by (simp add: faithful_def List.map_filter_def)
  next
    case (snoc p ps)
    then show ?case
      by (simp add: refresh_step_docs [OF assms] refresh_step_faithful [OF assms] List.map_filter_def
          split: option.splits)
  qed
  then show "snd (refresh parse disk ps entries)
      = List.map_filter (\<lambda>p. map_option (Pair p) (reread parse (disk p))) ps"
    "faithful parse disk (fst (refresh parse disk ps entries))" by simp_all
qed

text \<open>
  C7: the document cache is transparent: with a cache that is faithful to the disk, an
  incremental refresh returns exactly the documents a cold load returns, in the same order, and
  leaves a cache that is faithful to the same disk.
\<close>

theorem cache_transparent:
  assumes "faithful parse disk entries"
  shows "snd (refresh parse disk paths entries) = snd (refresh parse disk paths [])
    \<and> faithful parse disk (fst (refresh parse disk paths entries))"
proof -
  have "faithful parse disk []" by (simp add: faithful_def)
  from refresh_fold [OF this, of paths] refresh_fold [OF assms, of paths] show ?thesis by simp
qed

definition demo_disk :: "string \<Rightarrow> file_state" where
  "demo_disk p = \<lparr>fs_resolves = True, fs_stat = Some (7, 3), fs_content = Some ''abc''\<rparr>"

theorem cache_transparent_witness:
  "snd (refresh Some demo_disk [''a.md''] [(''a.md'', \<lparr>ce_fp = (7, 3), ce_doc = ''abc''\<rparr>)]) = [(''a.md'', ''abc'')]"
proof -
  have "faithful Some demo_disk [(''a.md'', \<lparr>ce_fp = (7, 3), ce_doc = ''abc''\<rparr>)]"
    by (simp add: faithful_def demo_disk_def reread_def)
  moreover have "snd (refresh Some demo_disk [''a.md''] []) = [(''a.md'', ''abc'')]"
    by (simp add: refresh_def refresh_step_def demo_disk_def reread_def fingerprint_def)
  ultimately show ?thesis using cache_transparent [of Some demo_disk _ "[''a.md'']"] by metis
qed

section \<open>Links\<close>

definition slash :: char where "slash = CHR ''/''"

text \<open>Node's \<^verbatim>\<open>posix.basename\<close>, \<^verbatim>\<open>dirname\<close> and two-argument \<^verbatim>\<open>join\<close>.\<close>

definition posix_basename :: "string \<Rightarrow> string" where
  "posix_basename p = rev (takeWhile (\<lambda>c. c \<noteq> slash) (dropWhile (\<lambda>c. c = slash) (rev p)))"

definition posix_dirname :: "string \<Rightarrow> string" where
  "posix_dirname p =
     (if p = [] then ''.''
      else let rest = dropWhile (\<lambda>c. c \<noteq> slash) (dropWhile (\<lambda>c. c = slash) (rev (tl p)))
           in if rest = [] then (if hd p = slash then ''/'' else ''.'')
              else if hd p = slash \<and> length rest = 1 then ''//''
              else take (length rest) p)"

definition posix_join2 :: "string \<Rightarrow> string \<Rightarrow> string" where
  "posix_join2 a b =
     posix_normalize (if a = [] then (if b = [] then ''.'' else b) else if b = [] then a else a @ ''/'' @ b)"

definition ends_with :: "string \<Rightarrow> string \<Rightarrow> bool" where
  "ends_with suf s \<longleftrightarrow> length suf \<le> length s \<and> drop (length s - length suf) s = suf"

definition drop_md :: "string \<Rightarrow> string" where
  "drop_md s = (if ends_with ''.md'' s then take (length s - 3) s else s)"

definition withMd :: "string \<Rightarrow> string" where
  "withMd p = (if ends_with ''.md'' p then p else p @ ''.md'')"

record path_indexes =
  pi_byPath :: "string list"
  pi_byBasename :: "(string, string option) jmap"

definition buildPathIndexes :: "string list \<Rightarrow> path_indexes" where
  "buildPathIndexes paths =
     \<lparr>pi_byPath = remdups paths,
      pi_byBasename = foldl (\<lambda>m p. let base = drop_md (posix_basename p)
                                  in if map_of m base = None then AList.update base (Some p) m
                                     else AList.update base None m) [] paths\<rparr>"

definition resolveLink :: "path_indexes \<Rightarrow> string \<Rightarrow> string \<Rightarrow> string option" where
  "resolveLink ix rawTarget fromPath =
     (let has = (\<lambda>p. p \<in> set (pi_byPath ix));
          relual = posix_normalize (posix_join2 (posix_dirname fromPath) rawTarget)
      in if has rawTarget then Some rawTarget
         else if has (withMd rawTarget) then Some (withMd rawTarget)
         else if has relual then Some relual
         else if has (withMd relual) then Some (withMd relual)
         else if slash \<in> set rawTarget \<or> CHR 0x5C \<in> set rawTarget \<or> take 1 rawTarget = ''.'' then None
         else (case map_of (pi_byBasename ix) (drop_md (posix_basename rawTarget)) of
                 None \<Rightarrow> None | Some t \<Rightarrow> t))"

lemma basename_map_snoc:
  "map_of (pi_byBasename (buildPathIndexes (paths @ [p]))) b =
     (let m = map_of (pi_byBasename (buildPathIndexes paths))
      in if drop_md (posix_basename p) = b then Some (if m b = None then Some p else None) else m b)"
  by (auto simp: buildPathIndexes_def Let_def)

lemma basename_map_known:
  "map_of (pi_byBasename (buildPathIndexes paths)) b = Some (Some p) \<Longrightarrow> p \<in> set paths \<and> drop_md (posix_basename p) = b"
proof (induction paths rule: rev_induct)
  case (snoc q paths)
  then show ?case unfolding basename_map_snoc Let_def by (auto split: if_splits)
qed (simp add: buildPathIndexes_def)

lemma basename_map_present:
  "map_of (pi_byBasename (buildPathIndexes paths)) b = None \<longleftrightarrow> b \<notin> (\<lambda>p. drop_md (posix_basename p)) ` set paths"
proof (induction paths rule: rev_induct)
  case (snoc q paths)
  then show ?case unfolding basename_map_snoc Let_def by auto
qed (simp add: buildPathIndexes_def)

lemma basename_map_unique:
  "distinct paths \<Longrightarrow> map_of (pi_byBasename (buildPathIndexes paths)) b = Some (Some p) \<Longrightarrow>
   q \<in> set paths \<Longrightarrow> drop_md (posix_basename q) = b \<Longrightarrow> q = p"
proof (induction paths rule: rev_induct)
  case (snoc x paths)
  show ?case
  proof (cases "drop_md (posix_basename x) = b")
    case True
    then have "map_of (pi_byBasename (buildPathIndexes paths)) b = None" "p = x"
      using snoc.prems(2) unfolding basename_map_snoc Let_def by (auto split: if_splits)
    then show ?thesis using snoc.prems(3,4) basename_map_present [of paths b] by auto
  next
    case False
    then have "q \<in> set paths" using snoc.prems(3,4) by auto
    then show ?thesis using False snoc.IH snoc.prems unfolding basename_map_snoc Let_def by auto
  qed
qed simp

text \<open>
  A link resolves only to a document of the vault, and a bare name that resolves through its
  basename names the only document with that basename: an ambiguous name stays unresolved.
\<close>

theorem resolved_link_known:
  assumes "distinct paths" "resolveLink (buildPathIndexes paths) raw from1 = Some t"
  shows "t \<in> set paths
    \<and> (t \<in> {raw, withMd raw, posix_normalize (posix_join2 (posix_dirname from1) raw),
             withMd (posix_normalize (posix_join2 (posix_dirname from1) raw))}
       \<or> slash \<notin> set raw \<and> (\<forall>q \<in> set paths. drop_md (posix_basename q) = drop_md (posix_basename raw) \<longrightarrow> q = t))"
proof (cases "\<exists>p \<in> set paths. p \<in> {raw, withMd raw, posix_normalize (posix_join2 (posix_dirname from1) raw),
    withMd (posix_normalize (posix_join2 (posix_dirname from1) raw))}")
  case True
  then show ?thesis using assms(2)
    by (auto simp: resolveLink_def buildPathIndexes_def Let_def split: if_splits)
next
  case False
  then have t: "slash \<notin> set raw" "map_of (pi_byBasename (buildPathIndexes paths)) (drop_md (posix_basename raw)) = Some (Some t)"
    using assms(2)
    by (auto simp: resolveLink_def Let_def buildPathIndexes_def split: if_splits option.splits)
  with basename_map_known [OF t(2)] basename_map_unique [OF assms(1) t(2)] show ?thesis by auto
qed

theorem resolved_link_known_witness:
  "''notes/plan.md'' \<in> set [''notes/plan.md'', ''pricing/a.md'']"
proof -
  have "resolveLink (buildPathIndexes [''notes/plan.md'', ''pricing/a.md'']) ''plan'' ''pricing/a.md'' = Some ''notes/plan.md''"
    by code_simp
  from resolved_link_known [OF _ this] show ?thesis by simp
qed

section \<open>Link extraction\<close>

text \<open>
  The two regular expressions of \<open>extractLinks\<close>, matched from the left without overlap. The
  bracketed parts stop at the first closing bracket, so neither match backtracks.
\<close>

definition match_wikilink :: "string \<Rightarrow> (string \<times> string) option" where
  "match_wikilink s =
     (if take 2 s = ''[['' then
        (let body = takeWhile (\<lambda>c. c \<noteq> CHR '']'') (drop 2 s); rest = drop (2 + length body) s
         in if body \<noteq> [] \<and> take 2 rest = '']]'' then Some (body, drop 2 rest) else None)
      else None)"

fun span_target :: "string \<Rightarrow> string" where
  "span_target [] = []"
| "span_target (c # cs) =
     (if c = CHR '')'' \<or> strip_one js_spaces (c # cs) \<noteq> None then [] else c # span_target cs)"

definition match_mdlink :: "string \<Rightarrow> (string \<times> string) option" where
  "match_mdlink s =
     (if take 1 s = ''['' then
        (let label = takeWhile (\<lambda>c. c \<noteq> CHR '']'') (drop 1 s); rest = drop (1 + length label) s
         in if take 2 rest = ''](''
            then (let target = span_target (drop 2 rest); after1 = drop (2 + length target) rest
                  in if target \<noteq> [] \<and> take 1 after1 = '')'' then Some (target, drop 1 after1) else None)
            else None)
      else None)"

function match_all :: "(string \<Rightarrow> (string \<times> string) option) \<Rightarrow> string \<Rightarrow> string list" where
  "match_all m s =
     (if s = [] then []
      else case m s of
        None \<Rightarrow> match_all m (tl s)
      | Some (g, rest) \<Rightarrow> if length rest < length s then g # match_all m rest else [])"
  by pat_completeness auto
termination
  by (relation "measure (\<lambda>(m, s). length s)") auto

declare match_all.simps [simp del]

lemma match_shorter:
  "match_wikilink s = Some (g, rest) \<Longrightarrow> length rest < length s"
  "match_mdlink s = Some (g, rest) \<Longrightarrow> length rest < length s"
  by (cases s; auto simp: match_wikilink_def match_mdlink_def Let_def split: if_splits)+

definition before_char :: "char \<Rightarrow> string \<Rightarrow> string" where
  "before_char c s = takeWhile (\<lambda>x. x \<noteq> c) s"

definition lower :: "string \<Rightarrow> string" where
  "lower s = map (\<lambda>c. if CHR ''A'' \<le> c \<and> c \<le> CHR ''Z'' then char_of (of_char c + (32 :: nat)) else c) s"

definition starts_with :: "string \<Rightarrow> string \<Rightarrow> bool" where
  "starts_with pre s \<longleftrightarrow> take (length pre) s = pre"

definition is_external :: "string \<Rightarrow> bool" where
  "is_external raw \<longleftrightarrow> starts_with ''http:'' (lower raw) \<or> starts_with ''https:'' (lower raw)
     \<or> starts_with ''mailto:'' (lower raw)"

definition extractLinks :: "string \<Rightarrow> string list" where
  "extractLinks content =
     filter (\<lambda>raw. raw \<noteq> [])
       (map (\<lambda>g. js_trim (before_char (CHR ''#'') (before_char (CHR ''|'') g))) (match_all match_wikilink content))
     @ filter (\<lambda>raw. raw \<noteq> [] \<and> \<not> (is_external raw \<or> starts_with ''#'' raw))
         (map (\<lambda>g. js_trim (before_char (CHR ''#'') g)) (match_all match_mdlink content))"

definition outgoingLinkTargets :: "string \<Rightarrow> string \<Rightarrow> path_indexes \<Rightarrow> string list" where
  "outgoingLinkTargets content fromPath ix =
     remdups_first (filter (\<lambda>t. t \<noteq> fromPath)
       (List.map_filter (\<lambda>raw. case resolveLink ix raw fromPath of None \<Rightarrow> None
                             | Some t \<Rightarrow> if t = [] then None else Some t) (extractLinks content)))"

section \<open>Source references\<close>

datatype parsed_source_ref =
    VaultRef string string
  | RepoRef string string
  | ExternalRef string
  | DistillRef string
  | OpaqueRef string
  | LegacyRef string string

definition is_alpha :: "char \<Rightarrow> bool" where
  "is_alpha c \<longleftrightarrow> (CHR ''a'' \<le> c \<and> c \<le> CHR ''z'') \<or> (CHR ''A'' \<le> c \<and> c \<le> CHR ''Z'')"

definition uri_scheme :: "string \<Rightarrow> bool" where
  "uri_scheme s \<longleftrightarrow> s \<noteq> [] \<and> is_alpha (hd s)
     \<and> take 1 (dropWhile (\<lambda>c. is_alpha c \<or> is_digit c \<or> c \<in> set ''+.-'') s) = '':''"

definition parseSourceRef :: "string \<Rightarrow> parsed_source_ref" where
  "parseSourceRef value =
     (let raw = js_trim value; low = lower raw
      in if starts_with ''vault:'' low then VaultRef raw (js_trim (drop 6 raw))
         else if starts_with ''repo:'' low then RepoRef raw (js_trim (drop 5 raw))
         else if is_external raw then ExternalRef raw
         else if starts_with ''distill:'' low then DistillRef raw
         else if uri_scheme raw then OpaqueRef raw
         else LegacyRef raw raw)"

definition normalizeExplicitVaultTarget :: "string \<Rightarrow> string option" where
  "normalizeExplicitVaultTarget rawTarget =
     (if rawTarget = [] \<or> CHR 0x5C \<in> set rawTarget \<or> starts_with ''/'' rawTarget
         \<or> dotdot \<in> set (split_on slash rawTarget) then None
      else (let normalized = posix_normalize rawTarget
            in if normalized = ''.'' \<or> starts_with ''../'' normalized then None
               else Some (withMd normalized)))"

definition explicitVaultSourceTarget :: "string \<Rightarrow> string option" where
  "explicitVaultSourceTarget raw =
     (case parseSourceRef raw of VaultRef _ t \<Rightarrow> normalizeExplicitVaultTarget t | _ \<Rightarrow> None)"

definition resolveExplicitVaultTarget :: "string \<Rightarrow> path_indexes \<Rightarrow> string option" where
  "resolveExplicitVaultTarget rawTarget ix =
     (case normalizeExplicitVaultTarget rawTarget of
        None \<Rightarrow> None | Some t \<Rightarrow> if t \<in> set (pi_byPath ix) then Some t else None)"

datatype vault_source_resolution = VaultSource bool "string option" | NonVault

definition resolveVaultSourceRef :: "string \<Rightarrow> string \<Rightarrow> path_indexes \<Rightarrow> vault_source_resolution" where
  "resolveVaultSourceRef raw fromPath ix =
     (case parseSourceRef raw of
        VaultRef _ t \<Rightarrow> VaultSource True (resolveExplicitVaultTarget t ix)
      | LegacyRef _ t \<Rightarrow>
          (case resolveLink ix t fromPath of
             None \<Rightarrow> NonVault
           | Some target \<Rightarrow> if target = [] then NonVault else VaultSource False (Some target))
      | _ \<Rightarrow> NonVault)"

lemma byPath_set [simp]: "set (pi_byPath (buildPathIndexes paths)) = set paths"
  by (simp add: buildPathIndexes_def)

lemma resolveLink_known:
  "resolveLink (buildPathIndexes paths) raw from1 = Some t \<Longrightarrow> t \<in> set paths"
  using basename_map_known [of paths _ t]
  by (auto simp: resolveLink_def Let_def split: if_splits option.splits)

lemma explicit_known: "resolveExplicitVaultTarget t ix = Some p \<Longrightarrow> p \<in> set (pi_byPath ix)"
  by (auto simp: resolveExplicitVaultTarget_def split: option.splits if_splits)

lemma source_ref_known:
  "resolveVaultSourceRef raw from1 (buildPathIndexes paths) = VaultSource e (Some t) \<Longrightarrow> t \<in> set paths"
  using explicit_known [of _ "buildPathIndexes paths" t] resolveLink_known [of paths _ from1 t]
  by (auto simp: resolveVaultSourceRef_def split: parsed_source_ref.splits option.splits if_splits)

lemma split_on_append_plain:
  "c \<notin> set t \<Longrightarrow> split_on c (s @ t) = butlast (split_on c s) @ [last (split_on c s) @ t]"
  by (induction c s rule: split_on.induct) (auto simp: split_on_plain split: list.splits)

lemma withMd_dotdot: "dotdot \<notin> set (split_on slash t) \<Longrightarrow> dotdot \<notin> set (split_on slash (withMd t))"
  by (auto simp: withMd_def split_on_append_plain slash_def dest: in_set_butlastD)

lemma posix_normalize_no_dotdot:
  assumes "p \<noteq> []" "dotdot \<notin> set (split_on slash p)"
  shows "dotdot \<notin> set (split_on slash (posix_normalize p))"
proof -
  obtain b ns where n: "posix_normalize p = (if ns = [] then (if b then ''/'' else if last p = CHR ''/'' then ''./'' else ''.'')
      else join_with ''/'' ((if b then [[]] else []) @ ns @ (if last p = CHR ''/'' then [[]] else [])))"
    and sl: "\<forall>w \<in> set ns. CHR ''/'' \<notin> set w" and sub: "set ns \<subseteq> set (split_on (CHR ''/'') p)"
    by (rule posix_normalize_shape [OF assms(1)]) blast
  show ?thesis
  proof (cases "ns = []")
    case True
    then show ?thesis using n by (auto simp: slash_def)
  next
    case False
    let ?all = "(if b then [[]] else []) @ ns @ (if last p = CHR ''/'' then [[]] else [])"
    have "split_on (CHR ''/'') (join_with ''/'' ?all) = ?all"
      using sl False by (intro split_join) auto
    then show ?thesis using n False sub assms(2) by (auto simp: slash_def)
  qed
qed

text \<open>
  An explicit vault address never leaves the vault: when it is accepted, its normalised
  target has no parent segment and names a markdown file.
\<close>

theorem explicit_vault_target_confined:
  "pred_option (\<lambda>t. dotdot \<notin> set (split_on slash t) \<and> ends_with ''.md'' t) (explicitVaultSourceTarget raw)"
proof -
  have md: "ends_with ''.md'' (withMd t)" for t by (simp add: withMd_def ends_with_def)
  have "dotdot \<notin> set (split_on slash u) \<and> ends_with ''.md'' u" if "normalizeExplicitVaultTarget t = Some u" for t u
    using that posix_normalize_no_dotdot [of t] withMd_dotdot md
    by (auto simp: normalizeExplicitVaultTarget_def Let_def split: if_splits)
  then show ?thesis
    by (auto simp: explicitVaultSourceTarget_def option.pred_set split: parsed_source_ref.splits)
qed

end
