(* ===== verification/SupersedeChains.thy ===== *)
theory SupersedeChains
  imports VaultDocs Walks
begin

text \<open>
  The document-level \<^verbatim>\<open>superseded_by\<close> graph: \<^verbatim>\<open>src/src/curation/supersede-chains.ts\<close>. Its edges
  are built by resolving each pointer; a write is refused when it would put an edited document
  on a loop, and the lint reports loops and last entries that are not canonical. The
  \<^verbatim>\<open>localeCompare\<close> of the final sort is a parameter. The theorems show that the write guard is
  exact and that the lint names every loop once, by its first member.
\<close>

section \<open>Edges\<close>

definition put_edge ::
    "path_indexes \<Rightarrow> (string, string) jmap \<Rightarrow> string \<times> string option \<Rightarrow> (string, string) jmap" where
  "put_edge ix edges e =
     (case e of (path, supersededBy) \<Rightarrow>
        (let target = (case supersededBy of None \<Rightarrow> None
                       | Some s \<Rightarrow> if s = [] then None else resolveLink ix s path)
         in case target of
              None \<Rightarrow> AList.delete path edges
            | Some t \<Rightarrow> if t = [] then AList.delete path edges else AList.update path t edges))"

definition supersedeEdges ::
    "(string \<times> string option) list \<Rightarrow> (string \<times> string option) list \<Rightarrow> (string, string) jmap" where
  "supersedeEdges docs edits =
     (let ix = buildPathIndexes (remdups_first (map fst docs @ map fst edits))
      in foldl (put_edge ix) [] (docs @ edits))"

section \<open>The write guard\<close>

text \<open>The \<^verbatim>\<open>while\<close> loop of \<open>closesSupersedeLoop\<close>.\<close>

function close_walk :: "(string, string) jmap \<Rightarrow> string \<Rightarrow> string list \<Rightarrow> string option \<Rightarrow> bool" where
  "close_walk edges start seen at1 =
     (case at1 of
        None \<Rightarrow> False
      | Some a \<Rightarrow>
          if a \<in> set seen then False
          else if a = start then True
          else close_walk edges start (seen @ [a]) (map_of edges a))"
  by pat_completeness auto
termination
  by (relation "measure (\<lambda>(edges, start, seen, at1). walk_measure edges seen at1)") (auto intro: walk_measure_step)

declare close_walk.simps [simp del]

definition closesSupersedeLoop ::
    "(string \<times> string option) list \<Rightarrow> (string \<times> string option) list \<Rightarrow> bool" where
  "closesSupersedeLoop docs edits =
     (let edges = supersedeEdges docs edits
      in list_ex (\<lambda>e. close_walk edges (fst e) [] (map_of edges (fst e))) edits)"

section \<open>The lint\<close>

definition first_index :: "'a list \<Rightarrow> 'a \<Rightarrow> nat" where
  "first_index xs x = length (takeWhile (\<lambda>y. y \<noteq> x) xs)"

definition string_order :: "string \<Rightarrow> string \<Rightarrow> int" where
  "string_order = cmp_key (\<lambda>s. s)"

definition loop_from :: "string list \<Rightarrow> string \<Rightarrow> string list" where
  "loop_from walk a = drop (first_index walk a) walk"

definition lint_step ::
    "(string, string) jmap \<Rightarrow> (string, string list) jmap \<times> (string, string list) jmap \<Rightarrow> string
     \<Rightarrow> (string, string list) jmap \<times> (string, string list) jmap" where
  "lint_step edges st start =
     (case walk_edges edges [] (Some start) of
        (walk, Some a) \<Rightarrow>
          (let loop = loop_from walk a; first = hd (js_sort string_order loop); pivot = first_index loop first
           in (AList.update first (drop pivot loop @ take pivot loop) (fst st), snd st))
      | (walk, None) \<Rightarrow>
          if start \<in> snd ` set edges then st
          else (fst st, AList.update (last walk)
                  ((case map_of (snd st) (last walk) of None \<Rightarrow> [] | Some hs \<Rightarrow> hs) @ [start]) (snd st)))"

text \<open>A finding is on a path and says what: the loop, or the heads and the status of the last entry.\<close>

datatype chain_finding = LoopFinding string "string list" | EndFinding string "string list" doc_status

definition finding_path :: "chain_finding \<Rightarrow> string" where
  "finding_path f = (case f of LoopFinding p _ \<Rightarrow> p | EndFinding p _ _ \<Rightarrow> p)"

definition end_finding :: "(string, loaded_doc) jmap \<Rightarrow> string \<times> string list \<Rightarrow> chain_finding option" where
  "end_finding docByPath e =
     (case map_of docByPath (fst e) of
        None \<Rightarrow> None
      | Some d \<Rightarrow>
          if fm_status (ld_frontmatter d) = Canonical
             \<or> (case fm_superseded_by (ld_frontmatter d) of None \<Rightarrow> False | Some s \<Rightarrow> s \<noteq> [])
          then None
          else Some (EndFinding (fst e) (js_sort string_order (snd e)) (fm_status (ld_frontmatter d))))"

definition lint_state :: "loaded_doc list \<Rightarrow> (string, string list) jmap \<times> (string, string list) jmap" where
  "lint_state docs =
     (let edges = supersedeEdges (map (\<lambda>d. (ld_path d, fm_superseded_by (ld_frontmatter d))) docs) []
      in foldl (lint_step edges) ([], []) (map fst edges))"

definition supersedeChainFindings :: "(string \<Rightarrow> string \<Rightarrow> int) \<Rightarrow> loaded_doc list \<Rightarrow> chain_finding list" where
  "supersedeChainFindings collate docs =
     (let st = lint_state docs
      in js_sort (\<lambda>a b. collate (finding_path a) (finding_path b))
           (map (\<lambda>(path, loop). LoopFinding path (loop @ [path])) (fst st)
            @ List.map_filter (end_finding (index_by ld_path docs)) (snd st)))"

section \<open>The guard is exact\<close>

lemma close_walk_spec:
  assumes "is_trail (map_of edges) (start # seen)" "distinct (start # seen)"
    "at1 = map_of edges (last (start # seen))"
  shows "close_walk edges start seen at1 \<longleftrightarrow> (start, start) \<in> (succ_rel (map_of edges))\<^sup>+"
  using assms
proof (induction edges start seen at1 rule: close_walk.induct)
  case (1 edges start seen at1)
  have closing: "trail_closed (map_of edges) (start # seen) \<Longrightarrow>
      (start, start) \<in> (succ_rel (map_of edges))\<^sup>+ \<longleftrightarrow> at1 = Some start"
    using trail_back_to_start [OF 1(2,3)] 1(4) by simp
  show ?case
  proof (cases at1)
    case None
    then have "trail_closed (map_of edges) (start # seen)" using 1(4) by (simp add: trail_closed_def)
    from closing [OF this] None show ?thesis by (simp add: close_walk.simps [of edges start seen])
  next
    case (Some a)
    show ?thesis
    proof (cases "a \<in> set (start # seen)")
      case True
      then have "trail_closed (map_of edges) (start # seen)" using 1(4) Some by (auto simp: trail_closed_def)
      from closing [OF this] Some True 1(3) show ?thesis
        by (auto simp: close_walk.simps [of edges start seen])
    next
      case False
      then have "is_trail (map_of edges) (start # (seen @ [a]))"
        using is_trail_snoc [of "start # seen" "map_of edges" a] 1(2,4) Some by simp
      with 1(1) [OF Some] False 1(3) Some show ?thesis
        by (simp add: close_walk.simps [of edges start seen])
    qed
  qed
qed

text \<open>
  C8: the write guard refuses exactly the writes that would put one of the edited documents on a
  \<^verbatim>\<open>superseded_by\<close> loop of the graph as it would be after the write; a loop elsewhere never
  makes it refuse.
\<close>

theorem supersede_guard_exact:
  "closesSupersedeLoop docs edits \<longleftrightarrow>
     (\<exists>e \<in> set edits. (fst e, fst e) \<in> (succ_rel (map_of (supersedeEdges docs edits)))\<^sup>+)"
  by (simp add: closesSupersedeLoop_def Let_def list_ex_iff close_walk_spec)

section \<open>Every loop is reported once\<close>

interpretation string_cmp: comparator string_order
  unfolding string_order_def by (rule comparator_key)

lemma string_order_le: "string_order a b \<le> 0 \<longleftrightarrow> a \<le> b"
  by (auto simp: string_order_def cmp_key_def)

lemma least_string:
  assumes "xs \<noteq> []"
  shows "hd (js_sort string_order xs) \<in> set xs" "x \<in> set xs \<Longrightarrow> hd (js_sort string_order xs) \<le> x"
proof -
  obtain y ys where ys: "js_sort string_order xs = y # ys"
    using assms by (metis length_js_sort length_0_conv neq_Nil_conv)
  have "set (y # ys) = set xs" using ys by (metis set_js_sort)
  moreover have "cmp_sorted string_order (y # ys)" using string_cmp.sorted_sort [of xs] ys by simp
  ultimately show "hd (js_sort string_order xs) \<in> set xs" "x \<in> set xs \<Longrightarrow> hd (js_sort string_order xs) \<le> x"
    using ys by (auto simp: string_order_le)
qed

definition least_on_loop :: "(string, string) jmap \<Rightarrow> string \<Rightarrow> bool" where
  "least_on_loop edges p \<longleftrightarrow> (p, p) \<in> (succ_rel (map_of edges))\<^sup>+
     \<and> {q. (p, q) \<in> (succ_rel (map_of edges))\<^sup>* \<and> q < p} = {}"

lemma first_index_props:
  "x \<in> set xs \<Longrightarrow> first_index xs x < length xs \<and> xs ! first_index xs x = x"
  by (induction xs) (auto simp: first_index_def)

lemma loop_from_props:
  assumes "walk_edges edges [] (Some start) = (walk, Some a)"
  shows "is_trail (map_of edges) (loop_from walk a)" "hd (loop_from walk a) = a"
    "map_of edges (last (loop_from walk a)) = Some (hd (loop_from walk a))"
proof -
  note w = walk_from [OF assms]
  have a: "a \<in> set walk" using w(6) by auto
  note i = first_index_props [OF a]
  show "is_trail (map_of edges) (loop_from walk a)"
    unfolding loop_from_def using is_trail_drop [OF w(1)] i by blast
  show hd: "hd (loop_from walk a) = a" using i by (simp add: loop_from_def hd_drop_conv_nth)
  show "map_of edges (last (loop_from walk a)) = Some (hd (loop_from walk a))"
    using w(4) i hd by (simp add: loop_from_def last_drop)
qed

lemma lint_step_loops:
  "set (jkeys (fst (lint_step edges st start))) =
     set (jkeys (fst st))
     \<union> (case walk_edges edges [] (Some start) of
          (walk, Some a) \<Rightarrow> {hd (js_sort string_order (loop_from walk a))} | (walk, None) \<Rightarrow> {})"
  by (simp add: lint_step_def Let_def split: prod.splits option.splits)

lemma loop_first_least:
  assumes "walk_edges edges [] (Some start) = (walk, Some a)"
  shows "least_on_loop edges (hd (js_sort string_order (loop_from walk a)))"
proof -
  note l = loop_from_props [OF assms]
  let ?f = "hd (js_sort string_order (loop_from walk a))"
  have f: "?f \<in> set (loop_from walk a)" using least_string(1) is_trail_nonempty [OF l(1)] by blast
  from loop_members [OF l(1,3) f] show ?thesis
    using least_string(2) [of "loop_from walk a"] is_trail_nonempty [OF l(1)]
    by (fastforce simp: least_on_loop_def)
qed

lemma least_loop_found:
  assumes "least_on_loop edges p"
  shows "p \<in> fst ` set edges"
    "\<exists>walk. walk_edges edges [] (Some p) = (walk, Some p) \<and> hd (js_sort string_order (loop_from walk p)) = p"
proof -
  have loop: "(p, p) \<in> (succ_rel (map_of edges))\<^sup>+" using assms by (simp add: least_on_loop_def)
  then obtain q where "map_of edges p = Some q" by (auto dest: tranclD)
  then show "p \<in> fst ` set edges" by (force dest: map_of_SomeD)
  obtain walk e where we: "walk_edges edges [] (Some p) = (walk, e)" by (metis surj_pair)
  note w = walk_from [OF we]
  have e: "e = Some p" using trail_back_to_start [OF w(1,2,5)] loop w(3,4) by simp
  note l = loop_from_props [OF we [unfolded e]]
  have "p \<in> set (loop_from walk p)" using l is_trail_nonempty [OF l(1)] by (metis hd_in_set)
  from loop_members(2) [OF l(1,3) this] have reach: "{q. (p, q) \<in> (succ_rel (map_of edges))\<^sup>*} = set (loop_from walk p)" .
  let ?f = "hd (js_sort string_order (loop_from walk p))"
  have "?f \<in> set (loop_from walk p)" "?f \<le> p"
    using least_string [of "loop_from walk p"] is_trail_nonempty [OF l(1)] \<open>p \<in> set (loop_from walk p)\<close> by blast+
  with reach assms have "?f = p" by (auto simp: least_on_loop_def order.order_iff_strict)
  with we e show "\<exists>walk. walk_edges edges [] (Some p) = (walk, Some p) \<and> hd (js_sort string_order (loop_from walk p)) = p"
    by auto
qed

lemma lint_fold_loops:
  "set (jkeys (fst (foldl (lint_step edges) ([], []) starts))) =
     {hd (js_sort string_order (loop_from walk a)) | walk a start.
        start \<in> set starts \<and> walk_edges edges [] (Some start) = (walk, Some a)}"
proof (induction starts rule: rev_induct)
  case (snoc x xs)
  show ?case
    unfolding foldl_append foldl.simps lint_step_loops snoc.IH
    by (cases "walk_edges edges [] (Some x)"; cases "snd (walk_edges edges [] (Some x))") auto
qed simp

text \<open>
  The chain lint reports a loop on a path exactly when that path is the lexically first member
  of a \<^verbatim>\<open>superseded_by\<close> loop: every loop of the vault is reported, and on one path only.
\<close>

theorem loops_reported_once:
  "{p. \<exists>l. LoopFinding p l \<in> set (supersedeChainFindings collate docs)} =
   {p. least_on_loop (supersedeEdges (map (\<lambda>d. (ld_path d, fm_superseded_by (ld_frontmatter d))) docs) []) p}"
proof -
  let ?E = "supersedeEdges (map (\<lambda>d. (ld_path d, fm_superseded_by (ld_frontmatter d))) docs) []"
  have "{p. \<exists>l. LoopFinding p l \<in> set (supersedeChainFindings collate docs)} = set (jkeys (fst (lint_state docs)))"
    by (force simp: supersedeChainFindings_def Let_def List.map_filter_def end_finding_def
        split: option.splits if_splits)
  also have "\<dots> = {p. least_on_loop ?E p}"
  proof (intro set_eqI iffI)
    fix p
    assume "p \<in> set (jkeys (fst (lint_state docs)))"
    then obtain walk a start where "walk_edges ?E [] (Some start) = (walk, Some a)"
      "p = hd (js_sort string_order (loop_from walk a))"
      unfolding lint_state_def Let_def lint_fold_loops by blast
    with loop_first_least show "p \<in> {p. least_on_loop ?E p}" by simp
  next
    fix p
    assume "p \<in> {p. least_on_loop ?E p}"
    then have p: "least_on_loop ?E p" by simp
    from least_loop_found(2) [OF this] obtain walk where w:
      "walk_edges ?E [] (Some p) = (walk, Some p)" "hd (js_sort string_order (loop_from walk p)) = p" by blast
    have "p \<in> set (map fst ?E)" using least_loop_found(1) [OF p] by simp
    then show "p \<in> set (jkeys (fst (lint_state docs)))"
      unfolding lint_state_def Let_def lint_fold_loops mem_Collect_eq
      by (intro exI [of _ walk] exI [of _ p] conjI w(1) w(2) [symmetric])
  qed
  finally show ?thesis .
qed

end
