(* ===== verification/ChainView.thy ===== *)
theory ChainView
  imports SupersedeChains
begin

text \<open>
  The supersession chains a caller sees: \<^verbatim>\<open>src/src/curation/chains.ts\<close>, with the coarsened
  count of \<^verbatim>\<open>src/src/curation/tension-blast.ts\<close>. The code shares one mutable draft object
  between all members of a loop, so drafts live in a store: a list of drafts, and a map from
  path to an index of that list. The theorems show that no unreadable document is ever named in
  the result and that a chain without a visible head says why.
\<close>

section \<open>Walking forward\<close>

record chain_doc =
  cd_path :: string
  cd_collection :: string
  cd_status :: string
  cd_updated :: string
  cd_superseded_by :: "string option"

datatype chain_flag = FlagDraft | FlagRetired | FlagUnforwarded | FlagDangling | FlagLoop | FlagRestricted

datatype hidden_downstream = HiddenNone | HiddenSome | HiddenMany

definition HIDDEN_MANY_THRESHOLD :: int where "HIDDEN_MANY_THRESHOLD = 5"

definition bucketHiddenDownstream :: "int \<Rightarrow> hidden_downstream" where
  "bucketHiddenDownstream hiddenCount =
     (if hiddenCount \<le> 0 then HiddenNone
      else if hiddenCount \<ge> HIDDEN_MANY_THRESHOLD then HiddenMany else HiddenSome)"

record chain_member =
  cm_path :: string
  cm_status :: string
  cm_updated :: string

record chain_replaced = chain_member +
  cr_depth :: nat

record chain =
  ch_head :: "chain_member option"
  ch_replaced :: "chain_replaced list"
  ch_hidden :: hidden_downstream
  ch_flags :: "chain_flag list"

record chain_draft =
  dr_head :: "chain_member option"
  dr_replaced :: "chain_replaced list"
  dr_hidden :: nat
  dr_flags :: "chain_flag list"

datatype walk_end =
    WalkHead chain_doc nat bool
  | WalkRestricted chain_doc nat
  | WalkLoop "chain_doc list" nat

definition seen_at :: "chain_doc list \<Rightarrow> string \<Rightarrow> nat option" where
  "seen_at trail p = (let i = length (takeWhile (\<lambda>d. cd_path d \<noteq> p) trail)
                      in if i < length trail then Some i else None)"

lemma seen_at_None: "seen_at trail p = None \<longleftrightarrow> p \<notin> cd_path ` set trail"
  by (induction trail) (auto simp: seen_at_def Let_def)

function walk_loop ::
    "(string, chain_doc) jmap \<Rightarrow> (chain_doc \<Rightarrow> bool) \<Rightarrow> chain_doc list \<Rightarrow> chain_doc \<Rightarrow> walk_end" where
  "walk_loop byPath readable trail current =
     (case cd_superseded_by current of
        None \<Rightarrow> WalkHead current (length trail - 1) False
      | Some s \<Rightarrow>
          (case map_of byPath s of
             None \<Rightarrow> WalkHead current (length trail - 1) True
           | Some nxt \<Rightarrow>
               if \<not> readable nxt then WalkRestricted nxt (length trail)
               else (case seen_at trail (cd_path nxt) of
                       Some i \<Rightarrow> WalkLoop (drop i trail) i
                     | None \<Rightarrow> walk_loop byPath readable (trail @ [nxt]) nxt)))"
  by pat_completeness auto
termination
proof (relation "measure (\<lambda>(byPath, readable, trail, current).
    card (cd_path ` snd ` set byPath - cd_path ` set trail))")
  fix byPath :: "(string, chain_doc) jmap" and readable :: "chain_doc \<Rightarrow> bool"
  fix trail :: "chain_doc list" and current s nxt
  assume "map_of byPath s = Some nxt" and "seen_at trail (cd_path nxt) = None"
  then have "cd_path nxt \<in> cd_path ` snd ` set byPath" "cd_path nxt \<notin> cd_path ` set trail"
    by (force dest: map_of_SomeD, simp add: seen_at_None)
  then have "cd_path ` snd ` set byPath - cd_path ` set (trail @ [nxt])
      \<subset> cd_path ` snd ` set byPath - cd_path ` set trail" by auto
  then have "card (cd_path ` snd ` set byPath - cd_path ` set (trail @ [nxt]))
      < card (cd_path ` snd ` set byPath - cd_path ` set trail)" by (intro psubset_card_mono) simp_all
  then show "((byPath, readable, trail @ [nxt], nxt), (byPath, readable, trail, current))
      \<in> measure (\<lambda>(byPath, readable, trail, current). card (cd_path ` snd ` set byPath - cd_path ` set trail))"
    by (simp only: in_measure prod.case)
qed simp

declare walk_loop.simps [simp del]

definition walkForward :: "chain_doc \<Rightarrow> (string, chain_doc) jmap \<Rightarrow> (chain_doc \<Rightarrow> bool) \<Rightarrow> walk_end" where
  "walkForward start byPath readable = walk_loop byPath readable [start] start"

definition statusFlags :: "chain_doc \<Rightarrow> bool \<Rightarrow> chain_flag list" where
  "statusFlags doc dangling =
     (if cd_status doc = ''draft'' then [FlagDraft] else [])
     @ (if cd_status doc = ''deprecated'' \<or> cd_status doc = ''archived'' then [FlagRetired] else [])
     @ (if cd_status doc = ''superseded'' \<and> \<not> dangling then [FlagUnforwarded] else [])
     @ (if dangling then [FlagDangling] else [])"

definition toMember :: "chain_doc \<Rightarrow> chain_member" where
  "toMember doc = \<lparr>cm_path = cd_path doc, cm_status = cd_status doc, cm_updated = cd_updated doc\<rparr>"

definition smallestPath :: "chain_replaced list \<Rightarrow> string" where
  "smallestPath rs = (case js_sort string_order (map cm_path rs) of [] \<Rightarrow> [] | p # _ \<Rightarrow> p)"

definition compareChains :: "chain \<Rightarrow> chain \<Rightarrow> int" where
  "compareChains a b =
     (case (ch_head a, ch_head b) of
        (Some x, Some y) \<Rightarrow> string_order (cm_path x) (cm_path y)
      | (Some x, None) \<Rightarrow> -1
      | (None, Some y) \<Rightarrow> 1
      | (None, None) \<Rightarrow> string_order (smallestPath (ch_replaced a)) (smallestPath (ch_replaced b)))"

definition compareReplaced :: "chain_replaced \<Rightarrow> chain_replaced \<Rightarrow> int" where
  "compareReplaced a b =
     (if int (cr_depth a) - int (cr_depth b) \<noteq> 0 then int (cr_depth a) - int (cr_depth b)
      else string_order (cm_path a) (cm_path b))"

section \<open>The store of drafts\<close>

type_synonym draft_store = "chain_draft list \<times> (string, nat) jmap"

definition draftAt ::
    "draft_store \<Rightarrow> string \<Rightarrow> chain_member option \<Rightarrow> chain_flag list \<Rightarrow> draft_store \<times> nat" where
  "draftAt st path head flags =
     (case map_of (snd st) path of
        Some i \<Rightarrow> (st, i)
      | None \<Rightarrow>
          ((fst st @ [\<lparr>dr_head = head, dr_replaced = [], dr_hidden = 0, dr_flags = flags\<rparr>],
            AList.update path (length (fst st)) (snd st)), length (fst st)))"

definition push_replaced :: "draft_store \<times> nat \<Rightarrow> chain_doc \<Rightarrow> nat \<Rightarrow> draft_store" where
  "push_replaced sti doc depth =
     (case sti of ((heap, drafts), i) \<Rightarrow>
        (heap[i := (heap ! i)\<lparr>dr_replaced := dr_replaced (heap ! i) @
           [chain_member.extend (toMember doc) \<lparr>cr_depth = depth\<rparr>]\<rparr>], drafts))"

definition doc_step ::
    "(string, chain_doc) jmap \<Rightarrow> (chain_doc \<Rightarrow> bool) \<Rightarrow> string list \<Rightarrow> draft_store \<Rightarrow> chain_doc \<Rightarrow> draft_store" where
  "doc_step byPath readable replacedSomething st doc =
     (if \<not> readable doc then st
      else case walkForward doc byPath readable of
        WalkHead d depth dangling \<Rightarrow>
          if depth > 0 \<or> cd_path d \<in> set replacedSomething \<or> dangling \<or> cd_status d = ''superseded''
          then (let sti = draftAt st (cd_path d) (Some (toMember d)) (statusFlags d dangling)
                in if depth > 0 then push_replaced sti doc depth else fst sti)
          else st
      | WalkRestricted hop depth \<Rightarrow> push_replaced (draftAt st (cd_path hop) None [FlagRestricted]) doc depth
      | WalkLoop cycle depth \<Rightarrow>
          (let sti = draftAt st (case cycle of [] \<Rightarrow> cd_path doc | c # _ \<Rightarrow> cd_path c) None [FlagLoop];
               drafts' = foldl (\<lambda>m member. AList.update (cd_path member) (snd sti) m) (snd (fst sti)) cycle
           in push_replaced ((fst (fst sti), drafts'), snd sti) doc depth))"

text \<open>The walk of an unreadable document: which drafts it feeds, each once.\<close>

definition hidden_next :: "(string, chain_doc) jmap \<Rightarrow> chain_doc \<Rightarrow> chain_doc option" where
  "hidden_next byPath d = (case cd_superseded_by d of None \<Rightarrow> None | Some s \<Rightarrow> map_of byPath s)"

function hidden_walk ::
    "(string, chain_doc) jmap \<Rightarrow> (string, nat) jmap \<Rightarrow> string list \<Rightarrow> nat list \<Rightarrow> chain_doc option \<Rightarrow> nat list" where
  "hidden_walk byPath drafts seen fed nxt =
     (case nxt of
        None \<Rightarrow> fed
      | Some d \<Rightarrow>
          if cd_path d \<in> set seen then fed
          else hidden_walk byPath drafts (seen @ [cd_path d])
                 (case map_of drafts (cd_path d) of
                    None \<Rightarrow> fed | Some i \<Rightarrow> if i \<in> set fed then fed else fed @ [i])
                 (hidden_next byPath d))"
  by pat_completeness auto
termination
proof (relation "measure (\<lambda>(byPath, drafts, seen, fed, nxt).
    case nxt of None \<Rightarrow> 0 | Some d \<Rightarrow> Suc (card (insert (cd_path d) (cd_path ` snd ` set byPath) - set seen)))")
  fix byPath :: "(string, chain_doc) jmap" and drafts :: "(string, nat) jmap" and seen nxt and d :: chain_doc
  fix fed fed' :: "nat list"
  assume d: "cd_path d \<notin> set seen" "nxt = Some d"
  let ?P = "cd_path ` snd ` set byPath"
  have "insert (cd_path e) ?P - set (seen @ [cd_path d]) \<subset> insert (cd_path d) ?P - set seen"
    if "hidden_next byPath d = Some e" for e
  proof -
    have "\<exists>k. (k, e) \<in> set byPath"
      using that by (auto simp: hidden_next_def split: option.splits dest: map_of_SomeD)
    then have "cd_path e \<in> ?P" by force
    then show ?thesis using d(1) by auto
  qed
  then have "card (insert (cd_path e) ?P - set (seen @ [cd_path d])) < card (insert (cd_path d) ?P - set seen)"
    if "hidden_next byPath d = Some e" for e
    using that by (intro psubset_card_mono) simp_all
  then show "((byPath, drafts, seen @ [cd_path d], fed', hidden_next byPath d), (byPath, drafts, seen, fed, nxt))
      \<in> measure (\<lambda>(byPath, drafts, seen, fed, nxt).
          case nxt of None \<Rightarrow> 0 | Some d \<Rightarrow> Suc (card (insert (cd_path d) (cd_path ` snd ` set byPath) - set seen)))"
    using d by (simp only: in_measure prod.case option.case) (cases "hidden_next byPath d"; simp)
qed simp

declare hidden_walk.simps [simp del]

definition hidden_step ::
    "(string, chain_doc) jmap \<Rightarrow> (chain_doc \<Rightarrow> bool) \<Rightarrow> draft_store \<Rightarrow> chain_doc \<Rightarrow> draft_store" where
  "hidden_step byPath readable st doc =
     (if readable doc then st
      else (foldl (\<lambda>heap i. heap[i := (heap ! i)\<lparr>dr_hidden := dr_hidden (heap ! i) + 1\<rparr>]) (fst st)
              (hidden_walk byPath (snd st) [cd_path doc] [] (hidden_next byPath doc)), snd st))"

definition render_draft :: "chain_draft \<Rightarrow> chain" where
  "render_draft d = \<lparr>ch_head = dr_head d, ch_replaced = js_sort compareReplaced (dr_replaced d),
     ch_hidden = bucketHiddenDownstream (int (dr_hidden d)), ch_flags = dr_flags d\<rparr>"

definition computeChains :: "chain_doc list \<Rightarrow> (chain_doc \<Rightarrow> bool) \<Rightarrow> chain list" where
  "computeChains docs readable =
     (let byPath = index_by cd_path docs;
          replacedSomething = List.map_filter (\<lambda>d. case cd_superseded_by d of None \<Rightarrow> None
             | Some s \<Rightarrow> if map_of byPath s = None then None else Some s) docs;
          st1 = foldl (doc_step byPath readable replacedSomething) ([], []) docs;
          st2 = foldl (hidden_step byPath readable) st1 docs
      in js_sort compareChains (map (\<lambda>i. render_draft (fst st2 ! i)) (remdups_first (map snd (snd st2)))))"

section \<open>Only readable documents are named\<close>

interpretation replaced_order: comparator compareReplaced
proof -
  have eq: "compareReplaced = cmp_then (\<lambda>a b. int (cr_depth a) - int (cr_depth b)) (cmp_key cm_path)"
    by (intro ext) (simp add: compareReplaced_def cmp_then_def string_order_def cmp_key_def)
  show "comparator compareReplaced"
    unfolding eq by (intro comparator_then comparator_key) (unfold_locales; linarith)
qed

definition chain_rank :: "chain \<Rightarrow> bool \<times> string" where
  "chain_rank c = (case ch_head c of Some x \<Rightarrow> (False, cm_path x) | None \<Rightarrow> (True, smallestPath (ch_replaced c)))"

interpretation chain_order: comparator compareChains
proof
  fix x y z :: chain
  show "compareChains x y \<le> 0 \<longleftrightarrow> compareChains y x \<ge> 0"
    by (auto simp: compareChains_def string_order_def cmp_key_def split: option.splits)
  show "compareChains x y \<le> 0 \<Longrightarrow> compareChains y z \<le> 0 \<Longrightarrow> compareChains x z \<le> 0"
    by (auto simp: compareChains_def string_order_le split: option.splits)
qed

definition readable_docs :: "chain_doc list \<Rightarrow> (chain_doc \<Rightarrow> bool) \<Rightarrow> chain_doc set" where
  "readable_docs docs readable = {d \<in> set docs. readable d}"

definition draft_members :: "chain_draft \<Rightarrow> chain_member set" where
  "draft_members d = (case dr_head d of None \<Rightarrow> {} | Some m \<Rightarrow> {m}) \<union> chain_member.truncate ` set (dr_replaced d)"

definition good_draft :: "chain_member set \<Rightarrow> chain_draft \<Rightarrow> bool" where
  "good_draft M d \<longleftrightarrow> draft_members d \<subseteq> M
     \<and> (dr_head d = None \<longrightarrow> dr_flags d = [FlagLoop] \<or> dr_flags d = [FlagRestricted])"

definition good_store :: "chain_member set \<Rightarrow> draft_store \<Rightarrow> bool" where
  "good_store M st \<longleftrightarrow> (\<forall>d \<in> set (fst st). good_draft M d) \<and> (\<forall>i \<in> snd ` set (snd st). i < length (fst st))"

lemma walk_head_readable:
  assumes "current \<in> readable_docs docs readable" "walk_loop (index_by cd_path docs) readable trail current = WalkHead d n b"
  shows "d \<in> readable_docs docs readable"
  using assms
proof (induction "index_by cd_path docs" readable trail current rule: walk_loop.induct)
  case (1 readable trail current)
  show ?case
  proof (cases "cd_superseded_by current")
    case None
    with 1(2,3) show ?thesis by (simp add: walk_loop.simps [of _ readable trail])
  next
    case (Some s)
    show ?thesis
    proof (cases "map_of (index_by cd_path docs) s")
      case None
      with Some 1(2,3) show ?thesis by (simp add: walk_loop.simps [of _ readable trail])
    next
      case (Some nxt)
      note lookup = \<open>cd_superseded_by current = Some s\<close> Some
      have "readable nxt \<and> seen_at trail (cd_path nxt) = None"
        using lookup 1(3) by (auto simp: walk_loop.simps [of _ readable trail] split: if_splits option.splits)
      moreover from this have "nxt \<in> readable_docs docs readable"
        using index_by_sound [OF Some] by (simp add: readable_docs_def)
      moreover have "walk_loop (index_by cd_path docs) readable (trail @ [nxt]) nxt = WalkHead d n b"
        using lookup 1(3) calculation by (simp add: walk_loop.simps [of _ readable trail])
      ultimately show ?thesis using 1(1) [OF lookup] by simp
    qed
  qed
qed

lemma draftAt_good:
  assumes "good_store M st" "good_draft M \<lparr>dr_head = head, dr_replaced = [], dr_hidden = 0, dr_flags = flags\<rparr>"
  shows "good_store M (fst (draftAt st path head flags)) \<and>
    snd (draftAt st path head flags) < length (fst (fst (draftAt st path head flags)))"
proof (cases "map_of (snd st) path")
  case None
  have "\<forall>i \<in> snd ` set (AList.update path (length (fst st)) (snd st)). i < Suc (length (fst st))"
    using update_entries [of "snd st" "\<lambda>_ i. i < Suc (length (fst st))" path "length (fst st)"] assms(1)
    by (force simp: good_store_def)
  with None assms show ?thesis by (simp add: draftAt_def good_store_def)
next
  case (Some i)
  with assms show ?thesis by (force simp: draftAt_def good_store_def dest: map_of_SomeD)
qed

lemma push_good:
  assumes "good_store M (fst sti)" "snd sti < length (fst (fst sti))" "toMember doc \<in> M"
  shows "good_store M (push_replaced sti doc n)"
proof -
  obtain heap drafts i where sti: "sti = ((heap, drafts), i)" by (metis surj_pair)
  have trunc: "chain_member.truncate (chain_member.extend (toMember doc) \<lparr>cr_depth = n\<rparr>) = toMember doc"
    by (simp add: chain_member.defs toMember_def)
  have "good_draft M ((heap ! i)\<lparr>dr_replaced := dr_replaced (heap ! i) @
      [chain_member.extend (toMember doc) \<lparr>cr_depth = n\<rparr>]\<rparr>)"
    using assms trunc by (auto simp: sti good_store_def good_draft_def draft_members_def)
  then show ?thesis
    using assms by (auto simp: push_replaced_def sti good_store_def dest!: set_update_subset_insert [THEN subsetD])
qed

lemma update_all_values:
  assumes "\<forall>i \<in> snd ` set m. i < n" "j < n"
  shows "\<forall>i \<in> snd ` set (foldl (\<lambda>m x. AList.update (f x) j m) m xs). i < n"
  using assms(1)
proof (induction xs arbitrary: m)
  case (Cons x xs)
  have "\<forall>i \<in> snd ` set (AList.update (f x) j m). i < n"
    using update_entries [of m "\<lambda>_ i. i < n" "f x" j] Cons.prems assms(2) by force
  from Cons.IH [OF this] show ?case by simp
qed simp

lemma good_draft_new:
  "good_draft M \<lparr>dr_head = head, dr_replaced = [], dr_hidden = 0, dr_flags = flags\<rparr> \<longleftrightarrow>
     (case head of None \<Rightarrow> flags = [FlagLoop] \<or> flags = [FlagRestricted] | Some m \<Rightarrow> m \<in> M)"
  by (auto simp: good_draft_def draft_members_def split: option.splits)

lemma doc_step_good:
  assumes "good_store (toMember ` readable_docs docs readable) st" "doc \<in> set docs"
  shows "good_store (toMember ` readable_docs docs readable) (doc_step (index_by cd_path docs) readable rs st doc)"
proof (cases "readable doc")
  case False
  then show ?thesis using assms by (simp add: doc_step_def)
next
  case True
  let ?M = "toMember ` readable_docs docs readable"
  have doc: "doc \<in> readable_docs docs readable" using True assms(2) by (simp add: readable_docs_def)
  then have m: "toMember doc \<in> ?M" by simp
  show ?thesis
  proof (cases "walkForward doc (index_by cd_path docs) readable")
    case (WalkHead d n b)
    then have "toMember d \<in> ?M" using walk_head_readable [OF doc] by (auto simp: walkForward_def)
    then have "good_draft ?M \<lparr>dr_head = Some (toMember d), dr_replaced = [], dr_hidden = 0, dr_flags = statusFlags d b\<rparr>"
      by (simp add: good_draft_new)
    note g = draftAt_good [OF assms(1) this, of "cd_path d"]
    show ?thesis
      using WalkHead assms(1) True g push_good [OF conjunct1 [OF g] conjunct2 [OF g] m]
      by (cases b) (simp_all add: doc_step_def Let_def)
  next
    case (WalkRestricted hop n)
    have "good_draft ?M \<lparr>dr_head = None, dr_replaced = [], dr_hidden = 0, dr_flags = [FlagRestricted]\<rparr>"
      by (simp add: good_draft_new)
    note g = draftAt_good [OF assms(1) this, of "cd_path hop"]
    show ?thesis
      using WalkRestricted True push_good [OF conjunct1 [OF g] conjunct2 [OF g] m] by (simp add: doc_step_def)
  next
    case (WalkLoop cycle n)
    let ?p = "case cycle of [] \<Rightarrow> cd_path doc | c # _ \<Rightarrow> cd_path c"
    have "good_draft ?M \<lparr>dr_head = None, dr_replaced = [], dr_hidden = 0, dr_flags = [FlagLoop]\<rparr>"
      by (simp add: good_draft_new)
    note g = draftAt_good [OF assms(1) this, of ?p]
    let ?sti = "draftAt st ?p None [FlagLoop]"
    let ?d = "foldl (\<lambda>m member. AList.update (cd_path member) (snd ?sti) m) (snd (fst ?sti)) cycle"
    have "\<forall>i \<in> snd ` set ?d. i < length (fst (fst ?sti))"
      using g by (intro update_all_values) (auto simp: good_store_def)
    then have "good_store ?M (fst (fst ?sti), ?d)" using g by (simp add: good_store_def)
    from push_good [of ?M "((fst (fst ?sti), ?d), snd ?sti)" doc n] this g m
    show ?thesis using WalkLoop True by (simp add: doc_step_def Let_def)
  qed
qed

lemma bump_good:
  assumes "\<forall>d \<in> set heap. good_draft M d"
  shows "(\<forall>d \<in> set (foldl (\<lambda>h i. h[i := (h ! i)\<lparr>dr_hidden := dr_hidden (h ! i) + 1\<rparr>]) heap is). good_draft M d)
    \<and> length (foldl (\<lambda>h i. h[i := (h ! i)\<lparr>dr_hidden := dr_hidden (h ! i) + 1\<rparr>]) heap is) = length heap"
  using assms
proof (induction "is" arbitrary: heap)
  case (Cons i "is")
  let ?h = "heap[i := (heap ! i)\<lparr>dr_hidden := dr_hidden (heap ! i) + 1\<rparr>]"
  have "\<forall>d \<in> set ?h. good_draft M d"
  proof (cases "i < length heap")
    case True
    then have "good_draft M ((heap ! i)\<lparr>dr_hidden := dr_hidden (heap ! i) + 1\<rparr>)"
      using Cons.prems by (auto simp: good_draft_def draft_members_def)
    then show ?thesis using Cons.prems by (auto dest!: set_update_subset_insert [THEN subsetD])
  qed (use Cons.prems in \<open>simp add: list_update_beyond\<close>)
  from Cons.IH [OF this] show ?case by simp
qed simp

lemma stores_good:
  assumes "set ds \<subseteq> set docs" "good_store (toMember ` readable_docs docs readable) st"
  shows "good_store (toMember ` readable_docs docs readable) (foldl (doc_step (index_by cd_path docs) readable rs) st ds)"
    "good_store (toMember ` readable_docs docs readable) (foldl (hidden_step (index_by cd_path docs) readable) st ds)"
  using assms
proof (induction ds arbitrary: st)
  case (Cons d ds)
  { case 1
    then show ?case using Cons.IH(1) [of "doc_step (index_by cd_path docs) readable rs st d"] doc_step_good by simp }
  { case 2
    have "good_store (toMember ` readable_docs docs readable) (hidden_step (index_by cd_path docs) readable st d)"
      using 2(2) bump_good [of "fst st"] by (auto simp: hidden_step_def good_store_def)
    then show ?case using 2 Cons.IH(2) by simp }
qed simp_all

definition chain_members :: "chain \<Rightarrow> chain_member set" where
  "chain_members c = (case ch_head c of None \<Rightarrow> {} | Some m \<Rightarrow> {m}) \<union> chain_member.truncate ` set (ch_replaced c)"

text \<open>
  C9: whatever the supersession graph holds, the chains a caller is shown name only documents that
  caller can read, with the status and date of the readable document itself, and a chain without
  a visible head is flagged as a loop or as restricted and as nothing else.
\<close>

theorem chains_name_only_readable:
  "\<Union> (chain_members ` set (computeChains docs readable)) \<subseteq> toMember ` {d \<in> set docs. readable d}
   \<and> {ch_flags c | c. c \<in> set (computeChains docs readable) \<and> ch_head c = None} \<subseteq> {[FlagLoop], [FlagRestricted]}"
proof -
  let ?M = "toMember ` readable_docs docs readable"
  define rs where "rs = List.map_filter (\<lambda>d. case cd_superseded_by d of None \<Rightarrow> None
      | Some s \<Rightarrow> if map_of (index_by cd_path docs) s = None then None else Some s) docs"
  define st where "st = foldl (hidden_step (index_by cd_path docs) readable)
      (foldl (doc_step (index_by cd_path docs) readable rs) ([], []) docs) docs"
  have good: "good_store ?M st"
    unfolding st_def by (intro stores_good) (auto simp: good_store_def)
  have set: "set (computeChains docs readable) = render_draft ` (\<lambda>i. fst st ! i) ` snd ` set (snd st)"
    by (simp add: computeChains_def Let_def st_def rs_def image_image)
  have each: "chain_members (render_draft d) \<subseteq> ?M
      \<and> (ch_head (render_draft d) = None \<longrightarrow> ch_flags (render_draft d) \<in> {[FlagLoop], [FlagRestricted]})"
    if "d \<in> (\<lambda>i. fst st ! i) ` snd ` set (snd st)" for d
  proof -
    have "d \<in> set (fst st)" using that good by (auto simp: good_store_def)
    with good show ?thesis
      by (auto simp: good_store_def good_draft_def draft_members_def chain_members_def render_draft_def)
  qed
  show ?thesis unfolding set readable_docs_def [symmetric] using each by blast
qed

end
