(* ===== verification/TensionText.thy ===== *)
theory TensionText
  imports VaultDocs
begin

text \<open>
  The text format of the tension log: the entries, their rendering and their parsing, of
  \<^verbatim>\<open>src/src/curation/tension.ts\<close>. The regular expressions are written out as functions on
  UTF-8 strings: \<open>line_term\<close> is the length of a line terminator (\<^verbatim>\<open>\r\n\<close>, \<^verbatim>\<open>\n\<close>, \<^verbatim>\<open>\r\<close>, U+2028,
  U+2029) at the head of a string, \<open>split_hd\<close> the split before every line that begins with
  \<^verbatim>\<open>## \<close>. The theorems show that appending a rendered entry never changes what the log already
  says, whatever text the entry holds, and that a well-formed entry reads back as itself.
\<close>

section \<open>Entries\<close>

datatype tension_kind = Temporal | Factual | Interpretive | InterProposal | Positional | Unspecified

definition kind_name :: "tension_kind \<Rightarrow> string" where
  "kind_name k = (case k of Temporal \<Rightarrow> ''temporal'' | Factual \<Rightarrow> ''factual'' | Interpretive \<Rightarrow> ''interpretive''
     | InterProposal \<Rightarrow> ''inter-proposal'' | Positional \<Rightarrow> ''positional'' | Unspecified \<Rightarrow> ''unspecified'')"

definition TENSION_KINDS :: "tension_kind list" where
  "TENSION_KINDS = [Temporal, Factual, Interpretive, InterProposal, Positional, Unspecified]"

definition LOGGABLE_TENSION_KINDS :: "tension_kind list" where
  "LOGGABLE_TENSION_KINDS = [Temporal, Factual, Interpretive]"

definition ADDABLE_TENSION_KINDS :: "tension_kind list" where
  "ADDABLE_TENSION_KINDS = LOGGABLE_TENSION_KINDS @ [InterProposal, Positional]"

datatype resolution_kind = ResSuperseded | ResCorrected | ResAccepted | ResInvalid | ResConsolidated

definition resolution_name :: "resolution_kind \<Rightarrow> string" where
  "resolution_name k = (case k of ResSuperseded \<Rightarrow> ''superseded'' | ResCorrected \<Rightarrow> ''corrected''
     | ResAccepted \<Rightarrow> ''accepted'' | ResInvalid \<Rightarrow> ''invalid'' | ResConsolidated \<Rightarrow> ''consolidated'')"

definition RESOLUTION_KINDS :: "resolution_kind list" where
  "RESOLUTION_KINDS = [ResSuperseded, ResCorrected, ResAccepted, ResInvalid, ResConsolidated]"

definition CALLER_RESOLUTION_KINDS :: "resolution_kind list" where
  "CALLER_RESOLUTION_KINDS = [ResSuperseded, ResCorrected, ResAccepted, ResInvalid]"

definition by_name :: "('a \<Rightarrow> string) \<Rightarrow> 'a list \<Rightarrow> string \<Rightarrow> 'a option" where
  "by_name f xs s = List.find (\<lambda>x. f x = s) xs"

record tension_resolution =
  tr_at :: string
  tr_by :: string
  tr_kind :: resolution_kind
  tr_rationale :: "string option"
  tr_references :: "string list option"

record tension_entry =
  te_id :: "string option"
  te_date :: string
  te_title :: string
  te_kind :: tension_kind
  te_sourceA :: string
  te_claimA :: string
  te_sourceB :: string
  te_claimB :: string
  te_status :: string
  te_logged_by :: string
  te_decided_by :: "string option"
  te_resolved :: bool
  te_resolution :: "tension_resolution option"
  te_positionA :: "string option"
  te_positionB :: "string option"
  te_readerA :: "string option"
  te_readerB :: "string option"

section \<open>Rendering\<close>

abbreviation nl :: char where "nl \<equiv> CHR 0x0A"
abbreviation cr :: char where "cr \<equiv> CHR 0x0D"

definition line_term :: "string \<Rightarrow> nat" where
  "line_term s =
     (if take 2 s = [cr, nl] then 2
      else if take 1 s = [nl] \<or> take 1 s = [cr] then 1
      else if take 3 s = [CHR 0xE2, CHR 0x80, CHR 0xA8] \<or> take 3 s = [CHR 0xE2, CHR 0x80, CHR 0xA9] then 3
      else 0)"

function oneLine :: "string \<Rightarrow> string" where
  "oneLine s =
     (if s = [] then []
      else if line_term s = 0 then hd s # oneLine (tl s)
      else CHR '' '' # oneLine (drop (line_term s) s))"
  by pat_completeness auto
termination
  by (relation "measure length") (auto simp: neq_Nil_conv)

declare oneLine.simps [simp del]

fun has_term :: "string \<Rightarrow> bool" where
  "has_term [] = False"
| "has_term (c # cs) = (line_term (c # cs) \<noteq> 0 \<or> has_term cs)"

definition em_dash :: string where "em_dash = [CHR 0xE2, CHR 0x80, CHR 0x94]"

definition field :: "string \<Rightarrow> string \<Rightarrow> string" where
  "field label v = ''- **'' @ label @ '':** '' @ oneLine v"

definition opt_field :: "string \<Rightarrow> string option \<Rightarrow> string list" where
  "opt_field label v = (case v of None \<Rightarrow> [] | Some x \<Rightarrow> [field label x])"

definition renderResolution :: "tension_resolution \<Rightarrow> string list" where
  "renderResolution r =
     [field ''Resolved at'' (tr_at r), field ''Resolved by'' (tr_by r),
      field ''Resolution kind'' (resolution_name (tr_kind r))]
     @ (case tr_rationale r of None \<Rightarrow> [] | Some x \<Rightarrow> if x = [] then [] else [field ''Rationale'' x])
     @ (case tr_references r of None \<Rightarrow> []
        | Some xs \<Rightarrow> if xs = [] then [] else [field ''References'' (join_with '', '' xs)])"

definition source_field :: "string \<Rightarrow> string \<Rightarrow> string \<Rightarrow> string" where
  "source_field label path claim = ''- **'' @ label @ '':** '' @ oneLine path @ '' says '' @ oneLine claim"

definition header_line :: "tension_entry \<Rightarrow> string" where
  "header_line e = ''## '' @ oneLine (te_date e) @ '' '' @ em_dash @ '' '' @ oneLine (te_title e)"

definition entry_fields :: "tension_entry \<Rightarrow> string list" where
  "entry_fields e =
     opt_field ''Id'' (te_id e)
     @ (if te_kind e = Unspecified then [] else [field ''Kind'' (kind_name (te_kind e))])
     @ [source_field ''Source A'' (te_sourceA e) (te_claimA e),
        source_field ''Source B'' (te_sourceB e) (te_claimB e),
        field ''Status'' (te_status e), field ''Logged by'' (te_logged_by e)]
     @ opt_field ''Position A'' (te_positionA e) @ opt_field ''Position B'' (te_positionB e)
     @ opt_field ''Reader A'' (te_readerA e) @ opt_field ''Reader B'' (te_readerB e)
     @ (case te_decided_by e of None \<Rightarrow> [] | Some x \<Rightarrow> if x = [] then [] else [field ''Decided by principal'' x])
     @ (case te_resolution e of None \<Rightarrow> [] | Some r \<Rightarrow> renderResolution r)"

definition renderEntry :: "tension_entry \<Rightarrow> string" where
  "renderEntry e = join_with [nl] (header_line e # entry_fields e) @ [nl]"

section \<open>Parsing\<close>

fun find_sub :: "string \<Rightarrow> string \<Rightarrow> nat option" where
  "find_sub pat s =
     (if take (length pat) s = pat then Some 0
      else case s of [] \<Rightarrow> None | c # cs \<Rightarrow> map_option Suc (find_sub pat cs))"

declare find_sub.simps [simp del]

definition says :: string where "says = '' says ''"

definition parseSourceLine :: "string \<Rightarrow> string \<times> string" where
  "parseSourceLine value =
     (case find_sub says value of
        None \<Rightarrow> (js_trim value, [])
      | Some m \<Rightarrow> (js_trim (take m value), js_trim (drop (m + length says) value)))"

definition parseReferences :: "string \<Rightarrow> string list" where
  "parseReferences value = filter (\<lambda>s. s \<noteq> []) (map js_trim (split_on (CHR '','') value))"

text \<open>
  The expression for one field line: a dash, white space, a label in asterisks that ends at the first
  \<^verbatim>\<open>:**\<close> after which the rest of the line can match, and the value. \<open>label_end n s\<close> looks for that end from
  offset \<open>n\<close>.
\<close>

function label_end :: "nat \<Rightarrow> string \<Rightarrow> (string \<times> string) option" where
  "label_end n s =
     (if length s < n then None
      else let v = strip_all js_spaces (drop (n + 3) s)
           in if take 3 (drop n s) = '':**'' \<and> \<not> has_term (take n s) \<and> \<not> has_term v then Some (take n s, v)
              else label_end (Suc n) s)"
  by pat_completeness auto
termination
  by (relation "measure (\<lambda>(n, s). Suc (length s) - n)") auto

declare label_end.simps [simp del]

definition match_field :: "string \<Rightarrow> (string \<times> string) option" where
  "match_field line =
     (if take 1 line = ''-'' then
        (let r = strip_all js_spaces (drop 1 line)
         in if length r < length (drop 1 line) \<and> take 2 r = ''**'' then label_end 1 (drop 2 r) else None)
      else None)"

record block_acc =
  ba_entry :: tension_entry
  ba_at :: "string option"
  ba_by :: "string option"
  ba_kind :: "resolution_kind option"
  ba_rationale :: "string option"
  ba_references :: "string list option"

definition set_field :: "string \<Rightarrow> string \<Rightarrow> block_acc \<Rightarrow> block_acc" where
  "set_field label value a =
     (let e = ba_entry a; v = js_trim value in
      if label = ''id'' then a\<lparr>ba_entry := e\<lparr>te_id := Some v\<rparr>\<rparr>
      else if label = ''kind'' then
        (case by_name kind_name TENSION_KINDS v of None \<Rightarrow> a | Some k \<Rightarrow> a\<lparr>ba_entry := e\<lparr>te_kind := k\<rparr>\<rparr>)
      else if label = ''source a'' then
        (case parseSourceLine value of (p, c) \<Rightarrow> a\<lparr>ba_entry := e\<lparr>te_sourceA := p, te_claimA := c\<rparr>\<rparr>)
      else if label = ''source b'' then
        (case parseSourceLine value of (p, c) \<Rightarrow> a\<lparr>ba_entry := e\<lparr>te_sourceB := p, te_claimB := c\<rparr>\<rparr>)
      else if label = ''status'' then a\<lparr>ba_entry := e\<lparr>te_status := v\<rparr>\<rparr>
      else if label = ''logged by'' then a\<lparr>ba_entry := e\<lparr>te_logged_by := v\<rparr>\<rparr>
      else if label = ''position a'' then a\<lparr>ba_entry := e\<lparr>te_positionA := Some v\<rparr>\<rparr>
      else if label = ''position b'' then a\<lparr>ba_entry := e\<lparr>te_positionB := Some v\<rparr>\<rparr>
      else if label = ''reader a'' then a\<lparr>ba_entry := e\<lparr>te_readerA := Some v\<rparr>\<rparr>
      else if label = ''reader b'' then a\<lparr>ba_entry := e\<lparr>te_readerB := Some v\<rparr>\<rparr>
      else if label = ''decided by principal'' then a\<lparr>ba_entry := e\<lparr>te_decided_by := Some v\<rparr>\<rparr>
      else if label = ''resolved at'' then a\<lparr>ba_at := Some v\<rparr>
      else if label = ''resolved by'' then a\<lparr>ba_by := Some v\<rparr>
      else if label = ''resolution kind'' then
        (case by_name resolution_name RESOLUTION_KINDS v of None \<Rightarrow> a | Some k \<Rightarrow> a\<lparr>ba_kind := Some k\<rparr>)
      else if label = ''rationale'' then a\<lparr>ba_rationale := Some v\<rparr>
      else if label = ''references'' then a\<lparr>ba_references := Some (parseReferences value)\<rparr>
      else a)"

definition parse_line :: "block_acc \<Rightarrow> string \<Rightarrow> block_acc" where
  "parse_line a line = (case match_field line of None \<Rightarrow> a | Some (l, v) \<Rightarrow> set_field (lower l) v a)"

definition drop_hashes :: "string \<Rightarrow> string" where
  "drop_hashes h =
     (let r = strip_all js_spaces (drop 2 h)
      in if take 2 h = ''##'' \<and> length r < length (drop 2 h) then r else h)"

text \<open>
  The title: white space and then at least one character, none a line terminator. White space alone still
  matches when its last character can be the title, which is then trimmed away.
\<close>

definition match_title :: "string \<Rightarrow> string option" where
  "match_title s =
     (let r = strip_all js_spaces s
      in if r \<noteq> [] then (if length r < length s \<and> \<not> has_term r then Some (js_trim r) else None)
         else case strip_one js_spaces s of
                None \<Rightarrow> None
              | Some t \<Rightarrow>
                  if t \<noteq> [] \<and> (case strip_one (map rev js_spaces) (rev s) of
                                 None \<Rightarrow> False
                               | Some u \<Rightarrow> \<not> has_term (drop (length u) s))
                  then Some [] else None)"

definition match_header :: "string \<Rightarrow> (string \<times> string) option" where
  "match_header h =
     (let d = take 10 h; r = strip_all js_spaces (drop 10 h)
      in if length d = 10 \<and> list_all is_digit (take 4 d) \<and> take 1 (drop 4 d) = ''-''
            \<and> list_all is_digit (take 2 (drop 5 d)) \<and> take 1 (drop 7 d) = ''-'' \<and> list_all is_digit (drop 8 d)
            \<and> length r < length (drop 10 h) \<and> take 3 r = em_dash
         then map_option (Pair d) (match_title (drop 3 r)) else None)"

definition new_entry :: "string \<Rightarrow> string \<Rightarrow> tension_entry" where
  "new_entry date title =
     \<lparr>te_id = None, te_date = date, te_title = title, te_kind = Unspecified, te_sourceA = [], te_claimA = [],
      te_sourceB = [], te_claimB = [], te_status = ''unresolved'', te_logged_by = [], te_decided_by = None,
      te_resolved = False, te_resolution = None, te_positionA = None, te_positionB = None,
      te_readerA = None, te_readerB = None\<rparr>"

definition start_acc :: "string \<Rightarrow> string \<Rightarrow> block_acc" where
  "start_acc date title = \<lparr>ba_entry = new_entry date title, ba_at = None, ba_by = None, ba_kind = None,
     ba_rationale = None, ba_references = None\<rparr>"

definition finish_block :: "block_acc \<Rightarrow> tension_entry" where
  "finish_block a =
     (case (ba_at a, ba_by a, ba_kind a) of
        (Some t, Some b, Some k) \<Rightarrow>
          (ba_entry a)\<lparr>te_resolution := Some \<lparr>tr_at = t, tr_by = b, tr_kind = k,
              tr_rationale = (case ba_rationale a of Some x \<Rightarrow> if x = [] then None else Some x | None \<Rightarrow> None),
              tr_references = (case ba_references a of Some xs \<Rightarrow> if xs = [] then None else Some xs | None \<Rightarrow> None)\<rparr>,
            te_resolved := True\<rparr>
      | _ \<Rightarrow> ba_entry a)"

definition parseBlock :: "string \<Rightarrow> tension_entry option" where
  "parseBlock block =
     (let lines = split_on nl block in
      case match_header (drop_hashes (hd lines)) of
        None \<Rightarrow> None
      | Some (d, t) \<Rightarrow> Some (finish_block (foldl parse_line (start_acc d t) (tl lines))))"

definition bol :: "string \<Rightarrow> bool" where
  "bol cur \<longleftrightarrow> cur \<noteq> [] \<and> (hd cur = nl \<or> hd cur = cr
     \<or> take 3 cur = [CHR 0xA8, CHR 0x80, CHR 0xE2] \<or> take 3 cur = [CHR 0xA9, CHR 0x80, CHR 0xE2])"

fun split_hd :: "string \<Rightarrow> string \<Rightarrow> string list" where
  "split_hd cur [] = [rev cur]"
| "split_hd cur (c # cs) =
     (if bol cur \<and> take 3 (c # cs) = ''## '' then rev cur # split_hd [c] cs else split_hd (c # cur) cs)"

definition segments :: "string \<Rightarrow> string list" where
  "segments raw = split_hd [] raw"

definition parse_segment :: "string \<Rightarrow> tension_entry option" where
  "parse_segment block = (if take 3 (js_trim block) = ''## '' then parseBlock (js_trim block) else None)"

definition parseTensionLog :: "string \<Rightarrow> tension_entry list" where
  "parseTensionLog raw = List.map_filter parse_segment (segments raw)"

end
