(* ===== verification/TensionRoundtrip.thy ===== *)
theory TensionRoundtrip
  imports TensionText
begin

text \<open>
  Facts about the text of the tension log: \<open>oneLine\<close> removes every line terminator, the log
  splits into the same blocks whatever is appended behind it, an appended entry adds exactly one
  block, and what is read back of it. The two properties are that no value can forge another
  entry and that a well-formed entry reads back as itself.
\<close>

section \<open>Line terminators\<close>

lemma line_term_append: "line_term q \<noteq> 0 \<Longrightarrow> q \<noteq> []"
  by (auto simp: line_term_def)

lemma line_term_more: "line_term x \<noteq> 0 \<Longrightarrow> line_term (x @ y) \<noteq> 0"
  by (auto simp: line_term_def take_Cons' neq_Nil_conv split: if_splits)

lemma line_term_space: "x \<noteq> [] \<Longrightarrow> line_term (x @ CHR '' '' # q) \<noteq> 0 \<longleftrightarrow> line_term x \<noteq> 0"
  by (cases x; cases "tl x"; cases "tl (tl x)") (auto simp: line_term_def)

lemma has_term_suffix: "line_term q \<noteq> 0 \<Longrightarrow> has_term (p @ q)"
proof (induction p)
  case Nil
  then show ?case using line_term_append [OF Nil] by (cases q) auto
qed auto

lemma has_term_space [simp]: "has_term (p @ CHR '' '' # q) \<longleftrightarrow> has_term p \<or> has_term q"
proof (induction p)
  case Nil
  then show ?case by (simp add: line_term_def)
next
  case (Cons c p)
  then show ?case using line_term_space [of "c # p" q] by auto
qed

lemma has_term_char [simp]:
  "c \<noteq> nl \<Longrightarrow> c \<noteq> cr \<Longrightarrow> c \<noteq> CHR 0xE2 \<Longrightarrow> has_term (c # s) = has_term s"
  by (simp add: line_term_def)

lemma has_term_nl: "\<not> has_term s \<Longrightarrow> nl \<notin> set s \<and> cr \<notin> set s"
  by (induction s) (auto simp: line_term_def split: if_splits)

lemma oneLine_head:
  "oneLine t = x # y \<Longrightarrow> x \<noteq> CHR '' '' \<Longrightarrow> \<exists>u. t = x # u \<and> oneLine u = y"
  by (subst (asm) oneLine.simps) (auto simp: neq_Nil_conv split: if_splits)

lemma oneLine_no_term [simp]: "\<not> has_term (oneLine s)"
proof (induction s rule: oneLine.induct)
  case (1 s)
  show ?case
  proof (cases "s = [] \<or> line_term s \<noteq> 0")
    case True
    with 1 show ?thesis by (subst oneLine.simps) (auto simp: line_term_def)
  next
    case False
    then obtain c t where s: "s = c # t" by (cases s) auto
    with 1 False have t: "\<not> has_term (oneLine t)" by simp
    have c: "c \<noteq> nl" "c \<noteq> cr" using False s by (auto simp: line_term_def split: if_splits)
    have third: "take 3 (c # t) = c # x # y # []" if t3: "take 3 (c # oneLine t) = [c, x, y]" "x \<noteq> CHR '' ''" "y \<noteq> CHR '' ''" for x y
    proof -
      from t3(1) obtain r where r: "oneLine t = x # y # r"
        by (cases "oneLine t"; cases "tl (oneLine t)") auto
      from oneLine_head [OF r t3(2)] obtain u where u: "t = x # u" "oneLine u = y # r" by auto
      from oneLine_head [OF u(2) t3(3)] u show ?thesis by auto
    qed
    have "line_term (c # oneLine t) = 0"
    proof (rule ccontr)
      assume "line_term (c # oneLine t) \<noteq> 0"
      with c have "c = CHR 0xE2"
        "take 3 (c # oneLine t) = [c, CHR 0x80, CHR 0xA8] \<or> take 3 (c # oneLine t) = [c, CHR 0x80, CHR 0xA9]"
        by (auto simp: line_term_def split: if_splits)
      with third [of "CHR 0x80" "CHR 0xA8"] third [of "CHR 0x80" "CHR 0xA9"] have "line_term s \<noteq> 0"
        unfolding s by (auto simp: line_term_def)
      with False show False by simp
    qed
    then show ?thesis using t False s by (subst oneLine.simps) simp
  qed
qed

lemma oneLine_id: "\<not> has_term s \<Longrightarrow> oneLine s = s"
proof (induction s)
  case Nil
  then show ?case by (simp add: oneLine.simps)
next
  case (Cons c s)
  then show ?case by (subst oneLine.simps) simp
qed

section \<open>Splitting into blocks\<close>

lemma split_hd_nonempty [simp]: "split_hd cur s \<noteq> []"
  by (induction cur s rule: split_hd.induct) auto

lemma concat_split_hd: "concat (split_hd cur s) = rev cur @ s"
  by (induction cur s rule: split_hd.induct) auto

lemma heading_stable:
  assumes "bol (rev xs @ x # cur)"
  shows "take 3 (x # xs @ b) = ''## '' \<longleftrightarrow> take 3 (x # xs) = ''## ''"
proof (cases xs)
  case Nil
  with assms have "x \<noteq> CHR ''#''" by (auto simp: bol_def)
  then show ?thesis by simp
next
  case (Cons y ys)
  show ?thesis
  proof (cases ys)
    case Nil
    with assms Cons have "y \<noteq> CHR ''#''" by (auto simp: bol_def)
    then show ?thesis using Cons by auto
  next
    case (Cons z zs)
    then show ?thesis using \<open>xs = y # ys\<close> by (simp add: numeral_eq_Suc)
  qed
qed

lemma bol_shorten: "bol (w @ cur) \<Longrightarrow> 3 \<le> length w \<Longrightarrow> bol w"
  by (cases w) (auto simp: bol_def)

lemma split_hd_append:
  "bol (rev a @ cur) \<Longrightarrow> take 3 b = ''## '' \<Longrightarrow> split_hd cur (a @ b) = split_hd cur a @ split_hd [] b"
proof (induction a arbitrary: cur)
  case Nil
  then obtain cs where "b = CHR ''#'' # cs" by (cases b) auto
  with Nil show ?case by (simp add: bol_def)
next
  case (Cons x xs)
  have stable: "take 3 (x # xs @ b) = ''## '' \<longleftrightarrow> take 3 (x # xs) = ''## ''"
    using Cons.prems(1) by (intro heading_stable [where cur = cur]) simp
  show ?case
  proof (cases "bol cur \<and> take 3 (x # xs) = ''## ''")
    case True
    then have "2 \<le> length xs" by (cases xs; cases "tl xs") auto
    then have "bol (rev xs @ [x])" using bol_shorten [of "rev xs @ [x]" cur] Cons.prems(1) by simp
    from Cons.IH [OF this Cons.prems(2)] show ?thesis using True stable by simp
  next
    case False
    from Cons.IH [of "x # cur"] Cons.prems False stable show ?thesis by auto
  qed
qed

lemma split_hd_newline:
  "split_hd cur (a @ [nl]) = butlast (split_hd cur a) @ [last (split_hd cur a) @ [nl]]"
proof (induction a arbitrary: cur)
  case (Cons x xs)
  have "take 3 (x # xs @ [nl]) = ''## '' \<longleftrightarrow> take 3 (x # xs) = ''## ''"
    by (cases xs; cases "tl xs") (auto simp: numeral_eq_Suc)
  with Cons show ?case by auto
qed simp

lemma no_break_inside:
  assumes "\<not> has_term (l1 @ l2)" "l1 \<noteq> []" "cur = [] \<or> hd cur = nl"
  shows "\<not> bol (rev l1 @ cur)"
proof
  assume b: "bol (rev l1 @ cur)"
  obtain p c where l1: "l1 = p @ [c]" using assms(2) by (cases l1 rule: rev_cases) auto
  have c: "c \<noteq> nl" "c \<noteq> cr" using has_term_nl [OF assms(1)] l1 by auto
  then have t: "take 3 (c # rev p @ cur) = [CHR 0xA8, CHR 0x80, CHR 0xE2]
      \<or> take 3 (c # rev p @ cur) = [CHR 0xA9, CHR 0x80, CHR 0xE2]" using b l1 by (auto simp: bol_def)
  have "2 \<le> length p"
    using t assms(3) by (cases p rule: rev_cases; cases "butlast p" rule: rev_cases; cases cur) auto
  then obtain q x y where p: "p = q @ [x, y]"
    by (metis append.assoc append_Cons append_butlast_last_id append_Nil length_butlast length_greater_0_conv
        less_eq_Suc_le list.size(3) nat_le_linear not_less_eq_eq numeral_2_eq_2 zero_less_diff le_zero_eq
        Suc_leI diff_Suc_1 One_nat_def Suc_le_mono)
  with t have "line_term (x # y # c # l2) \<noteq> 0" by (auto simp: line_term_def)
  from has_term_suffix [OF this, of q] assms(1) l1 p show False by simp
qed

lemma split_hd_line:
  assumes "\<not> has_term (l1 @ l2)" "cur = [] \<or> hd cur = nl" "l1 \<noteq> [] \<or> cur = [] \<or> take 3 (l2 @ r) \<noteq> ''## ''"
  shows "split_hd (rev l1 @ cur) (l2 @ r) = split_hd (rev (l1 @ l2) @ cur) r"
  using assms
proof (induction l2 arbitrary: l1)
  case (Cons c l2)
  have nb: "\<not> (bol (rev l1 @ cur) \<and> take 3 (c # l2 @ r) = ''## '')"
    using no_break_inside [of l1 "c # l2" cur] Cons.prems by (cases "l1 = []") (auto simp: bol_def)
  have "split_hd (rev l1 @ cur) ((c # l2) @ r) = split_hd (c # rev l1 @ cur) (l2 @ r)"
    by (simp only: append_Cons split_hd.simps if_not_P [OF nb])
  with Cons.IH [of "l1 @ [c]"] Cons.prems show ?case by simp
qed simp

lemma split_hd_lines:
  assumes "\<forall>l \<in> set ls. \<not> has_term l \<and> take 1 l = ''-''" "hd cur = nl"
  shows "split_hd cur (concat (map (\<lambda>l. l @ [nl]) ls)) = [rev cur @ concat (map (\<lambda>l. l @ [nl]) ls)]"
  using assms
proof (induction ls arbitrary: cur)
  case (Cons l ls)
  have l: "\<not> has_term l" "take 3 (l @ r) \<noteq> ''## ''" for r using Cons.prems by (auto, cases l, auto)
  let ?r = "nl # concat (map (\<lambda>l. l @ [nl]) ls)"
  have "split_hd cur (l @ ?r) = split_hd (rev l @ cur) ?r"
    using split_hd_line [of "[]" l cur ?r] l Cons.prems(2) by simp
  also have "\<dots> = split_hd (nl # rev l @ cur) (concat (map (\<lambda>l. l @ [nl]) ls))" by simp
  also have "\<dots> = [rev (nl # rev l @ cur) @ concat (map (\<lambda>l. l @ [nl]) ls)]"
    using Cons.IH [of "nl # rev l @ cur"] Cons.prems(1) by simp
  finally show ?case by simp
qed simp

lemma join_lines: "ls \<noteq> [] \<Longrightarrow> join_with [nl] ls @ [nl] = concat (map (\<lambda>l. l @ [nl]) ls)"
  by (induction ls) (auto simp: join_with_Cons)

section \<open>Appending an entry\<close>

lemma trim_end_nl: "trim_end (s @ [nl]) = trim_end s"
  unfolding trim_end_def by (subst strip_all.simps) (simp add: js_spaces_Cons)

text \<open>Trimming the start first: a line feed behind a string matters only when nothing else is left.\<close>

lemma strip_one_nl:
  "strip_one js_spaces (s @ [nl]) = (if s = [] then Some [] else map_option (\<lambda>t. t @ [nl]) (strip_one js_spaces s))"
proof (cases "s = []")
  case True
  then show ?thesis by (simp add: js_spaces_def)
next
  case False
  then obtain c t where s: "s = c # t" by (cases s) auto
  have "w \<noteq> [] \<Longrightarrow> nl \<notin> set (tl w) \<Longrightarrow>
      take (length w) ((c # t) @ [nl]) = w \<longleftrightarrow> take (length w) (c # t) = w" for w
  proof (cases "length w \<le> length (c # t)")
    case False
    assume w: "w \<noteq> []" "nl \<notin> set (tl w)"
    have "take (length w) ((c # t) @ [nl]) = c # t @ [nl]" using False by simp
    moreover have "take (length w) (c # t) = c # t" using False by simp
    ultimately show ?thesis using w False by (cases w) auto
  next
    case True
    then show ?thesis by (simp only: take_append) simp
  qed
  note same = this
  have rest: "drop (length w) ((c # t) @ [nl]) = drop (length w) (c # t) @ [nl]" if "length w \<le> length (c # t)" for w :: string
    using that by (simp only: drop_append) simp
  have long: "take (length w) (c # t) \<noteq> w" if "\<not> length w \<le> length (c # t)" for w
    using that by (metis length_take min.cobounded1 linear)
  have one: "strip_one ws ((c # t) @ [nl]) = map_option (\<lambda>u. u @ [nl]) (strip_one ws (c # t))"
    if "\<forall>w \<in> set ws. nl \<notin> set (tl w)" for ws
    using that
  proof (induction ws)
    case (Cons w ws)
    show ?case
    proof (cases "w \<noteq> [] \<and> take (length w) (c # t) = w")
      case True
      then have "length w \<le> length (c # t)" using long by blast
      with True same [of w] rest [of w] Cons show ?thesis by (simp del: append_Cons)
    next
      case False
      with same [of w] Cons show ?thesis by (auto simp del: append_Cons)
    qed
  qed simp
  have "strip_one js_spaces ((c # t) @ [nl]) = map_option (\<lambda>u. u @ [nl]) (strip_one js_spaces (c # t))"
    by (rule one) (simp add: js_spaces_def)
  then show ?thesis using s by simp
qed

lemma strip_all_nl: "strip_all js_spaces (s @ [nl]) = (if strip_all js_spaces s = [] then [] else strip_all js_spaces s @ [nl])"
proof (induction "js_spaces" s rule: strip_all.induct)
  case (1 s)
  show ?case
  proof (cases "strip_one js_spaces s")
    case None
    then show ?thesis
      using strip_one_nl [of "[]"]
      by (cases "s = []") (simp_all add: strip_all.simps [of _ "[nl]"] strip_all_none strip_one_nl)
  next
    case (Some t)
    then have "s \<noteq> []" by auto
    with Some 1 [OF Some] show ?thesis
      by (simp add: strip_all.simps [of _ "s @ [nl]"] strip_all.simps [of _ s] strip_one_nl)
  qed
qed

lemma trim_nl [simp]: "js_trim (s @ [nl]) = js_trim s"
  by (simp add: js_trim_def trim_start_def strip_all_nl trim_end_nl)

declare has_term.simps(2) [simp del]

lemma header_no_term: "\<not> has_term (header_line e)"
proof -
  have "\<not> has_term em_dash" by (simp add: em_dash_def has_term.simps(2) line_term_def)
  then show ?thesis by (simp add: header_line_def)
qed

lemma field_shape: "field l v = (''- **'' @ l @ '':**'') @ CHR '' '' # oneLine v"
  by (simp add: field_def)

lemma field_line: "has_term (field l v) = has_term (l @ '':**'')" "take 1 (field l v) = ''-''"
  by (simp only: field_shape has_term_space) (simp_all add: field_def)

lemma source_line:
  "has_term (source_field l p c) = has_term (l @ '':**'')" "take 1 (source_field l p c) = ''-''"
proof -
  have "source_field l p c = (''- **'' @ l @ '':**'') @ CHR '' '' # (oneLine p @ CHR '' '' # (''says'' @ CHR '' '' # oneLine c))"
    by (simp add: source_field_def)
  then show "has_term (source_field l p c) = has_term (l @ '':**'')"
    by (simp only: has_term_space) simp
qed (simp add: source_field_def)

lemma fields_no_term: "l \<in> set (entry_fields e) \<Longrightarrow> \<not> has_term l \<and> take 1 l = ''-''"
  by (auto simp: entry_fields_def opt_field_def renderResolution_def field_line source_line
      simp del: take_0 One_nat_def split: option.splits if_splits)

lemma render_lines: "renderEntry e = concat (map (\<lambda>l. l @ [nl]) (header_line e # entry_fields e))"
  by (simp only: renderEntry_def join_lines [OF list.distinct(2)])

lemma render_segment: "split_hd [] (renderEntry e) = [renderEntry e]"
proof -
  let ?rest = "concat (map (\<lambda>l. l @ [nl]) (entry_fields e))"
  have "split_hd [] (header_line e @ nl # ?rest) = split_hd (rev (header_line e)) (nl # ?rest)"
    using split_hd_line [of "[]" "header_line e" "[]" "nl # ?rest"] header_no_term by simp
  also have "\<dots> = split_hd (nl # rev (header_line e)) ?rest" by simp
  also have "\<dots> = [rev (nl # rev (header_line e)) @ ?rest]"
    using fields_no_term by (intro split_hd_lines) auto
  finally show ?thesis by (simp add: render_lines)
qed

lemma render_start: "take 3 (renderEntry e) = ''## ''"
  by (simp add: render_lines header_line_def)

lemma parse_segment_nl [simp]: "parse_segment (s @ [nl]) = parse_segment s"
  by (simp add: parse_segment_def)

lemma map_filter_append: "List.map_filter g (xs @ ys) = List.map_filter g xs @ List.map_filter g ys"
  by (simp add: map_filter_def)

lemma map_filter_last:
  "xs \<noteq> [] \<Longrightarrow> List.map_filter parse_segment (butlast xs @ [last xs @ [nl]]) = List.map_filter parse_segment xs"
proof -
  assume "xs \<noteq> []"
  then have "xs = butlast xs @ [last xs]" by simp
  then show ?thesis by (metis (no_types, lifting) map_filter_append map_filter_simps parse_segment_nl)
qed

text \<open>What an appended entry adds to the log, whatever text it holds.\<close>

definition entry_read :: "tension_entry \<Rightarrow> tension_entry list" where
  "entry_read e = (case parse_segment (renderEntry e) of None \<Rightarrow> [] | Some x \<Rightarrow> [x])"

lemma append_parse: "parseTensionLog (raw @ nl # renderEntry e) = parseTensionLog raw @ entry_read e"
proof -
  have "split_hd [] ((raw @ [nl]) @ renderEntry e) = split_hd [] (raw @ [nl]) @ split_hd [] (renderEntry e)"
    using split_hd_append [of "raw @ [nl]" "[]"] render_start [of e] by (simp add: bol_def)
  then have "segments (raw @ nl # renderEntry e) =
      (butlast (split_hd [] raw) @ [last (split_hd [] raw) @ [nl]]) @ [renderEntry e]"
    by (simp add: segments_def render_segment split_hd_newline)
  then have "parseTensionLog (raw @ nl # renderEntry e) =
      List.map_filter parse_segment (split_hd [] raw) @ List.map_filter parse_segment [renderEntry e]"
    by (simp only: parseTensionLog_def map_filter_append [of _ "_ @ [_]"] map_filter_last [OF split_hd_nonempty])
  then show ?thesis
    by (simp add: parseTensionLog_def segments_def map_filter_simps entry_read_def split: option.split)
qed

section \<open>Reading a rendered entry back\<close>

text \<open>The field lines of an entry as labels with what follows the label's asterisks.\<close>

definition lab_line :: "string \<Rightarrow> string \<Rightarrow> string" where
  "lab_line l w = ''- **'' @ l @ '':**'' @ w"

definition val_pair :: "string \<Rightarrow> string \<Rightarrow> string \<times> string" where
  "val_pair l v = (l, CHR '' '' # oneLine v)"

definition opt_pair :: "string \<Rightarrow> string option \<Rightarrow> (string \<times> string) list" where
  "opt_pair l v = (case v of None \<Rightarrow> [] | Some x \<Rightarrow> [val_pair l x])"

definition full_pair :: "string \<Rightarrow> string option \<Rightarrow> (string \<times> string) list" where
  "full_pair l v = (case v of None \<Rightarrow> [] | Some x \<Rightarrow> if x = [] then [] else [val_pair l x])"

definition source_pair :: "string \<Rightarrow> string \<Rightarrow> string \<Rightarrow> string \<times> string" where
  "source_pair l p c = (l, CHR '' '' # oneLine p @ says @ oneLine c)"

definition resolution_pairs :: "tension_resolution \<Rightarrow> (string \<times> string) list" where
  "resolution_pairs r =
     [val_pair ''Resolved at'' (tr_at r), val_pair ''Resolved by'' (tr_by r),
      val_pair ''Resolution kind'' (resolution_name (tr_kind r))]
     @ full_pair ''Rationale'' (tr_rationale r)
     @ (case tr_references r of None \<Rightarrow> []
        | Some xs \<Rightarrow> if xs = [] then [] else [val_pair ''References'' (join_with '', '' xs)])"

definition tail_pairs :: "tension_entry \<Rightarrow> (string \<times> string) list" where
  "tail_pairs e =
     (if te_kind e = Unspecified then [] else [val_pair ''Kind'' (kind_name (te_kind e))])
     @ [source_pair ''Source A'' (te_sourceA e) (te_claimA e), source_pair ''Source B'' (te_sourceB e) (te_claimB e),
        val_pair ''Status'' (te_status e), val_pair ''Logged by'' (te_logged_by e)]
     @ opt_pair ''Position A'' (te_positionA e) @ opt_pair ''Position B'' (te_positionB e)
     @ opt_pair ''Reader A'' (te_readerA e) @ opt_pair ''Reader B'' (te_readerB e)
     @ full_pair ''Decided by principal'' (te_decided_by e)
     @ (case te_resolution e of None \<Rightarrow> [] | Some r \<Rightarrow> resolution_pairs r)"

definition entry_pairs :: "tension_entry \<Rightarrow> (string \<times> string) list" where
  "entry_pairs e = opt_pair ''Id'' (te_id e) @ tail_pairs e"

definition tail_labels :: "string list" where
  "tail_labels = [''Kind'', ''Source A'', ''Source B'', ''Status'', ''Logged by'', ''Position A'', ''Position B'',
     ''Reader A'', ''Reader B'', ''Decided by principal'', ''Resolved at'', ''Resolved by'', ''Resolution kind'',
     ''Rationale'', ''References'']"

lemma pair_lines:
  "case_prod lab_line (val_pair l v) = field l v"
  "map (case_prod lab_line) (opt_pair l x) = opt_field l x"
  "map (case_prod lab_line) (full_pair l x) = (case x of None \<Rightarrow> [] | Some y \<Rightarrow> if y = [] then [] else [field l y])"
  "case_prod lab_line (source_pair l p c) = source_field l p c"
  by (auto simp: val_pair_def lab_line_def field_def opt_pair_def opt_field_def full_pair_def source_pair_def
      source_field_def says_def split: option.split)

lemma resolution_lines: "map (case_prod lab_line) (resolution_pairs r) = renderResolution r"
  by (simp add: resolution_pairs_def renderResolution_def pair_lines split: option.split)

lemma entry_lines: "map (case_prod lab_line) (entry_pairs e) = entry_fields e"
  by (simp add: entry_pairs_def tail_pairs_def entry_fields_def pair_lines resolution_lines split: option.split)

lemma pair_facts:
  "snd (val_pair l v) = CHR '' '' # oneLine v" "fst (val_pair l v) = l"
  "fst ` set (opt_pair l x) \<subseteq> {l}" "fst ` set (full_pair l x) \<subseteq> {l}"
  "fst (source_pair l p c) = l"
  by (auto simp: val_pair_def opt_pair_def full_pair_def source_pair_def split: option.splits)

lemma pairs_plain: "(l, w) \<in> set (entry_pairs e) \<Longrightarrow> \<not> has_term w"
proof -
  have "\<not> has_term (oneLine p @ says @ oneLine c)" for p c
  proof -
    have "oneLine p @ says @ oneLine c = oneLine p @ CHR '' '' # (''says'' @ CHR '' '' # oneLine c)"
      by (simp add: says_def)
    then show ?thesis by (simp only: has_term_space) simp
  qed
  then show "(l, w) \<in> set (entry_pairs e) \<Longrightarrow> \<not> has_term w"
    by (auto simp: entry_pairs_def tail_pairs_def resolution_pairs_def val_pair_def opt_pair_def full_pair_def
        source_pair_def split: option.splits if_splits)
qed

lemma tail_pairs_labels: "fst ` set (tail_pairs e) \<subseteq> set tail_labels"
  by (auto simp: tail_pairs_def resolution_pairs_def val_pair_def opt_pair_def full_pair_def
      source_pair_def tail_labels_def split: option.splits if_splits)

definition plain_label :: "string \<Rightarrow> bool" where
  "plain_label l \<longleftrightarrow> l \<noteq> [] \<and> CHR '':'' \<notin> set l \<and> \<not> has_term l"

lemma labels_plain: "l = ''Id'' \<or> l \<in> set tail_labels \<Longrightarrow> plain_label l"
proof -
  have "list_all plain_label (''Id'' # tail_labels)"
    by (simp add: plain_label_def tail_labels_def)
  then show "l = ''Id'' \<or> l \<in> set tail_labels \<Longrightarrow> plain_label l" by (auto simp: list_all_iff)
qed

lemma pairs_labels:
  assumes "(l, w) \<in> set (entry_pairs e)"
  shows "plain_label l"
proof (rule labels_plain)
  have "l \<in> fst ` (set (opt_pair ''Id'' (te_id e)) \<union> set (tail_pairs e))"
    using assms unfolding entry_pairs_def set_append by (intro image_eqI [where x = "(l, w)"]) simp_all
  then show "l = ''Id'' \<or> l \<in> set tail_labels"
    using tail_pairs_labels [of e] pair_facts(3) [of "''Id''" "te_id e"] unfolding image_Un by blast
qed

lemma no_term_suffix: "\<not> has_term (p @ q) \<Longrightarrow> \<not> has_term q"
  by (induction p) (auto simp: has_term.simps(2))

lemma no_term_strip: "\<not> has_term w \<Longrightarrow> \<not> has_term (strip_all ws w)"
  using strip_all_suffix [of w ws] no_term_suffix by metis

lemma label_end_plain:
  assumes "plain_label l" "\<not> has_term w" "1 \<le> n" "n \<le> length l"
  shows "label_end n (l @ '':**'' @ w) = Some (l, strip_all js_spaces w)"
  using assms(3,4)
proof (induction "length l - n" arbitrary: n)
  case 0
  then have n: "n = length l" by simp
  have "take 3 (drop n (l @ '':**'' @ w)) = '':**''" "drop (n + 3) (l @ '':**'' @ w) = w" "take n (l @ '':**'' @ w) = l"
    by (simp_all add: n numeral_eq_Suc)
  moreover have "\<not> has_term l" using assms(1) by (simp add: plain_label_def)
  ultimately show ?case
    using no_term_strip [OF assms(2), of js_spaces] n by (subst label_end.simps) (simp add: Let_def)
next
  case (Suc k)
  then have n: "n < length l" by simp
  then have "drop n (l @ '':**'' @ w) = l ! n # drop (Suc n) l @ '':**'' @ w" by (simp add: Cons_nth_drop_Suc)
  moreover have "l ! n \<noteq> CHR '':''" using assms(1) n by (metis nth_mem plain_label_def)
  ultimately have "take 3 (drop n (l @ '':**'' @ w)) \<noteq> '':**''" by (simp add: numeral_eq_Suc)
  then have "label_end n (l @ '':**'' @ w) = label_end (Suc n) (l @ '':**'' @ w)"
    using n by (subst label_end.simps) (simp add: Let_def)
  also have "\<dots> = Some (l, strip_all js_spaces w)" using Suc n by simp
  finally show ?case .
qed

lemma match_lab:
  assumes "plain_label l" "\<not> has_term w"
  shows "match_field (lab_line l w) = Some (l, strip_all js_spaces w)"
proof -
  have star: "strip_one js_spaces (CHR ''*'' # s) = None" for s by (simp add: js_spaces_def)
  have "strip_all js_spaces (CHR ''*'' # s) = CHR ''*'' # s" for s by (rule strip_all_none [OF star])
  moreover have "label_end 1 (l @ '':**'' @ w) = Some (l, strip_all js_spaces w)"
    using assms by (intro label_end_plain) (auto simp: plain_label_def Suc_le_eq)
  ultimately show ?thesis by (simp add: match_field_def lab_line_def)
qed

text \<open>A character that no white space holds ends the trimming.\<close>

lemma strip_one_stop:
  assumes "\<forall>w \<in> set ws. c \<notin> set w"
  shows "strip_one ws (r @ c # z) = map_option (\<lambda>t. t @ c # z) (strip_one ws r)"
  using assms
proof (induction ws)
  case (Cons w ws)
  have iff: "take (length w) (r @ c # z) = w \<longleftrightarrow> take (length w) r = w \<and> length w \<le> length r"
  proof (cases "length w \<le> length r")
    case False
    then have "c \<in> set (take (length w) (r @ c # z))" by (simp add: take_Cons')
    then show ?thesis using Cons.prems False by (metis list.set_intros(1))
  qed simp
  have len: "take (length w) r = w \<Longrightarrow> length w \<le> length r"
    by (metis length_take min.cobounded1 min.commute)
  show ?case using Cons iff len by auto
qed simp

lemma strip_all_stop:
  "\<forall>w \<in> set ws. c \<notin> set w \<Longrightarrow> strip_all ws (r @ c # z) = strip_all ws r @ c # z"
proof (induction ws r rule: strip_all.induct)
  case (1 ws r)
  show ?case
  proof (cases "strip_one ws r")
    case None
    then show ?thesis using strip_one_stop [OF 1(2), of r z] by (simp add: strip_all_none)
  next
    case (Some t)
    then show ?thesis using strip_one_stop [OF 1(2), of r z] 1(1) [OF Some 1(2)]
      by (simp add: strip_all.simps [of ws "r @ c # z"] strip_all.simps [of ws r])
  qed
qed

lemma trim_end_star: "trim_end (x @ CHR ''*'' # w) = x @ CHR ''*'' # trim_end w"
proof -
  have "\<forall>w \<in> set (map rev js_spaces). CHR ''*'' \<notin> set w" by (simp add: js_spaces_def)
  from strip_all_stop [OF this, of "rev w" "rev x"] show ?thesis by (simp add: trim_end_def)
qed

lemma trim_end_lab: "trim_end (x @ lab_line l w) = x @ lab_line l (trim_end w)"
  using trim_end_star [of "x @ ''- **'' @ l @ '':*''" w] by (simp add: lab_line_def)

lemma no_term_prefix: "\<not> has_term (p @ q) \<Longrightarrow> \<not> has_term p"
proof (induction p)
  case (Cons c p)
  then show ?case using line_term_more [of "c # p" q] by (auto simp: has_term.simps(2))
qed simp

lemma no_term_trim_end: "\<not> has_term w \<Longrightarrow> \<not> has_term (trim_end w)"
  using trim_end_prefix [of w] no_term_prefix by metis

lemma join_snoc: "ls \<noteq> [] \<Longrightarrow> join_with sep (ls @ [l]) = join_with sep ls @ sep @ l"
  by (induction ls) (auto simp: join_with_Cons)

definition set_pair :: "block_acc \<Rightarrow> string \<times> string \<Rightarrow> block_acc" where
  "set_pair a lw = set_field (lower (fst lw)) (strip_all js_spaces (snd lw)) a"

lemma parse_pairs:
  assumes "\<forall>(l, w) \<in> set ps. plain_label l \<and> \<not> has_term w"
  shows "foldl parse_line a (map (case_prod lab_line) ps) = foldl set_pair a ps"
  using assms
proof (induction ps arbitrary: a)
  case (Cons p ps)
  then show ?case by (cases p) (simp add: parse_line_def match_lab set_pair_def)
qed simp

lemma trimmed_render:
  assumes "entry_pairs e = ps @ [(l, w)]"
  shows "js_trim (renderEntry e) =
    join_with [nl] (header_line e # map (case_prod lab_line) (ps @ [(l, trim_end w)]))"
proof -
  let ?h = "header_line e # map (case_prod lab_line) ps"
  have "strip_one js_spaces (CHR ''#'' # x) = None" for x by (simp add: js_spaces_def)
  then have "trim_start (renderEntry e) = renderEntry e"
    by (simp add: trim_start_def strip_all_id renderEntry_def header_line_def join_with_Cons)
  then have "js_trim (renderEntry e) = trim_end (join_with [nl] (?h @ [lab_line l w]))"
    using entry_lines [of e] assms by (simp add: js_trim_def renderEntry_def trim_end_nl)
  also have "\<dots> = join_with [nl] (?h @ [lab_line l (trim_end w)])"
    by (subst (1 2) join_snoc) (simp_all only: list.distinct append_assoc [symmetric] trim_end_lab not_False_eq_True)
  finally show ?thesis by simp
qed

lemma parse_rendered:
  assumes "entry_pairs e = ps @ [(l, w)]"
  shows "parse_segment (renderEntry e) =
    map_option (\<lambda>(d, t). finish_block (foldl set_pair (start_acc d t) (ps @ [(l, trim_end w)])))
      (match_header (drop_hashes (header_line e)))"
proof -
  let ?qs = "ps @ [(l, trim_end w)]"
  let ?lines = "header_line e # map (case_prod lab_line) ?qs"
  have pairs: "plain_label m \<and> \<not> has_term v" if "(m, v) \<in> set (ps @ [(l, w)])" for m v
    using pairs_labels [of m v e] pairs_plain [of m v e] that assms by simp
  then have plain: "\<forall>(m, v) \<in> set ?qs. plain_label m \<and> \<not> has_term v"
    using pairs [of l w] no_term_trim_end [of w] by auto
  have "nl \<notin> set (lab_line m v)" if "(m, v) \<in> set ?qs" for m v
    using plain that has_term_nl [of m] has_term_nl [of v] by (auto simp: lab_line_def plain_label_def)
  moreover have "nl \<notin> set (header_line e)" using has_term_nl [OF header_no_term] by blast
  ultimately have nls: "\<forall>x \<in> set ?lines. nl \<notin> set x" by auto
  have block: "js_trim (renderEntry e) = join_with [nl] ?lines" by (rule trimmed_render [OF assms])
  moreover have "take 3 (join_with [nl] ?lines) = ''## ''" by (simp add: join_with_Cons header_line_def)
  ultimately have "parse_segment (renderEntry e) = parseBlock (join_with [nl] ?lines)"
    by (simp only: parse_segment_def refl if_True)
  also have "split_on nl (join_with [nl] ?lines) = ?lines" by (rule split_join [OF _ nls]) simp
  then have "parseBlock (join_with [nl] ?lines) =
    map_option (\<lambda>(d, t). finish_block (foldl parse_line (start_acc d t) (map (case_prod lab_line) ?qs)))
      (match_header (drop_hashes (header_line e)))"
    by (simp only: parseBlock_def Let_def list.sel) (auto split: option.split)
  finally show ?thesis by (simp only: parse_pairs [OF plain])
qed

section \<open>The header\<close>

definition date_shape :: "string \<Rightarrow> bool" where
  "date_shape d \<longleftrightarrow> length d = 10 \<and> list_all is_digit (take 4 d) \<and> take 1 (drop 4 d) = ''-''
     \<and> list_all is_digit (take 2 (drop 5 d)) \<and> take 1 (drop 7 d) = ''-'' \<and> list_all is_digit (drop 8 d)"

lemma oneLine_prefix:
  "oneLine t = w @ r \<Longrightarrow> CHR '' '' \<notin> set w \<Longrightarrow> \<exists>u. t = w @ u \<and> oneLine u = r"
proof (induction w arbitrary: t)
  case (Cons x w)
  then obtain u where "t = x # u" "oneLine u = w @ r" using oneLine_head [of t x "w @ r"] by auto
  then show ?case using Cons by auto
qed simp

lemma space_words: "[] \<notin> set js_spaces" "[nl] \<in> set js_spaces" "[cr] \<in> set js_spaces"
  "[CHR 0xE2, CHR 0x80, CHR 0xA8] \<in> set js_spaces" "[CHR 0xE2, CHR 0x80, CHR 0xA9] \<in> set js_spaces"
  by (simp_all add: js_spaces_def)

lemma line_term_space_char: "strip_one js_spaces t = None \<Longrightarrow> line_term t = 0"
proof -
  assume "strip_one js_spaces t = None"
  then have "\<And>w. w \<in> set js_spaces \<Longrightarrow> take (length w) t \<noteq> w" using space_words(1) by (metis strip_one_None)
  from this [OF space_words(2)] this [OF space_words(3)] this [OF space_words(4)] this [OF space_words(5)]
  show ?thesis by (cases t) (auto simp: line_term_def numeral_eq_Suc)
qed

lemma oneLine_no_space:
  assumes "strip_one js_spaces t = None" "t \<noteq> []"
  shows "strip_one js_spaces (oneLine t) = None"
proof -
  have zero: "line_term t = 0" by (rule line_term_space_char [OF assms(1)])
  have "take (length w) (oneLine t) \<noteq> w" if w: "w \<in> set js_spaces" for w
  proof
    assume pre: "take (length w) (oneLine t) = w"
    then obtain r where r: "oneLine t = w @ r" by (metis append_take_drop_id)
    have no: "take (length w) t \<noteq> w"
      using assms(1) w space_words(1) unfolding strip_one_None by metis
    show False
    proof (cases "w = '' ''")
      case True
      then have "hd (oneLine t) = CHR '' ''" using r by simp
      moreover have "oneLine t = hd t # oneLine (tl t)" using zero assms(2) by (subst oneLine.simps) simp
      ultimately have "hd t = CHR '' ''" by simp
      then show False using no True assms(2) by (cases t) auto
    next
      case False
      then have "CHR '' '' \<notin> set w" using w by (auto simp: js_spaces_def)
      from oneLine_prefix [OF r this] no show False by auto
    qed
  qed
  then show ?thesis by (auto simp: strip_one_None)
qed

lemma digit_plain: "is_digit c \<Longrightarrow> c \<noteq> nl \<and> c \<noteq> cr \<and> c \<noteq> CHR 0xE2"
  by (auto simp: is_digit_def)

lemma strip_one_digit: "is_digit c \<Longrightarrow> strip_one js_spaces (c # s) = None"
proof -
  assume c: "is_digit c"
  have "list_all (\<lambda>w. w \<noteq> [] \<and> \<not> is_digit (hd w)) js_spaces" by code_simp
  then have "w = [] \<or> take (length w) (c # s) \<noteq> w" if "w \<in> set js_spaces" for w
    using that c by (cases w) (auto simp: list_all_iff)
  then show ?thesis by (auto simp: strip_one_None)
qed

lemma no_term_ascii: "\<forall>c \<in> set s. c \<noteq> nl \<and> c \<noteq> cr \<and> c \<noteq> CHR 0xE2 \<Longrightarrow> \<not> has_term s"
  by (induction s) auto

lemma date_shape_plain:
  assumes "date_shape d"
  shows "\<not> has_term d" "strip_one js_spaces (d @ s) = None" "length d = 10"
proof -
  have "d = take 4 d @ drop 4 d" "drop 4 d = take 1 (drop 4 d) @ drop 5 d"
    "drop 5 d = take 2 (drop 5 d) @ drop 7 d" "drop 7 d = take 1 (drop 7 d) @ drop 8 d"
    using append_take_drop_id [of 4 d] append_take_drop_id [of 1 "drop 4 d"]
      append_take_drop_id [of 2 "drop 5 d"] append_take_drop_id [of 1 "drop 7 d"] by simp_all
  then have d: "d = take 4 d @ take 1 (drop 4 d) @ take 2 (drop 5 d) @ take 1 (drop 7 d) @ drop 8 d" by metis
  have "is_digit c \<or> c = CHR ''-''" if "c \<in> set d" for c
  proof -
    have "c \<in> set (take 4 d @ take 1 (drop 4 d) @ take 2 (drop 5 d) @ take 1 (drop 7 d) @ drop 8 d)"
      using that d by metis
    then show ?thesis using assms unfolding date_shape_def list_all_iff by auto
  qed
  then show "\<not> has_term d" using digit_plain by (intro no_term_ascii) auto
  show len: "length d = 10" using assms by (simp add: date_shape_def)
  obtain c y where cy: "d = c # y" using len by (cases d) auto
  then have "is_digit c" using assms by (simp add: date_shape_def)
  then show "strip_one js_spaces (d @ s) = None" using strip_one_digit cy by simp
qed

lemma match_header_render:
  assumes "date_shape (te_date e)" "strip_all js_spaces (te_title e) = te_title e" "te_title e \<noteq> []"
  shows "match_header (drop_hashes (header_line e)) = Some (te_date e, js_trim (oneLine (te_title e)))"
proof -
  let ?d = "te_date e" and ?t = "oneLine (te_title e)"
  have one: "oneLine ?d = ?d" by (rule oneLine_id [OF date_shape_plain(1) [OF assms(1)]])
  have stop: "strip_all js_spaces (?d @ s) = ?d @ s" for s
    by (rule strip_all_none [OF date_shape_plain(2) [OF assms(1)]])
  have hashes: "drop_hashes (header_line e) = ?d @ '' '' @ em_dash @ '' '' @ ?t"
    by (simp add: drop_hashes_def header_line_def one stop)
  have dash: "strip_all js_spaces (em_dash @ s) = em_dash @ s" for s
    by (rule strip_all_none) (simp add: em_dash_def js_spaces_def)
  have "strip_one js_spaces (te_title e) = None" using assms(2) strip_all_id by metis
  then have "strip_one js_spaces ?t = None" by (rule oneLine_no_space [OF _ assms(3)])
  then have t: "strip_all js_spaces ?t = ?t" by (rule strip_all_none)
  have "?t \<noteq> []" using assms(3) by (subst oneLine.simps) simp
  then have "match_title ('' '' @ ?t) = Some (js_trim ?t)" using t by (simp add: match_title_def)
  moreover have "take 3 (em_dash @ s) = em_dash" "drop 3 (em_dash @ s) = s" for s
    by (simp_all add: em_dash_def numeral_eq_Suc)
  moreover have "take 10 (?d @ s) = ?d" "drop 10 (?d @ s) = s" for s
    using date_shape_plain(3) [OF assms(1)] by simp_all
  ultimately show ?thesis
    using assms(1) unfolding hashes match_header_def date_shape_def by (simp add: Let_def dash)
qed

section \<open>What survives of any entry\<close>

lemma lower_labels:
  "lower ''Id'' = ''id''" "lower ''Kind'' = ''kind''" "lower ''Source A'' = ''source a''"
  "lower ''Source B'' = ''source b''" "lower ''Status'' = ''status''" "lower ''Logged by'' = ''logged by''"
  "lower ''Position A'' = ''position a''" "lower ''Position B'' = ''position b''"
  "lower ''Reader A'' = ''reader a''" "lower ''Reader B'' = ''reader b''"
  "lower ''Decided by principal'' = ''decided by principal''" "lower ''Resolved at'' = ''resolved at''"
  "lower ''Resolved by'' = ''resolved by''" "lower ''Resolution kind'' = ''resolution kind''"
  "lower ''Rationale'' = ''rationale''" "lower ''References'' = ''references''"
  by code_simp+

lemma tail_not_id: "l \<in> set tail_labels \<Longrightarrow> lower l \<noteq> ''id''"
proof -
  have "list_all (\<lambda>l. lower l \<noteq> ''id'') tail_labels" by code_simp
  then show "l \<in> set tail_labels \<Longrightarrow> lower l \<noteq> ''id''" by (simp add: list_all_iff)
qed

lemma set_field_keeps:
  "l \<noteq> ''id'' \<Longrightarrow> te_id (ba_entry (set_field l v a)) = te_id (ba_entry a)"
  "te_date (ba_entry (set_field l v a)) = te_date (ba_entry a)"
  "te_title (ba_entry (set_field l v a)) = te_title (ba_entry a)"
  by (simp_all add: set_field_def Let_def split: option.split prod.split)

lemma finish_keeps:
  "te_id (finish_block a) = te_id (ba_entry a)" "te_title (finish_block a) = te_title (ba_entry a)"
  "te_date (finish_block a) = te_date (ba_entry a)"
  by (simp_all add: finish_block_def split: option.split)

lemma fold_keeps:
  assumes "fst ` set ps \<subseteq> set tail_labels"
  shows "te_id (ba_entry (foldl set_pair a ps)) = te_id (ba_entry a)
    \<and> te_title (ba_entry (foldl set_pair a ps)) = te_title (ba_entry a)
    \<and> te_date (ba_entry (foldl set_pair a ps)) = te_date (ba_entry a)"
  using assms
proof (induction ps arbitrary: a)
  case (Cons p ps)
  then have "lower (fst p) \<noteq> ''id''" by (intro tail_not_id) auto
  then show ?case using Cons by (simp add: set_pair_def set_field_keeps)
qed simp

lemma js_trim_start [simp]: "js_trim (strip_all js_spaces s) = js_trim s" "js_trim (CHR '' '' # s) = js_trim s"
  by (simp_all add: js_trim_def trim_start_def)

definition good_title :: "tension_entry \<Rightarrow> bool" where
  "good_title e \<longleftrightarrow> date_shape (te_date e) \<and> js_trim (te_title e) = te_title e \<and> te_title e \<noteq> []"

lemma good_title_header:
  "good_title e \<Longrightarrow> match_header (drop_hashes (header_line e)) = Some (te_date e, js_trim (oneLine (te_title e)))"
  using js_trim_id [of "te_title e"] strip_all_id [of js_spaces "te_title e"]
  by (intro match_header_render) (auto simp: good_title_def)

lemma entry_readable:
  assumes "good_title e"
  shows "\<exists>x. entry_read e = [x] \<and> te_id x = map_option (\<lambda>i. js_trim (oneLine i)) (te_id e)
    \<and> te_title x = js_trim (oneLine (te_title e)) \<and> te_date x = te_date e"
proof -
  obtain qs l w where tail: "tail_pairs e = qs @ [(l, w)]"
    by (cases "tail_pairs e" rule: rev_cases) (auto simp: tail_pairs_def)
  let ?t = "js_trim (oneLine (te_title e))"
  let ?a = "foldl set_pair (start_acc (te_date e) ?t) (opt_pair ''Id'' (te_id e))"
  let ?b = "foldl set_pair ?a (qs @ [(l, trim_end w)])"
  have "entry_pairs e = (opt_pair ''Id'' (te_id e) @ qs) @ [(l, w)]" by (simp add: entry_pairs_def tail)
  from parse_rendered [OF this] have "parse_segment (renderEntry e) = Some (finish_block ?b)"
    by (simp add: good_title_header [OF assms])
  then have read: "entry_read e = [finish_block ?b]" by (simp add: entry_read_def)
  have "fst ` set (qs @ [(l, trim_end w)]) \<subseteq> set tail_labels"
    using tail_pairs_labels [of e] by (simp add: tail)
  note kept = fold_keeps [OF this, of ?a]
  have "te_id (ba_entry ?a) = map_option (\<lambda>i. js_trim (oneLine i)) (te_id e)"
    "te_title (ba_entry ?a) = ?t" "te_date (ba_entry ?a) = te_date e"
    by (cases "te_id e"; simp add: opt_pair_def val_pair_def set_pair_def lower_labels set_field_def start_acc_def
        new_entry_def)+
  then show ?thesis using read kept by (simp add: finish_keeps)
qed

text \<open>
  C16: the log cannot be forged through a value. Whatever text the fields of an entry hold (line breaks, field lines,
  headings), appending it leaves every entry already in the log as it was read before and adds exactly
  one entry, with the id, the date and the (one-line) title it was given.
\<close>

theorem appended_entry_isolated:
  assumes "good_title e"
  shows "\<exists>x. parseTensionLog (raw @ nl # renderEntry e) = parseTensionLog raw @ [x]
    \<and> te_id x = map_option (\<lambda>i. js_trim (oneLine i)) (te_id e)
    \<and> te_title x = js_trim (oneLine (te_title e)) \<and> te_date x = te_date e"
  using entry_readable [OF assms] append_parse [of raw e] by auto

definition hostile_entry :: tension_entry where
  "hostile_entry = (new_entry ''2024-05-01'' ''a title'')\<lparr>te_id := Some ''tension-007'',
     te_claimA := ''x'' @ [nl] @ ''- **Id:** tension-001'' @ [nl] @ ''## 2024-05-02'', te_sourceA := ''a.md''\<rparr>"

lemma hostile_good: "good_title hostile_entry"
  by (simp add: good_title_def hostile_entry_def new_entry_def date_shape_def is_digit_def js_trim_id js_spaces_def)

theorem appended_entry_isolated_witness:
  "\<exists>x. parseTensionLog (''# log'' @ nl # renderEntry hostile_entry) = parseTensionLog ''# log'' @ [x]
    \<and> te_id x = Some (js_trim (oneLine ''tension-007''))"
  using appended_entry_isolated [OF hostile_good, of "''# log''"] by (auto simp: hostile_entry_def)

section \<open>Well-formed entries read back as themselves\<close>

definition wf_text :: "string \<Rightarrow> bool" where
  "wf_text v \<longleftrightarrow> js_trim v = v \<and> \<not> has_term v"

definition wf_path :: "string \<Rightarrow> bool" where
  "wf_path p \<longleftrightarrow> p \<noteq> [] \<and> wf_text p \<and> find_sub says (p @ says) = Some (length p)"

definition wf_references :: "string list \<Rightarrow> bool" where
  "wf_references xs \<longleftrightarrow> xs \<noteq> [] \<and> wf_text (join_with '', '' xs)
     \<and> list_all (\<lambda>x. x \<noteq> [] \<and> js_trim x = x \<and> CHR '','' \<notin> set x) xs"

definition wf_resolution :: "tension_resolution \<Rightarrow> bool" where
  "wf_resolution r \<longleftrightarrow> wf_text (tr_at r) \<and> wf_text (tr_by r)
     \<and> pred_option (\<lambda>x. x \<noteq> [] \<and> wf_text x) (tr_rationale r) \<and> pred_option wf_references (tr_references r)"

definition wf_entry :: "tension_entry \<Rightarrow> bool" where
  "wf_entry e \<longleftrightarrow> good_title e \<and> wf_text (te_title e) \<and> pred_option wf_text (te_id e)
     \<and> wf_path (te_sourceA e) \<and> wf_text (te_claimA e) \<and> wf_path (te_sourceB e) \<and> wf_text (te_claimB e)
     \<and> wf_text (te_status e) \<and> wf_text (te_logged_by e)
     \<and> pred_option wf_text (te_positionA e) \<and> pred_option wf_text (te_positionB e)
     \<and> pred_option wf_text (te_readerA e) \<and> pred_option wf_text (te_readerB e)
     \<and> pred_option (\<lambda>x. x \<noteq> [] \<and> wf_text x) (te_decided_by e)
     \<and> pred_option wf_resolution (te_resolution e) \<and> te_resolved e = (te_resolution e \<noteq> None)"

lemma wf_text_facts:
  assumes "wf_text v"
  shows "oneLine v = v" "js_trim v = v" "strip_all js_spaces v = v"
  using assms js_trim_id [of v] strip_all_id [of js_spaces v] by (auto simp: wf_text_def oneLine_id)

lemma oneLine_Nil [simp]: "oneLine [] = []"
  by (simp add: oneLine.simps)

lemma set_val_pair: "wf_text v \<Longrightarrow> set_pair a (val_pair l v) = set_field (lower l) v a"
  by (simp add: set_pair_def val_pair_def wf_text_facts)

lemma trim_end_value:
  assumes "js_trim v = v" "v \<noteq> []"
  shows "trim_end (CHR '' '' # v) = CHR '' '' # v"
proof -
  have none: "strip_one (map rev js_spaces) (rev v) = None" using assms(1) js_trim_id by blast
  have single: "list_all (\<lambda>w. length w \<le> 1 \<or> CHR '' '' \<notin> set w) (map rev js_spaces)" by code_simp
  have "w = [] \<or> take (length w) (rev v @ '' '') \<noteq> w" if w: "w \<in> set (map rev js_spaces)" for w
  proof (cases "length w \<le> length v")
    case True
    then show ?thesis using none w by (auto simp: strip_one_None simp del: set_map)
  next
    case False
    then have "1 < length w" using assms(2) by (cases v) auto
    then have "CHR '' '' \<notin> set w" using single w by (auto simp: list_all_iff simp del: set_map)
    moreover have "CHR '' '' \<in> set (take (length w) (rev v @ '' ''))" using False by simp
    ultimately show ?thesis by metis
  qed
  then have "strip_one (map rev js_spaces) (rev v @ '' '') = None" by (auto simp: strip_one_None)
  then show ?thesis by (simp add: trim_end_def strip_all_none)
qed

lemma set_last_pair:
  assumes "wf_text v"
  shows "set_pair a (l, trim_end (CHR '' '' # oneLine v)) = set_pair a (val_pair l v)"
proof (cases "v = []")
  case True
  have "trim_end '' '' = []" by (simp add: trim_end_def strip_all.simps [of _ "'' ''"] js_spaces_def strip_all_none)
  moreover have "strip_all js_spaces '' '' = []" by (simp add: strip_all_none)
  ultimately show ?thesis using True by (simp add: set_pair_def val_pair_def wf_text_facts assms strip_all_none)
next
  case False
  then show ?thesis
    using trim_end_value [OF wf_text_facts(2) [OF assms] False] by (simp add: set_pair_def val_pair_def wf_text_facts assms)
qed

lemma find_sub_length: "find_sub pat s = Some n \<Longrightarrow> n + length pat \<le> length s"
proof (induction s arbitrary: n)
  case Nil
  then show ?case by (simp add: find_sub.simps [of pat "[]"] split: if_splits)
next
  case (Cons c s)
  show ?case
  proof (cases "take (length pat) (c # s) = pat")
    case True
    then have "length pat \<le> length (c # s)" by (metis length_take min.cobounded1)
    then show ?thesis using True Cons.prems by (simp add: find_sub.simps [of pat "c # s"])
  next
    case False
    then show ?thesis using Cons by (auto simp: find_sub.simps [of pat "c # s"])
  qed
qed

lemma find_sub_more: "find_sub pat s = Some n \<Longrightarrow> find_sub pat (s @ t) = Some n"
proof (induction s arbitrary: n)
  case Nil
  then show ?case by (simp add: find_sub.simps [of pat "[]"] find_sub.simps [of pat t] split: if_splits)
next
  case (Cons c s)
  have "length pat \<le> length (c # s)" using find_sub_length [OF Cons.prems] by simp
  then have "take (length pat) ((c # s) @ t) = take (length pat) (c # s)" by (simp only: take_append) simp
  then show ?case
    using Cons by (auto simp: find_sub.simps [of pat "c # s"] find_sub.simps [of pat "c # s @ t"] split: if_splits)
qed

lemma source_read:
  assumes "wf_path p" "wf_text c"
  shows "parseSourceLine (strip_all js_spaces (CHR '' '' # oneLine p @ says @ oneLine c)) = (p, c)"
proof -
  have p: "p \<noteq> []" "strip_one js_spaces p = None" "find_sub says (p @ says) = Some (length p)"
    using assms(1) js_trim_id [of p] by (auto simp: wf_path_def wf_text_def)
  have single: "list_all (\<lambda>w. length w \<le> 1 \<or> CHR '' '' \<notin> set w) js_spaces" by code_simp
  have "w = [] \<or> take (length w) (p @ says @ c) \<noteq> w" if w: "w \<in> set js_spaces" for w
  proof (cases "length w \<le> length p")
    case True
    then show ?thesis using p(2) w by (auto simp: strip_one_None)
  next
    case False
    then have "1 < length w" using p(1) by (cases p) auto
    then have "CHR '' '' \<notin> set w" using single w by (auto simp: list_all_iff)
    moreover have "CHR '' '' \<in> set (take (length w) (p @ says @ c))"
      using False by (simp add: says_def take_Cons')
    ultimately show ?thesis by metis
  qed
  then have "strip_all js_spaces (p @ says @ c) = p @ says @ c"
    by (intro strip_all_none) (auto simp: strip_one_None)
  moreover have "oneLine p = p" "oneLine c = c" "js_trim p = p" "js_trim c = c"
    using assms by (auto simp: wf_path_def wf_text_facts)
  moreover have "find_sub says (p @ says @ c) = Some (length p)" using find_sub_more [OF p(3), of c] by simp
  ultimately show ?thesis by (simp add: parseSourceLine_def)
qed

lemma references_read:
  assumes "wf_references xs"
  shows "parseReferences (join_with '', '' xs) = xs"
proof -
  have "split_on (CHR '','') (join_with '', '' (x # ys)) = x # map (Cons (CHR '' '')) ys"
    if "\<forall>y \<in> set (x # ys). CHR '','' \<notin> set y" for x ys
    using that
  proof (induction ys arbitrary: x)
    case Nil
    then show ?case by (simp add: split_on_plain)
  next
    case (Cons y ys)
    have "split_on (CHR '','') (CHR '' '' # s) = (CHR '' '' # hd (split_on (CHR '','') s)) # tl (split_on (CHR '','') s)" for s
      using split_on_nonempty [of "CHR '',''" s] by (auto split: list.split simp del: split_on_nonempty)
    then show ?case using Cons by (simp add: split_on_append)
  qed
  moreover obtain x ys where xs: "xs = x # ys" using assms by (cases xs) (auto simp: wf_references_def)
  moreover have all: "\<forall>y \<in> set xs. y \<noteq> [] \<and> js_trim y = y \<and> CHR '','' \<notin> set y"
    using assms by (auto simp: wf_references_def list_all_iff)
  ultimately have "parseReferences (join_with '', '' xs) = filter (\<lambda>s. s \<noteq> []) (map js_trim (x # map (Cons (CHR '' '')) ys))"
    by (simp add: parseReferences_def)
  also have "map js_trim (x # map (Cons (CHR '' '')) ys) = map js_trim xs" by (simp add: xs)
  also have "\<dots> = xs" using all by (intro map_idI) blast
  also have "filter (\<lambda>s. s \<noteq> []) xs = xs" using all by (intro filter_True) blast
  finally show ?thesis .
qed

text \<open>Each group of fields writes its own part of the accumulator.\<close>

lemma kind_read: "by_name kind_name TENSION_KINDS (kind_name k) = Some k"
  by (cases k) (simp_all add: by_name_def TENSION_KINDS_def kind_name_def)

lemma resolution_kind_read: "by_name resolution_name RESOLUTION_KINDS (resolution_name k) = Some k"
  by (cases k) (simp_all add: by_name_def RESOLUTION_KINDS_def resolution_name_def)

lemma name_text: "wf_text (kind_name k)" "wf_text (resolution_name r)"
  by (cases k; simp add: wf_text_def kind_name_def js_trim_id js_spaces_def)
    (cases r; simp add: wf_text_def resolution_name_def js_trim_id js_spaces_def)

lemma keep_entry: "a\<lparr>ba_entry := ba_entry a\<rparr> = a"
  by simp

lemma fold_options:
  assumes "pred_option wf_text x"
  shows "te_id (ba_entry a) = None \<Longrightarrow> foldl set_pair a (opt_pair ''Id'' x) = a\<lparr>ba_entry := (ba_entry a)\<lparr>te_id := x\<rparr>\<rparr>"
    and "te_positionA (ba_entry a) = None \<Longrightarrow>
      foldl set_pair a (opt_pair ''Position A'' x) = a\<lparr>ba_entry := (ba_entry a)\<lparr>te_positionA := x\<rparr>\<rparr>"
    and "te_positionB (ba_entry a) = None \<Longrightarrow>
      foldl set_pair a (opt_pair ''Position B'' x) = a\<lparr>ba_entry := (ba_entry a)\<lparr>te_positionB := x\<rparr>\<rparr>"
    and "te_readerA (ba_entry a) = None \<Longrightarrow>
      foldl set_pair a (opt_pair ''Reader A'' x) = a\<lparr>ba_entry := (ba_entry a)\<lparr>te_readerA := x\<rparr>\<rparr>"
    and "te_readerB (ba_entry a) = None \<Longrightarrow>
      foldl set_pair a (opt_pair ''Reader B'' x) = a\<lparr>ba_entry := (ba_entry a)\<lparr>te_readerB := x\<rparr>\<rparr>"
proof -
  have same: "te_id e = None \<Longrightarrow> e\<lparr>te_id := None\<rparr> = e" "te_positionA e = None \<Longrightarrow> e\<lparr>te_positionA := None\<rparr> = e"
    "te_positionB e = None \<Longrightarrow> e\<lparr>te_positionB := None\<rparr> = e" "te_readerA e = None \<Longrightarrow> e\<lparr>te_readerA := None\<rparr> = e"
    "te_readerB e = None \<Longrightarrow> e\<lparr>te_readerB := None\<rparr> = e" for e :: tension_entry
    by (cases e; simp)+
  show "te_id (ba_entry a) = None \<Longrightarrow> foldl set_pair a (opt_pair ''Id'' x) = a\<lparr>ba_entry := (ba_entry a)\<lparr>te_id := x\<rparr>\<rparr>"
    using assms
    by (cases x) (simp_all add: opt_pair_def set_val_pair lower_labels set_field_def wf_text_facts same keep_entry)
  show "te_positionA (ba_entry a) = None \<Longrightarrow>
      foldl set_pair a (opt_pair ''Position A'' x) = a\<lparr>ba_entry := (ba_entry a)\<lparr>te_positionA := x\<rparr>\<rparr>"
    using assms
    by (cases x) (simp_all add: opt_pair_def set_val_pair lower_labels set_field_def wf_text_facts same keep_entry)
  show "te_positionB (ba_entry a) = None \<Longrightarrow>
      foldl set_pair a (opt_pair ''Position B'' x) = a\<lparr>ba_entry := (ba_entry a)\<lparr>te_positionB := x\<rparr>\<rparr>"
    using assms
    by (cases x) (simp_all add: opt_pair_def set_val_pair lower_labels set_field_def wf_text_facts same keep_entry)
  show "te_readerA (ba_entry a) = None \<Longrightarrow>
      foldl set_pair a (opt_pair ''Reader A'' x) = a\<lparr>ba_entry := (ba_entry a)\<lparr>te_readerA := x\<rparr>\<rparr>"
    using assms
    by (cases x) (simp_all add: opt_pair_def set_val_pair lower_labels set_field_def wf_text_facts same keep_entry)
  show "te_readerB (ba_entry a) = None \<Longrightarrow>
      foldl set_pair a (opt_pair ''Reader B'' x) = a\<lparr>ba_entry := (ba_entry a)\<lparr>te_readerB := x\<rparr>\<rparr>"
    using assms
    by (cases x) (simp_all add: opt_pair_def set_val_pair lower_labels set_field_def wf_text_facts same keep_entry)
qed

lemma fold_kind:
  "te_kind (ba_entry a) = Unspecified \<Longrightarrow>
   foldl set_pair a (if k = Unspecified then [] else [val_pair ''Kind'' (kind_name k)])
     = a\<lparr>ba_entry := (ba_entry a)\<lparr>te_kind := k\<rparr>\<rparr>"
proof -
  have "te_kind e = Unspecified \<Longrightarrow> e\<lparr>te_kind := Unspecified\<rparr> = e" for e :: tension_entry by (cases e) simp
  then show "te_kind (ba_entry a) = Unspecified \<Longrightarrow> ?thesis"
    using name_text(1) [of k]
    by (simp add: set_val_pair lower_labels set_field_def wf_text_facts kind_read)
qed

lemma set_source:
  assumes "wf_path p" "wf_text c"
  shows "set_pair a (source_pair ''Source A'' p c) = a\<lparr>ba_entry := (ba_entry a)\<lparr>te_sourceA := p, te_claimA := c\<rparr>\<rparr>"
    and "set_pair a (source_pair ''Source B'' p c) = a\<lparr>ba_entry := (ba_entry a)\<lparr>te_sourceB := p, te_claimB := c\<rparr>\<rparr>"
  using source_read [OF assms]
  by (simp_all add: set_pair_def source_pair_def lower_labels set_field_def del: strip_space)

lemma fold_sources:
  assumes "wf_path p" "wf_text c" "wf_path p'" "wf_text c'" "wf_text st" "wf_text lb"
  shows "foldl set_pair a [source_pair ''Source A'' p c, source_pair ''Source B'' p' c', val_pair ''Status'' st,
      val_pair ''Logged by'' lb] = a\<lparr>ba_entry := (ba_entry a)\<lparr>te_sourceA := p, te_claimA := c, te_sourceB := p',
      te_claimB := c', te_status := st, te_logged_by := lb\<rparr>\<rparr>"
  using assms by (simp add: set_source set_val_pair lower_labels set_field_def wf_text_facts)

lemma fold_decided:
  "te_decided_by (ba_entry a) = None \<Longrightarrow> pred_option (\<lambda>x. x \<noteq> [] \<and> wf_text x) d \<Longrightarrow>
   foldl set_pair a (full_pair ''Decided by principal'' d) = a\<lparr>ba_entry := (ba_entry a)\<lparr>te_decided_by := d\<rparr>\<rparr>"
proof -
  have "te_decided_by e = None \<Longrightarrow> e\<lparr>te_decided_by := None\<rparr> = e" for e :: tension_entry by (cases e) simp
  then show "te_decided_by (ba_entry a) = None \<Longrightarrow> pred_option (\<lambda>x. x \<noteq> [] \<and> wf_text x) d \<Longrightarrow> ?thesis"
    by (cases d) (simp_all add: full_pair_def set_val_pair lower_labels set_field_def wf_text_facts)
qed

definition with_resolution :: "block_acc \<Rightarrow> tension_resolution option \<Rightarrow> block_acc" where
  "with_resolution a r = (case r of None \<Rightarrow> a
     | Some x \<Rightarrow> a\<lparr>ba_at := Some (tr_at x), ba_by := Some (tr_by x), ba_kind := Some (tr_kind x),
         ba_rationale := tr_rationale x, ba_references := tr_references x\<rparr>)"

lemma fold_resolution:
  assumes "wf_resolution r" "ba_rationale a = None" "ba_references a = None"
  shows "foldl set_pair a (resolution_pairs r) = with_resolution a (Some r)"
proof -
  have same: "ba_rationale b = None \<Longrightarrow> b\<lparr>ba_rationale := None\<rparr> = b" "ba_references b = None \<Longrightarrow> b\<lparr>ba_references := None\<rparr> = b"
    for b by (cases b; simp)+
  have wf: "wf_text (tr_at r)" "wf_text (tr_by r)" "pred_option (\<lambda>x. x \<noteq> [] \<and> wf_text x) (tr_rationale r)"
    "pred_option wf_references (tr_references r)" using assms(1) by (simp_all add: wf_resolution_def)
  have rat: "foldl set_pair b (full_pair ''Rationale'' (tr_rationale r)) = b\<lparr>ba_rationale := tr_rationale r\<rparr>"
    if "ba_rationale b = None" for b
    using wf(3) that by (cases "tr_rationale r")
      (simp_all add: full_pair_def set_val_pair lower_labels set_field_def wf_text_facts same)
  have refs: "foldl set_pair b (case tr_references r of None \<Rightarrow> []
      | Some xs \<Rightarrow> if xs = [] then [] else [val_pair ''References'' (join_with '', '' xs)]) = b\<lparr>ba_references := tr_references r\<rparr>"
    if "ba_references b = None" for b
  proof (cases "tr_references r")
    case (Some xs)
    then have "wf_references xs" using wf(4) by simp
    then have "xs \<noteq> []" "wf_text (join_with '', '' xs)" "parseReferences (join_with '', '' xs) = xs"
      using references_read by (auto simp: wf_references_def)
    then show ?thesis using Some by (simp add: set_val_pair lower_labels set_field_def)
  qed (simp add: same that)
  show ?thesis
    using wf(1,2) assms(2,3) name_text(2) [of "tr_kind r"]
    by (simp add: resolution_pairs_def rat refs set_val_pair lower_labels set_field_def wf_text_facts
        resolution_kind_read with_resolution_def)
qed

lemma fold_entry:
  assumes "wf_entry e"
  shows "finish_block (foldl set_pair (start_acc (te_date e) (te_title e)) (entry_pairs e)) = e"
proof -
  have wf: "pred_option wf_text (te_id e)" "wf_path (te_sourceA e)" "wf_text (te_claimA e)" "wf_path (te_sourceB e)"
    "wf_text (te_claimB e)" "wf_text (te_status e)" "wf_text (te_logged_by e)" "pred_option wf_text (te_positionA e)"
    "pred_option wf_text (te_positionB e)" "pred_option wf_text (te_readerA e)" "pred_option wf_text (te_readerB e)"
    "pred_option (\<lambda>x. x \<noteq> [] \<and> wf_text x) (te_decided_by e)" "pred_option wf_resolution (te_resolution e)"
    "te_resolved e = (te_resolution e \<noteq> None)"
    using assms by (simp_all add: wf_entry_def)
  note folds = fold_options(1) [OF wf(1)] fold_options(2) [OF wf(8)] fold_options(3) [OF wf(9)]
    fold_options(4) [OF wf(10)] fold_options(5) [OF wf(11)] fold_kind fold_decided [OF _ wf(12)]
    fold_sources [OF wf(2-7), simplified foldl_Cons foldl_Nil]
  have res: "foldl set_pair a (case te_resolution e of None \<Rightarrow> [] | Some r \<Rightarrow> resolution_pairs r) =
      with_resolution a (te_resolution e)" if "ba_rationale a = None" "ba_references a = None" for a
    using that wf(13) fold_resolution by (cases "te_resolution e") (simp_all add: with_resolution_def)
  have shape: "foldl set_pair (start_acc (te_date e) (te_title e)) (entry_pairs e) =
    with_resolution ((start_acc (te_date e) (te_title e))\<lparr>ba_entry := e\<lparr>te_resolution := None, te_resolved := False\<rparr>\<rparr>)
      (te_resolution e)"
  proof -
    have "foldl set_pair (start_acc (te_date e) (te_title e)) (entry_pairs e) = with_resolution
      (start_acc (te_date e) (te_title e)\<lparr>ba_entry := (new_entry (te_date e) (te_title e))\<lparr>te_id := te_id e, te_kind := te_kind e,
        te_sourceA := te_sourceA e, te_claimA := te_claimA e, te_sourceB := te_sourceB e, te_claimB := te_claimB e,
        te_status := te_status e, te_logged_by := te_logged_by e, te_positionA := te_positionA e,
        te_positionB := te_positionB e, te_readerA := te_readerA e, te_readerB := te_readerB e,
        te_decided_by := te_decided_by e\<rparr>\<rparr>) (te_resolution e)"
      by (simp only: entry_pairs_def tail_pairs_def foldl_append foldl_Cons foldl_Nil folds res start_acc_def new_entry_def
          block_acc.simps tension_entry.simps)
    also have "(new_entry (te_date e) (te_title e))\<lparr>te_id := te_id e, te_kind := te_kind e,
        te_sourceA := te_sourceA e, te_claimA := te_claimA e, te_sourceB := te_sourceB e, te_claimB := te_claimB e,
        te_status := te_status e, te_logged_by := te_logged_by e, te_positionA := te_positionA e,
        te_positionB := te_positionB e, te_readerA := te_readerA e, te_readerB := te_readerB e,
        te_decided_by := te_decided_by e\<rparr> = e\<lparr>te_resolution := None, te_resolved := False\<rparr>"
      by (cases e) (simp add: new_entry_def)
    finally show ?thesis .
  qed
  show ?thesis
  proof (cases "te_resolution e")
    case None
    then show ?thesis
      unfolding shape using wf(14) by (cases e) (simp add: with_resolution_def finish_block_def start_acc_def)
  next
    case (Some r)
    then have r: "wf_resolution r" using wf(13) by simp
    have opt: "(case tr_rationale r of Some x \<Rightarrow> if x = [] then None else Some x | None \<Rightarrow> None) = tr_rationale r"
      "(case tr_references r of Some xs \<Rightarrow> if xs = [] then None else Some xs | None \<Rightarrow> None) = tr_references r"
      using r by (cases "tr_rationale r"; cases "tr_references r"; simp add: wf_resolution_def wf_references_def)+
    show ?thesis
      unfolding shape using Some wf(14)
      by (cases e; cases r) (use opt in \<open>simp add: with_resolution_def finish_block_def start_acc_def\<close>)
  qed
qed

definition is_value :: "string \<times> string \<Rightarrow> bool" where
  "is_value p \<longleftrightarrow> (\<exists>v. wf_text v \<and> p = val_pair (fst p) v)"

lemma is_value_val: "wf_text v \<Longrightarrow> is_value (val_pair l v)"
  by (auto simp: is_value_def pair_facts)

lemma is_value_options:
  "pred_option wf_text x \<Longrightarrow> list_all is_value (opt_pair l x)"
  "pred_option (\<lambda>x. x \<noteq> [] \<and> wf_text x) x \<Longrightarrow> list_all is_value (full_pair l x)"
  by (cases x; simp add: opt_pair_def full_pair_def is_value_val)+

lemma is_value_resolution: "wf_resolution r \<Longrightarrow> list_all is_value (resolution_pairs r)"
  using is_value_options(2) [of "tr_rationale r"]
  by (auto simp: resolution_pairs_def wf_resolution_def wf_references_def is_value_val name_text split: option.split)

lemma last_pair_value:
  assumes "wf_entry e" "tail_pairs e = qs @ [(l, w)]"
  shows "\<exists>v. w = CHR '' '' # oneLine v \<and> wf_text v"
proof -
  define pre where "pre = (if te_kind e = Unspecified then [] else [val_pair ''Kind'' (kind_name (te_kind e))])
     @ [source_pair ''Source A'' (te_sourceA e) (te_claimA e), source_pair ''Source B'' (te_sourceB e) (te_claimB e)]"
  define post where "post = [val_pair ''Status'' (te_status e), val_pair ''Logged by'' (te_logged_by e)]
     @ opt_pair ''Position A'' (te_positionA e) @ opt_pair ''Position B'' (te_positionB e)
     @ opt_pair ''Reader A'' (te_readerA e) @ opt_pair ''Reader B'' (te_readerB e)
     @ full_pair ''Decided by principal'' (te_decided_by e)
     @ (case te_resolution e of None \<Rightarrow> [] | Some r \<Rightarrow> resolution_pairs r)"
  have "list_all is_value post"
    using assms(1) by (auto simp: post_def wf_entry_def is_value_val is_value_options is_value_resolution split: option.split)
  moreover have "tail_pairs e = pre @ post" "post \<noteq> []" by (simp_all add: tail_pairs_def pre_def post_def)
  then have "last post = (l, w)" using assms(2) by (metis last_appendR last_snoc)
  then have "(l, w) \<in> set post" using \<open>post \<noteq> []\<close> by (metis last_in_set)
  ultimately have "is_value (l, w)" by (simp add: list_all_iff)
  then show ?thesis by (auto simp: is_value_def val_pair_def)
qed

lemma entry_read_wf:
  assumes "wf_entry e"
  shows "entry_read e = [e]"
proof -
  obtain qs l w where tail: "tail_pairs e = qs @ [(l, w)]"
    by (cases "tail_pairs e" rule: rev_cases) (auto simp: tail_pairs_def)
  obtain v where v: "w = CHR '' '' # oneLine v" "wf_text v" using last_pair_value [OF assms tail] by blast
  have pairs: "entry_pairs e = (opt_pair ''Id'' (te_id e) @ qs) @ [(l, w)]" by (simp add: entry_pairs_def tail)
  have good: "good_title e" and title: "wf_text (te_title e)" using assms by (simp_all add: wf_entry_def)
  have t: "js_trim (oneLine (te_title e)) = te_title e" using wf_text_facts [OF title] by simp
  have "set_pair a (l, trim_end w) = set_pair a (l, w)" for a
    using set_last_pair [OF v(2), of a l] v(1) by (simp add: val_pair_def)
  then have "foldl set_pair a ((opt_pair ''Id'' (te_id e) @ qs) @ [(l, trim_end w)]) = foldl set_pair a (entry_pairs e)" for a
    by (simp add: pairs)
  then have "parse_segment (renderEntry e) = Some (finish_block (foldl set_pair (start_acc (te_date e) (te_title e)) (entry_pairs e)))"
    by (simp add: parse_rendered [OF pairs] good_title_header [OF good] t)
  then show ?thesis by (simp add: entry_read_def fold_entry [OF assms])
qed

text \<open>
  C17: a well-formed entry (one-line trimmed fields, paths free of the word that separates them from the claim)
  appended to any log reads back as itself, behind the entries the log already had.
\<close>

theorem tension_log_roundtrip:
  assumes "wf_entry e"
  shows "parseTensionLog (raw @ nl # renderEntry e) = parseTensionLog raw @ [e]"
  using append_parse [of raw e] entry_read_wf [OF assms] by simp

definition demo_entry :: tension_entry where
  "demo_entry = (new_entry ''2024-05-01'' ''Two dates'')\<lparr>te_id := Some ''tension-001'', te_kind := Factual,
     te_sourceA := ''a.md'', te_claimA := ''x'', te_sourceB := ''b.md'', te_claimB := ''y says z'', te_status := ''resolved'',
     te_logged_by := ''ann'', te_resolved := True, te_resolution := Some \<lparr>tr_at = ''2024-05-02'', tr_by = ''bob'',
       tr_kind = ResCorrected, tr_rationale = None, tr_references = Some [''c.md'', ''d.md'']\<rparr>\<rparr>"

lemma demo_entry_wf: "wf_entry demo_entry"
  by (simp only: wf_entry_def wf_resolution_def demo_entry_def new_entry_def tension_entry.simps tension_resolution.simps
      option.pred_inject) code_simp

theorem tension_log_roundtrip_witness:
  "parseTensionLog (''# Log'' @ nl # renderEntry demo_entry) = parseTensionLog ''# Log'' @ [demo_entry]"
  by (rule tension_log_roundtrip [OF demo_entry_wf])

end
