(* ===== verification/FileLocks.thy ===== *)
theory FileLocks
  imports Daftari_Base
begin

text \<open>
  The lease table for file-level write locks: \<^verbatim>\<open>src/src/access/locks.ts\<close>. The SQLite table is
  a map from path to row, its primary key; statements that fail are the branch \<open>None\<close> of the
  table (the database cannot be used). The locale \<open>lease_store\<close> states what a client relies on:
  a live lease of someone else makes an acquire fail and change nothing that is live, an acquire
  that succeeds is live for its whole time to live, and only the holder removes it. Its client
  lemma, proved once, is that a lease excludes everybody else for its time to live, whatever
  they try.
\<close>

section \<open>The operations\<close>

definition LOCK_TTL_MS :: int where "LOCK_TTL_MS = 60000"

record lock_row =
  lk_path :: string
  lk_holder :: string
  lk_acquired_at :: int
  lk_expires_at :: int

type_synonym lock_table = "(string, lock_row) jmap"

datatype lock_error =
    EmptyPath
  | EmptyHolder
  | LockedBy string string int
  | LockDbFailure

definition purgeExpired :: "lock_table \<Rightarrow> int \<Rightarrow> lock_table" where
  "purgeExpired t now = filter (\<lambda>(p, r). \<not> lk_expires_at r \<le> now) t"

definition mintLeaseHolder :: "int \<Rightarrow> string \<Rightarrow> string \<Rightarrow> string" where
  "mintLeaseHolder pid uuid agent =
     (if pid < 0 then ''-'' @ dec (nat (- pid)) else dec (nat pid)) @ '':'' @ uuid @ '':'' @ agent"

definition acquireLock :: "lock_table \<Rightarrow> string \<Rightarrow> string \<Rightarrow> int \<Rightarrow> lock_table \<times> (lock_error + lock_row)" where
  "acquireLock t path holder now =
     (if path = [] then (t, Inl EmptyPath)
      else if holder = [] then (t, Inl EmptyHolder)
      else (let t' = purgeExpired t now;
                lock = \<lparr>lk_path = path, lk_holder = holder, lk_acquired_at = now,
                        lk_expires_at = now + LOCK_TTL_MS\<rparr>
            in case map_of t' path of
                 Some existing \<Rightarrow>
                   if lk_holder existing \<noteq> holder
                   then (t', Inl (LockedBy (lk_holder existing) path (max 0 (lk_expires_at existing - now))))
                   else (AList.update path lock t', Inr lock)
               | None \<Rightarrow> (AList.update path lock t', Inr lock)))"

definition releaseLock :: "lock_table \<Rightarrow> string \<Rightarrow> string \<Rightarrow> lock_table \<times> bool" where
  "releaseLock t path holder =
     (let t' = filter (\<lambda>(p, r). \<not> (p = path \<and> lk_holder r = holder)) t
      in (t', length t' < length t))"

definition isLocked :: "lock_table \<Rightarrow> string \<Rightarrow> int \<Rightarrow> bool" where
  "isLocked t path now = (case map_of t path of None \<Rightarrow> False | Some r \<Rightarrow> lk_expires_at r > now)"

definition getLock :: "lock_table \<Rightarrow> string \<Rightarrow> int \<Rightarrow> lock_row option" where
  "getLock t path now =
     (case map_of t path of None \<Rightarrow> None | Some r \<Rightarrow> if lk_expires_at r \<le> now then None else Some r)"

section \<open>What a client relies on\<close>

datatype ('k, 'h) lease_op = Acquire 'k 'h | Release 'k 'h

locale lease_store =
  fixes acquire :: "'s \<Rightarrow> 'k \<Rightarrow> 'h \<Rightarrow> int \<Rightarrow> 's \<times> bool"
    and release :: "'s \<Rightarrow> 'k \<Rightarrow> 'h \<Rightarrow> 's"
    and holder_of :: "'s \<Rightarrow> 'k \<Rightarrow> int \<Rightarrow> 'h option"
    and valid :: "'s \<Rightarrow> bool"
    and ttl :: int
  assumes acquired: "valid s \<Longrightarrow> snd (acquire s k h now) \<Longrightarrow> t < now + ttl \<Longrightarrow>
      holder_of (fst (acquire s k h now)) k t = Some h"
    and excluded: "valid s \<Longrightarrow> holder_of s k now = Some g \<Longrightarrow> g \<noteq> h \<Longrightarrow> \<not> snd (acquire s k h now)"
    and acquire_keeps: "valid s \<Longrightarrow> now \<le> t \<Longrightarrow> holder_of s k t = Some g \<Longrightarrow> (k, g) \<noteq> (k', h) \<Longrightarrow>
      holder_of (fst (acquire s k' h now)) k t = Some g"
    and release_keeps: "valid s \<Longrightarrow> holder_of s k t = Some g \<Longrightarrow> (k, g) \<noteq> (k', h) \<Longrightarrow>
      holder_of (release s k' h) k t = Some g"
    and valid_acquire: "valid s \<Longrightarrow> valid (fst (acquire s k h now))"
    and valid_release: "valid s \<Longrightarrow> valid (release s k h)"
begin

fun run_op :: "'s \<Rightarrow> int \<times> ('k, 'h) lease_op \<Rightarrow> 's" where
  "run_op s (now, Acquire k h) = fst (acquire s k h now)"
| "run_op s (now, Release k h) = release s k h"

fun op_holder :: "int \<times> ('k, 'h) lease_op \<Rightarrow> 'h" where
  "op_holder (now, Acquire k h) = h"
| "op_holder (now, Release k h) = h"

lemma lease_survives:
  assumes "valid s" "holder_of s k t = Some h"
    and "\<forall>op \<in> set ops. fst op \<le> t \<and> op_holder op \<noteq> h"
  shows "valid (foldl run_op s ops) \<and> holder_of (foldl run_op s ops) k t = Some h"
  using assms
proof (induction ops arbitrary: s)
  case (Cons op ops)
  obtain now o1 where op: "op = (now, o1)" by (metis surj_pair)
  have "valid (run_op s op) \<and> holder_of (run_op s op) k t = Some h"
    using Cons.prems op
    by (cases o1) (auto simp: valid_acquire valid_release intro: acquire_keeps release_keeps)
  then show ?case using Cons by simp
qed simp

lemma lease_excludes:
  assumes "valid s" "snd (acquire s k h now)" "now \<le> t" "t < now + ttl" "g \<noteq> h"
    and "\<forall>op \<in> set ops. fst op \<le> t \<and> op_holder op \<noteq> h"
  shows "\<not> snd (acquire (foldl run_op (fst (acquire s k h now)) ops) k g t)"
proof -
  let ?s = "fst (acquire s k h now)"
  have "valid ?s" "holder_of ?s k t = Some h"
    using assms(1,2,4) by (simp_all add: valid_acquire acquired)
  from lease_survives [OF this assms(6)] show ?thesis using assms(5) by (intro excluded [of _ k t h g]) auto
qed

end

section \<open>The table is a lease store\<close>

definition lock_ok :: "lock_table \<Rightarrow> string \<Rightarrow> string \<Rightarrow> int \<Rightarrow> lock_table \<times> bool" where
  "lock_ok t p h now = (case acquireLock t p h now of (t', r) \<Rightarrow> (t', case r of Inl _ \<Rightarrow> False | Inr _ \<Rightarrow> True))"

definition lock_holder :: "lock_table \<Rightarrow> string \<Rightarrow> int \<Rightarrow> string option" where
  "lock_holder t p now = map_option lk_holder (getLock t p now)"

lemma purge_lookup:
  "distinct (jkeys t) \<Longrightarrow> map_of (purgeExpired t now) p =
     (case map_of t p of None \<Rightarrow> None | Some r \<Rightarrow> if lk_expires_at r \<le> now then None else Some r)"
  by (simp add: purgeExpired_def map_of_filter_distinct split: option.splits)

lemma release_lookup:
  "distinct (jkeys t) \<Longrightarrow> map_of (fst (releaseLock t path h)) p =
     (case map_of t p of None \<Rightarrow> None | Some r \<Rightarrow> if p = path \<and> lk_holder r = h then None else Some r)"
  by (simp add: releaseLock_def Let_def map_of_filter_distinct split: option.splits)

lemma acquire_distinct: "distinct (jkeys t) \<Longrightarrow> distinct (jkeys (fst (acquireLock t p h now)))"
  by (auto simp: acquireLock_def purgeExpired_def Let_def split: option.splits)

lemma release_distinct: "distinct (jkeys t) \<Longrightarrow> distinct (jkeys (fst (releaseLock t p h)))"
  by (auto simp: releaseLock_def Let_def)

interpretation file_lease: lease_store lock_ok "\<lambda>t p h. fst (releaseLock t p h)" lock_holder
  "\<lambda>t. distinct (jkeys t)" LOCK_TTL_MS
proof
  fix s :: lock_table and k k' h g and now t :: int
  assume d: "distinct (jkeys s)"
  show "snd (lock_ok s k h now) \<Longrightarrow> t < now + LOCK_TTL_MS \<Longrightarrow> lock_holder (fst (lock_ok s k h now)) k t = Some h"
    by (auto simp: lock_ok_def acquireLock_def lock_holder_def getLock_def Let_def split: option.splits if_splits)
  show "lock_holder s k now = Some g \<Longrightarrow> g \<noteq> h \<Longrightarrow> \<not> snd (lock_ok s k h now)"
    using purge_lookup [OF d, of now k]
    by (auto simp: lock_ok_def acquireLock_def lock_holder_def getLock_def Let_def split: option.splits if_splits)
  show "now \<le> t \<Longrightarrow> lock_holder s k t = Some g \<Longrightarrow> (k, g) \<noteq> (k', h) \<Longrightarrow>
      lock_holder (fst (lock_ok s k' h now)) k t = Some g"
    using purge_lookup [OF d, of now]
    by (auto simp: lock_ok_def acquireLock_def lock_holder_def getLock_def Let_def split: option.splits if_splits)
  show "lock_holder s k t = Some g \<Longrightarrow> (k, g) \<noteq> (k', h) \<Longrightarrow>
      lock_holder (fst (releaseLock s k' h)) k t = Some g"
    using release_lookup [OF d, of k' h k]
    by (auto simp: lock_holder_def getLock_def split: option.splits if_splits)
  show "distinct (jkeys (fst (lock_ok s k h now)))"
    using acquire_distinct [OF d, of k h now] by (simp add: lock_ok_def case_prod_unfold)
  show "distinct (jkeys (fst (releaseLock s k h)))"
    by (rule release_distinct [OF d])
qed

text \<open>One operation of another client, at its time, and a run of them.\<close>

definition other_op :: "lock_table \<Rightarrow> int \<times> (string, string) lease_op \<Rightarrow> lock_table" where
  "other_op t e = (case e of (now, Acquire p h) \<Rightarrow> fst (acquireLock t p h now)
                           | (now, Release p h) \<Rightarrow> fst (releaseLock t p h))"

lemma other_op_run: "other_op = file_lease.run_op"
proof (intro ext)
  fix t e
  show "other_op t e = file_lease.run_op t e"
    by (cases e; cases "snd e") (auto simp: other_op_def lock_ok_def split: prod.splits)
qed

definition op_client :: "int \<times> (string, string) lease_op \<Rightarrow> string" where
  "op_client e = (case e of (_, Acquire p h) \<Rightarrow> h | (_, Release p h) \<Rightarrow> h)"

lemma op_client_holder: "op_client e = file_lease.op_holder e"
  by (cases e; cases "snd e") (auto simp: op_client_def)

text \<open>
  C10: a granted lease is exclusive for its whole time to live: whatever other holders acquire or
  release meanwhile, none of them is granted the path before the lease expires.
\<close>

theorem lease_exclusive:
  assumes "distinct (jkeys table)" "acquireLock table path holder now = (table', Inr lock)"
    and "now \<le> t" "t < now + LOCK_TTL_MS" "other \<noteq> holder"
    and "\<forall>e \<in> set ops. fst e \<le> t \<and> op_client e \<noteq> holder"
  shows "\<exists>e. snd (acquireLock (foldl other_op table' ops) path other t) = Inl e"
proof -
  have "snd (lock_ok table path holder now)" "fst (lock_ok table path holder now) = table'"
    using assms(2) by (simp_all add: lock_ok_def)
  from file_lease.lease_excludes [OF assms(1) this(1) assms(3-5), of ops] this assms(6)
  have "\<not> snd (lock_ok (foldl other_op table' ops) path other t)"
    by (simp add: other_op_run op_client_holder)
  then show ?thesis by (auto simp: lock_ok_def split: prod.splits sum.splits)
qed

theorem lease_exclusive_witness:
  "\<exists>e. snd (acquireLock (foldl other_op
      (fst (acquireLock [] ''a.md'' ''h1'' 0)) [(5, Release ''a.md'' ''h2'')]) ''a.md'' ''h2'' 10) = Inl e"
proof -
  have "acquireLock [] ''a.md'' ''h1'' 0 = (fst (acquireLock [] ''a.md'' ''h1'' 0),
      Inr \<lparr>lk_path = ''a.md'', lk_holder = ''h1'', lk_acquired_at = 0, lk_expires_at = LOCK_TTL_MS\<rparr>)"
    by (simp add: acquireLock_def purgeExpired_def Let_def)
  from lease_exclusive [OF _ this, of 10 "''h2''" "[(5, Release ''a.md'' ''h2'')]"]
  show ?thesis by (simp add: LOCK_TTL_MS_def op_client_def)
qed

text \<open>
  A crashed holder never wedges a file: once the lease has expired, any holder is granted the
  path, whatever the table holds.
\<close>

theorem expired_lease_released:
  assumes "distinct (jkeys table)" "path \<noteq> []" "holder \<noteq> []" "\<not> isLocked table path now"
  shows "snd (acquireLock table path holder now) = Inr \<lparr>lk_path = path, lk_holder = holder,
      lk_acquired_at = now, lk_expires_at = now + LOCK_TTL_MS\<rparr>
    \<and> isLocked (fst (acquireLock table path holder now)) path now"
proof -
  have "map_of (purgeExpired table now) path = None"
    using assms(4) by (cases "map_of table path") (simp_all add: purge_lookup [OF assms(1)] isLocked_def)
  with assms(2,3) show ?thesis by (simp add: acquireLock_def isLocked_def LOCK_TTL_MS_def Let_def)
qed

theorem expired_lease_released_witness:
  "isLocked (fst (acquireLock (fst (acquireLock [] ''a.md'' ''h1'' 0)) ''a.md'' ''h2'' 60000)) ''a.md'' 60000"
proof -
  let ?t = "fst (acquireLock [] ''a.md'' ''h1'' 0)"
  have t: "?t = [(''a.md'', \<lparr>lk_path = ''a.md'', lk_holder = ''h1'', lk_acquired_at = 0, lk_expires_at = 60000\<rparr>)]"
    by (simp add: acquireLock_def purgeExpired_def LOCK_TTL_MS_def Let_def)
  then show ?thesis using expired_lease_released [of ?t "''a.md''" "''h2''" 60000] by (simp add: isLocked_def)
qed

end
