(* ===== verification/TensionLog.thy ===== *)
theory TensionLog
  imports TensionRoundtrip FileLocks Dates
begin

text \<open>
  The operations on the tension log: \<^verbatim>\<open>addTension\<close>, \<^verbatim>\<open>resolveTension\<close>, \<^verbatim>\<open>listTensions\<close>, the retry on a
  contended lease and the aging tiers of \<^verbatim>\<open>src/src/curation/tension.ts\<close>. The log file is a string, or
  \<open>None\<close> when it does not exist; the lease table is that of \<open>FileLocks\<close>; which file operations fail is an
  input. \<open>addTension\<close> runs without an intervening await and is one step; \<open>resolveTension\<close> awaits its read
  and its write and is three: taking the lease, reading, and writing with the release.
\<close>

section \<open>Adding\<close>

definition TENSIONS_LOCK_KEY :: string where "TENSIONS_LOCK_KEY = ''__tensions__''"

datatype tension_error =
    EmptyField string
  | NotAddable tension_kind
  | NotSelfTension tension_kind
  | MissingPositions
  | LockDbUnavailable
  | LeaseContention lock_error
  | AppendFailed
  | ReadFailed
  | TensionNotFound string
  | AlreadyResolved string
  | WriteFailed

record tension_input =
  ti_date :: "string option"
  ti_title :: string
  ti_kind :: tension_kind
  ti_sourceA :: string
  ti_claimA :: string
  ti_sourceB :: string
  ti_claimB :: string
  ti_status :: "string option"
  ti_logged_by :: string
  ti_decided_by :: "string option"
  ti_positionA :: "string option"
  ti_positionB :: "string option"
  ti_readerA :: "string option"
  ti_readerB :: "string option"

record log_faults =
  lf_lock_db :: bool
  lf_read :: bool
  lf_write :: bool

type_synonym log_store = "lock_table \<times> string option"

definition isTensionLeaseContention :: "tension_error \<Rightarrow> bool" where
  "isTensionLeaseContention e = (case e of LeaseContention _ \<Rightarrow> True | _ \<Rightarrow> False)"

definition nextTensionId :: "tension_entry list \<Rightarrow> string" where
  "nextTensionId existing = seq_render ''tension-'' (js_int (max_suffix ''tension-'' (List.map_filter te_id existing) 0 + 1))"

definition blank :: "string \<Rightarrow> bool" where "blank s \<longleftrightarrow> js_trim s = []"

text \<open>\<^verbatim>\<open>x !== undefined && x.trim().length > 0 ? x.trim()\<close>\<close>

definition trimmed_option :: "string option \<Rightarrow> string option" where
  "trimmed_option v = (case v of None \<Rightarrow> None | Some x \<Rightarrow> if blank x then None else Some (js_trim x))"

definition check_input :: "tension_input \<Rightarrow> tension_error option" where
  "check_input t =
     (case List.find (\<lambda>(name, v). blank v)
             [(''title'', ti_title t), (''sourceA'', ti_sourceA t), (''claimA'', ti_claimA t),
              (''sourceB'', ti_sourceB t), (''claimB'', ti_claimB t), (''loggedBy'', ti_logged_by t)] of
        Some (name, _) \<Rightarrow> Some (EmptyField name)
      | None \<Rightarrow>
          if ti_kind t \<notin> set ADDABLE_TENSION_KINDS then Some (NotAddable (ti_kind t))
          else if (ti_kind t = InterProposal \<or> ti_kind t = Positional) \<and> js_trim (ti_sourceA t) \<noteq> js_trim (ti_sourceB t)
          then Some (NotSelfTension (ti_kind t))
          else if ti_kind t = Positional
               \<and> (trimmed_option (ti_positionA t) = None \<or> trimmed_option (ti_positionB t) = None)
          then Some MissingPositions
          else None)"

definition entry_of :: "string \<Rightarrow> string \<Rightarrow> tension_input \<Rightarrow> tension_entry" where
  "entry_of today i t =
     \<lparr>te_id = Some i, te_date = (case ti_date t of None \<Rightarrow> today | Some d \<Rightarrow> d), te_title = js_trim (ti_title t),
      te_kind = ti_kind t, te_sourceA = js_trim (ti_sourceA t), te_claimA = js_trim (ti_claimA t),
      te_sourceB = js_trim (ti_sourceB t), te_claimB = js_trim (ti_claimB t),
      te_status = (case ti_status t of None \<Rightarrow> ''unresolved'' | Some s \<Rightarrow> s), te_logged_by = js_trim (ti_logged_by t),
      te_decided_by = trimmed_option (ti_decided_by t), te_resolved = False, te_resolution = None,
      te_positionA = ti_positionA t, te_positionB = ti_positionB t,
      te_readerA = trimmed_option (ti_readerA t), te_readerB = trimmed_option (ti_readerB t)\<rparr>"

text \<open>The critical section: read the log, allocate the id, append.\<close>

definition append_entry ::
    "log_faults \<Rightarrow> int \<Rightarrow> tension_input \<Rightarrow> string option \<Rightarrow> string option \<times> (tension_error + tension_entry)" where
  "append_entry faults now t logf =
     (let raw = (case logf of None \<Rightarrow> [] | Some s \<Rightarrow> s);
          e = entry_of (take 10 (to_iso now)) (nextTensionId (parseTensionLog raw)) t
      in if lf_read faults \<or> lf_write faults then (logf, Inl AppendFailed)
         else (Some (raw @ nl # renderEntry e), Inr e))"

definition addTension ::
    "log_faults \<Rightarrow> string \<Rightarrow> int \<Rightarrow> tension_input \<Rightarrow> log_store \<Rightarrow> log_store \<times> (tension_error + tension_entry)" where
  "addTension faults holder now t st =
     (case check_input t of
        Some e \<Rightarrow> (st, Inl e)
      | None \<Rightarrow>
          if lf_lock_db faults then (st, Inl LockDbUnavailable)
          else (case acquireLock (fst st) TENSIONS_LOCK_KEY holder now of
                  (locks, Inl e) \<Rightarrow> ((fst (releaseLock locks TENSIONS_LOCK_KEY holder), snd st), Inl (LeaseContention e))
                | (locks, Inr _) \<Rightarrow>
                    (case append_entry faults now t (snd st) of
                       (logf, r) \<Rightarrow> ((fst (releaseLock locks TENSIONS_LOCK_KEY holder), logf), r))))"

text \<open>
  The retry: an attempt acts on the store; \<open>between\<close> is what other clients do to it while the
  first attempt's caller sleeps.
\<close>

definition retryOnTensionLease ::
    "(nat \<Rightarrow> 's \<Rightarrow> 's \<times> (tension_error + 'a)) \<Rightarrow> ('s \<Rightarrow> 's) \<Rightarrow> 's \<Rightarrow> 's \<times> (tension_error + 'a)" where
  "retryOnTensionLease attempt between s =
     (case attempt 0 s of
        (s', Inr v) \<Rightarrow> (s', Inr v)
      | (s', Inl e) \<Rightarrow> if isTensionLeaseContention e then attempt 1 (between s') else (s', Inl e))"

section \<open>Listing and resolving\<close>

definition listTensions :: "bool \<Rightarrow> string option \<Rightarrow> string option \<Rightarrow> tension_error + tension_entry list" where
  "listTensions fault status logf =
     (case logf of
        None \<Rightarrow> Inr []
      | Some raw \<Rightarrow>
          if fault then Inl ReadFailed
          else Inr (case status of
                 None \<Rightarrow> parseTensionLog raw
               | Some s \<Rightarrow> if s = [] then parseTensionLog raw else filter (\<lambda>e. te_status e = s) (parseTensionLog raw)))"

definition is_block :: "string \<Rightarrow> bool" where "is_block s \<longleftrightarrow> take 3 s = ''## ''"

fun find_block :: "string \<Rightarrow> string list \<Rightarrow> (nat \<times> tension_entry) option" where
  "find_block i [] = None"
| "find_block i (b # bs) =
     (case parseBlock (js_trim b) of
        None \<Rightarrow> map_option (\<lambda>(n, e). (Suc n, e)) (find_block i bs)
      | Some e \<Rightarrow>
          if te_id e \<noteq> Some i then map_option (\<lambda>(n, e). (Suc n, e)) (find_block i bs)
          else Some (0, e))"

definition mark_resolved :: "tension_resolution \<Rightarrow> tension_entry \<Rightarrow> tension_entry" where
  "mark_resolved r e = e\<lparr>te_status := ''resolved'', te_resolved := True, te_resolution := Some r\<rparr>"

text \<open>The text a resolution writes, from the text it read.\<close>

definition resolve_text :: "string \<Rightarrow> string \<Rightarrow> tension_resolution \<Rightarrow> tension_error + string \<times> tension_entry" where
  "resolve_text raw i r =
     (let segs = segments raw;
          preamble = (if is_block (hd segs) then [] else hd segs);
          blocks = filter is_block segs
      in case find_block i blocks of
           None \<Rightarrow> Inl (TensionNotFound i)
         | Some (n, matched) \<Rightarrow>
             if te_resolved matched then Inl (AlreadyResolved i)
             else (let updated = mark_resolved r matched;
                       b = blocks ! n;
                       rewritten = blocks[n := takeWhile (\<lambda>c. c = nl) b @ renderEntry updated]
                   in Inr (preamble @ concat rewritten, updated)))"

definition resolve_begin :: "log_faults \<Rightarrow> string \<Rightarrow> int \<Rightarrow> log_store \<Rightarrow> log_store \<times> (tension_error + lock_row)" where
  "resolve_begin faults holder now st =
     (if lf_lock_db faults then (st, Inl LockDbUnavailable)
      else case acquireLock (fst st) TENSIONS_LOCK_KEY holder now of
             (locks, Inl e) \<Rightarrow> ((fst (releaseLock locks TENSIONS_LOCK_KEY holder), snd st), Inl (LeaseContention e))
           | (locks, Inr row) \<Rightarrow> ((locks, snd st), Inr row))"

definition resolve_read :: "log_faults \<Rightarrow> string \<Rightarrow> string option \<Rightarrow> tension_error + string" where
  "resolve_read faults i logf =
     (case logf of None \<Rightarrow> Inl (TensionNotFound i) | Some raw \<Rightarrow> if lf_read faults then Inl ReadFailed else Inr raw)"

definition resolve_finish ::
    "log_faults \<Rightarrow> string \<Rightarrow> string \<Rightarrow> tension_resolution \<Rightarrow> tension_error + string \<Rightarrow> log_store
     \<Rightarrow> log_store \<times> (tension_error + tension_entry)" where
  "resolve_finish faults holder i r got st =
     (let locks = fst (releaseLock (fst st) TENSIONS_LOCK_KEY holder) in
      case got of
        Inl e \<Rightarrow> ((locks, snd st), Inl e)
      | Inr raw \<Rightarrow>
          (case resolve_text raw i r of
             Inl e \<Rightarrow> ((locks, snd st), Inl e)
           | Inr (text1, updated) \<Rightarrow>
               if lf_write faults then ((locks, snd st), Inl WriteFailed)
               else ((locks, Some text1), Inr updated)))"

section \<open>Aging\<close>

datatype aging_tier = TierFresh | TierAging | TierStale

definition agingTier :: "tension_entry \<Rightarrow> int \<Rightarrow> aging_tier option" where
  "agingTier e now =
     (if te_kind e = Unspecified then None
      else if map_option tr_kind (te_resolution e) = Some ResAccepted then None
      else (let age = ageInDays (te_date e) now in
            if age \<le> 30 then Some TierFresh else if age \<le> 90 then Some TierAging else Some TierStale))"

text \<open>\<open>readerOf\<close> reads the two fields of the frontmatter that a string or a list of strings may fill.\<close>

definition readerOf :: "(string option \<times> string list) option \<Rightarrow> string option" where
  "readerOf fm =
     (case fm of
        None \<Rightarrow> None
      | Some (model, readers) \<Rightarrow>
          (case model of
             Some m \<Rightarrow> if \<not> blank m then Some m else List.find (\<lambda>r. \<not> blank r) readers
           | None \<Rightarrow> List.find (\<lambda>r. \<not> blank r) readers))"

section \<open>Ids stay unique\<close>

interpretation tension_ids: id_allocator "''tension-''" "List.map_filter te_id" nextTensionId
  by unfold_locales (simp add: nextTensionId_def)

lemma trim_plain:
  assumes "js_trim s = s" "\<not> has_term s"
  shows "js_trim (oneLine s) = s"
  using assms by (simp add: oneLine_id)

lemma rendered_id_text:
  assumes "n < 2 ^ 53"
  shows "js_trim (oneLine (seq_render ''tension-'' n)) = seq_render ''tension-'' n"
proof (rule trim_plain)
  let ?d = "pad_left 3 (CHR ''0'') (dec n)"
  have digits: "\<forall>c \<in> set ?d. is_digit c" using dec_digits [of n] by (auto simp: pad_left_def)
  have "strip_one js_spaces (''tension-'' @ ?d) = None" by (simp add: js_spaces_def)
  moreover have "strip_one (map rev js_spaces) (rev (''tension-'' @ ?d)) = None"
  proof -
    have "?d \<noteq> []" by (simp add: pad_left_def)
    then obtain y c where yc: "?d = y @ [c]" by (cases ?d rule: rev_cases) auto
    have "list_all (\<lambda>w. w \<noteq> [] \<and> \<not> is_digit (hd w)) (map rev js_spaces)" by code_simp
    then have "w = [] \<or> take (length w) (c # z) \<noteq> w" if "w \<in> set (map rev js_spaces)" for w z
      using that digits yc by (cases w) (auto simp: list_all_iff simp del: set_map)
    then have "strip_one (map rev js_spaces) (c # z) = None" for z by (auto simp: strip_one_None)
    then show ?thesis by (simp add: yc)
  qed
  ultimately show "js_trim (seq_render ''tension-'' n) = seq_render ''tension-'' n"
    by (simp only: js_trim_id seq_render_def)
  show "\<not> has_term (seq_render ''tension-'' n)"
    unfolding seq_render_def using digits digit_plain by (intro no_term_ascii) auto
qed

definition log_text :: "string option \<Rightarrow> string" where
  "log_text logf = (case logf of None \<Rightarrow> [] | Some s \<Rightarrow> s)"

definition log_entries :: "string option \<Rightarrow> tension_entry list" where
  "log_entries logf = parseTensionLog (log_text logf)"

definition log_ids :: "string option \<Rightarrow> string list" where
  "log_ids logf = List.map_filter te_id (log_entries logf)"

lemma addTension_result:
  assumes "addTension faults holder now t st = (st', Inr e)"
  shows "snd st' = Some (log_text (snd st) @ nl # renderEntry e)"
    "e = entry_of (take 10 (to_iso now)) (nextTensionId (log_entries (snd st))) t" "check_input t = None"
  using assms
  by (auto simp: addTension_def append_entry_def log_text_def log_entries_def Let_def
      split: option.splits if_splits prod.splits sum.splits)

lemma entry_title:
  assumes "check_input t = None"
  shows "js_trim (te_title (entry_of d i t)) = te_title (entry_of d i t)" "te_title (entry_of d i t) \<noteq> []"
  using assms by (auto simp: entry_of_def check_input_def blank_def split: if_splits)

text \<open>
  Adding keeps ids unique. An entry that \<open>addTension\<close> returns, its date of the form \<open>YYYY-MM-DD\<close>, is read back as
  one entry behind the ones the log had, whatever text the input holds, and its id is none of theirs, as
  long as the numbers of the ids stay below the range where the program's arithmetic is exact.
\<close>

theorem added_tension_fresh:
  assumes "addTension faults holder now t st = (st', Inr e)" "date_shape (te_date e)"
    and "max_suffix ''tension-'' (log_ids (snd st)) 0 < 2 ^ 53 - 1"
  shows "(\<exists>x. log_entries (snd st') = log_entries (snd st) @ [x] \<and> te_id x = te_id e)
    \<and> (case te_id e of None \<Rightarrow> False | Some i \<Rightarrow> i \<notin> set (log_ids (snd st)))"
proof -
  let ?i = "nextTensionId (log_entries (snd st))" and ?m = "max_suffix ''tension-'' (log_ids (snd st)) 0"
  have e: "te_id e = Some ?i" using addTension_result(2) [OF assms(1)] by (simp add: entry_of_def)
  have "?m + 1 < 2 ^ 53" using assms(3) by simp
  then have i: "?i = seq_render ''tension-'' (?m + 1)"
    by (simp add: nextTensionId_def log_ids_def js_int_exact)
  then have trim: "js_trim (oneLine ?i) = ?i" using rendered_id_text [OF \<open>?m + 1 < 2 ^ 53\<close>] by simp
  have good: "good_title e"
    using addTension_result(2,3) [OF assms(1)] entry_title assms(2) by (simp add: good_title_def)
  obtain x where x: "entry_read e = [x]" "te_id x = map_option (\<lambda>i. js_trim (oneLine i)) (te_id e)"
    using entry_readable [OF good] by blast
  have "te_id x = te_id e" using x(2) trim by (simp add: e)
  moreover have "log_entries (snd st') = log_entries (snd st) @ [x]"
    using addTension_result(1) [OF assms(1)] append_parse [of "log_text (snd st)" e] x(1)
    by (simp add: log_entries_def log_text_def)
  moreover have "?i \<notin> set (log_ids (snd st))"
    using tension_ids.fresh [of "log_entries (snd st)"] assms(3) by (simp add: log_ids_def)
  ultimately show ?thesis by (simp add: e)
qed

definition no_faults :: log_faults where
  "no_faults = \<lparr>lf_lock_db = False, lf_read = False, lf_write = False\<rparr>"

definition demo_input :: tension_input where
  "demo_input = \<lparr>ti_date = Some ''2024-05-01'', ti_title = ''T'', ti_kind = Factual, ti_sourceA = ''a.md'',
     ti_claimA = ''x'' @ [nl] @ ''## 2024-05-02'', ti_sourceB = ''b.md'', ti_claimB = ''y'', ti_status = None,
     ti_logged_by = ''ann'', ti_decided_by = None, ti_positionA = None, ti_positionB = None,
     ti_readerA = None, ti_readerB = None\<rparr>"

lemma demo_checked: "check_input demo_input = None"
  by code_simp

lemma demo_added:
  "addTension no_faults ''h'' 0 demo_input ([], None) =
     (([], Some (nl # renderEntry (entry_of (take 10 (to_iso 0)) (nextTensionId []) demo_input))),
      Inr (entry_of (take 10 (to_iso 0)) (nextTensionId []) demo_input))"
proof -
  have "parseTensionLog [] = []"
    by (simp add: parseTensionLog_def segments_def parse_segment_def map_filter_def)
  then show ?thesis
    by (simp add: addTension_def demo_checked no_faults_def acquireLock_def purgeExpired_def releaseLock_def
        TENSIONS_LOCK_KEY_def append_entry_def Let_def)
qed

theorem added_tension_fresh_witness:
  "\<exists>x. log_entries (Some (nl # renderEntry (entry_of (take 10 (to_iso 0)) (nextTensionId []) demo_input))) = [x]"
proof -
  have "log_entries None = []" "log_ids None = []"
    by (simp_all add: log_entries_def log_ids_def log_text_def parseTensionLog_def segments_def parse_segment_def
        map_filter_def)
  moreover have "date_shape (te_date (entry_of (take 10 (to_iso 0)) (nextTensionId []) demo_input))"
    by (simp add: entry_of_def demo_input_def date_shape_def is_digit_def)
  ultimately show ?thesis using added_tension_fresh [OF demo_added] by auto
qed

section \<open>A resolution changes one entry\<close>

text \<open>
  A log is glued from its segments: each is one segment of its own, each but the last ends a line, each but the
  first is a block. Gluing and splitting are inverse, so a block may be exchanged for another.
\<close>

definition whole :: "string \<Rightarrow> bool" where
  "whole b \<longleftrightarrow> split_hd [] b = [b]"

fun glued :: "string list \<Rightarrow> bool" where
  "glued [] = False"
| "glued [x] = whole x"
| "glued (x # y # ys) = (whole x \<and> bol (rev x) \<and> is_block y \<and> glued (y # ys))"

lemma block_prefix:
  assumes "is_block (a @ b)" "bol (rev a)"
  shows "is_block a"
proof -
  have "3 \<le> length a"
  proof (rule ccontr)
    assume short: "\<not> 3 \<le> length a"
    have "take (length a) (take 3 (a @ b)) = a" using short by simp
    then have "a = take (length a) ''## ''" using assms(1) unfolding is_block_def by metis
    moreover have "length a = 0 \<or> length a = 1 \<or> length a = 2" using short by linarith
    ultimately have "a = [] \<or> a = ''#'' \<or> a = ''##''" by (elim disjE) (simp_all add: numeral_eq_Suc)
    then show False using assms(2) by (elim disjE) (simp_all add: bol_def)
  qed
  then show ?thesis using assms(1) by (simp add: is_block_def)
qed

lemma block_more: "is_block a \<Longrightarrow> is_block (a @ b)"
proof -
  assume a: "is_block a"
  then have "length (take 3 a) = length ''## ''" by (simp only: is_block_def)
  then have "3 \<le> length a" by simp
  then show ?thesis using a by (simp add: is_block_def)
qed

lemma split_first:
  "split_hd cur s = [rev cur @ s] \<or>
   (\<exists>a b. s = a @ b \<and> bol (rev a @ cur) \<and> is_block b \<and> split_hd cur a = [rev cur @ a]
      \<and> split_hd cur s = (rev cur @ a) # split_hd [] b)"
proof (induction cur s rule: split_hd.induct)
  case (2 cur c cs)
  show ?case
  proof (cases "bol cur \<and> take 3 (c # cs) = ''## ''")
    case True
    then have "split_hd cur (c # cs) = rev cur # split_hd [c] cs" by simp
    moreover have "split_hd [] (c # cs) = split_hd [c] cs" by (simp add: bol_def)
    ultimately have "split_hd cur (c # cs) = rev cur # split_hd [] (c # cs)" by metis
    moreover have "is_block (c # cs)" using True by (simp add: is_block_def)
    ultimately show ?thesis using True by (intro disjI2 exI [of _ "[]"] exI [of _ "c # cs"]) (simp del: split_hd.simps(2))
  next
    case False
    then have step: "split_hd cur (c # cs) = split_hd (c # cur) cs" by auto
    from 2(2) [OF False] show ?thesis
    proof (elim disjE exE conjE)
      fix a b
      assume ab: "cs = a @ b" "bol (rev a @ c # cur)" "is_block b" "split_hd (c # cur) a = [rev (c # cur) @ a]"
        "split_hd (c # cur) cs = (rev (c # cur) @ a) # split_hd [] b"
      have "take 3 (c # a) = ''## '' \<Longrightarrow> take 3 (c # cs) = ''## ''"
        using ab(1) by (cases a; cases "tl a") (auto simp: numeral_eq_Suc)
      then have "split_hd cur (c # a) = split_hd (c # cur) a" using False by auto
      then show ?thesis using ab step by (intro disjI2 exI [of _ "c # a"] exI [of _ b]) simp
    qed (use step in \<open>simp del: split_hd.simps(2)\<close>)
  qed
qed simp

lemma segments_glued: "glued (split_hd [] raw)"
proof (induction raw rule: length_induct)
  case (1 raw)
  show ?case
  proof (cases "split_hd [] raw = [raw]")
    case True
    then show ?thesis by (simp add: whole_def)
  next
    case False
    then obtain a b where ab: "raw = a @ b" "bol (rev a)" "is_block b" "whole a" "split_hd [] raw = a # split_hd [] b"
      using split_first [of "[]" raw] by (auto simp: whole_def)
    have "length b < length raw" using ab(1,2) by (auto simp: bol_def)
    then have g: "glued (split_hd [] b)" using 1 by blast
    obtain y ys where y: "split_hd [] b = y # ys" using split_hd_nonempty by (cases "split_hd [] b") auto
    have "is_block y"
    proof (cases "split_hd [] b = [b]")
      case False
      then obtain a' b' where "b = a' @ b'" "bol (rev a')" "split_hd [] b = a' # split_hd [] b'"
        using split_first [of "[]" b] by auto
      then show ?thesis using block_prefix [of a' b'] ab(3) y by simp
    qed (use ab(3) y in simp)
    then show ?thesis using ab y g by simp
  qed
qed

lemma glued_segments: "glued ss \<Longrightarrow> split_hd [] (concat ss) = ss"
proof (induction ss rule: glued.induct)
  case (3 x y ys)
  have "take 3 (concat (y # ys)) = ''## ''"
    using 3(2) block_more [of y "concat ys"] by (simp add: is_block_def)
  then have "split_hd [] (x @ concat (y # ys)) = split_hd [] x @ split_hd [] (concat (y # ys))"
    using 3(2) by (intro split_hd_append) simp_all
  then show ?case using 3 by (simp add: whole_def)
qed (simp_all add: whole_def)

lemma glued_exchange:
  "glued (pre @ x # post) \<Longrightarrow> whole y \<Longrightarrow> bol (rev y) \<Longrightarrow> is_block y \<Longrightarrow> glued (pre @ y # post)"
proof (induction pre)
  case Nil
  then show ?case by (cases post) auto
next
  case (Cons z pre)
  then show ?case by (cases pre) auto
qed

lemma render_whole: "whole (renderEntry e)" "bol (rev (renderEntry e))" "is_block (renderEntry e)"
proof -
  show "bol (rev (renderEntry e))" by (simp add: renderEntry_def bol_def)
qed (simp_all add: whole_def render_segment is_block_def render_start)

lemma block_parse:
  assumes "is_block b"
  shows "parse_segment b = parseBlock (js_trim b)"
proof -
  obtain r where b: "b = ''#'' @ CHR ''#'' # CHR '' '' # r"
    using assms append_take_drop_id [of 3 b] unfolding is_block_def by (metis append_Cons append_Nil)
  have "strip_one js_spaces b = None" by (simp add: b js_spaces_def)
  then have start: "trim_start b = b" by (simp add: trim_start_def strip_all_none)
  have "\<forall>w \<in> set (map rev js_spaces). CHR ''#'' \<notin> set w" by (simp add: js_spaces_def)
  note stop = strip_all_stop [OF this, of "rev (CHR '' '' # r)" "''#''"]
  have "js_trim b = trim_end b" by (simp only: js_trim_def start)
  then have trim: "js_trim b = ''##'' @ trim_end (CHR '' '' # r)"
    using stop by (simp add: trim_end_def b)
  show ?thesis
  proof (cases "trim_end (CHR '' '' # r)")
    case Nil
    have "parseBlock ''##'' = None" by code_simp
    then show ?thesis by (simp add: parse_segment_def trim Nil)
  next
    case (Cons c y)
    moreover obtain q where "CHR '' '' # r = trim_end (CHR '' '' # r) @ q" using trim_end_prefix by blast
    ultimately have "c = CHR '' ''" by simp
    then show ?thesis by (simp add: parse_segment_def trim Cons)
  qed
qed

lemma find_block_facts:
  assumes "find_block i blocks = Some (n, m)"
  shows "n < length blocks \<and> parseBlock (js_trim (blocks ! n)) = Some m \<and> te_id m = Some i"
  using assms
proof (induction i blocks arbitrary: n rule: find_block.induct)
  case (2 i b bs)
  then show ?case by (auto split: option.splits if_splits)
qed simp

text \<open>
  C18: a resolution changes one entry. What \<open>resolveTension\<close> writes reads as the log it read, except
  that one unresolved entry with the given id is replaced by what is read back of the resolved entry; every
  other entry, and the order, is kept.
\<close>

theorem resolution_local:
  assumes "resolve_text raw i r = Inr (raw', e)"
  shows "\<exists>pre m post. parseTensionLog raw = pre @ m # post \<and> te_id m = Some i \<and> \<not> te_resolved m
    \<and> e = mark_resolved r m \<and> parseTensionLog raw' = pre @ entry_read e @ post"
proof -
  let ?segs = "segments raw" and ?pf = "List.map_filter parse_segment"
  define blocks where "blocks = filter is_block ?segs"
  define preamble where "preamble = (if is_block (hd ?segs) then [] else hd ?segs)"
  obtain n m where fb: "find_block i blocks = Some (n, m)" and unres: "\<not> te_resolved m" and e: "e = mark_resolved r m"
    and raw': "raw' = preamble @ concat (blocks[n := takeWhile (\<lambda>c. c = nl) (blocks ! n) @ renderEntry e])"
    using assms by (auto simp: resolve_text_def Let_def blocks_def preamble_def split: option.splits if_splits)
  have n: "n < length blocks" "parseBlock (js_trim (blocks ! n)) = Some m" "te_id m = Some i"
    using find_block_facts [OF fb] by auto
  let ?b = "blocks ! n" and ?y = "renderEntry e"
  have blk: "is_block ?b" using n(1) nth_mem unfolding blocks_def by fastforce
  then have nolead: "takeWhile (\<lambda>c. c = nl) ?b = []" by (cases ?b) (auto simp: is_block_def)
  have gl: "glued ?segs" unfolding segments_def by (rule segments_glued)
  have tails: "filter is_block ss = ss" if "glued (x # ss)" for x ss
    using that by (induction ss arbitrary: x) auto
  obtain pre post where segs: "?segs = pre @ ?b # post" and out: "raw' = concat (pre @ ?y # post)"
  proof (cases "is_block (hd ?segs)")
    case True
    then have "blocks = ?segs" using gl tails unfolding blocks_def by (cases ?segs) auto
    then have "?segs = take n blocks @ ?b # drop (Suc n) blocks" using n(1) by (metis id_take_nth_drop)
    moreover have "raw' = concat (take n blocks @ ?y # drop (Suc n) blocks)"
      using True n(1) by (simp add: raw' preamble_def nolead upd_conv_take_nth_drop)
    ultimately show ?thesis using that by blast
  next
    case False
    then obtain x where "?segs = x # blocks" using gl tails unfolding blocks_def by (cases ?segs) auto
    then have "?segs = (x # take n blocks) @ ?b # drop (Suc n) blocks" using n(1) by (metis append_Cons id_take_nth_drop)
    moreover have "raw' = concat ((x # take n blocks) @ ?y # drop (Suc n) blocks)"
      using False n(1) \<open>?segs = x # blocks\<close> by (simp add: raw' preamble_def nolead upd_conv_take_nth_drop)
    ultimately show ?thesis using that by blast
  qed
  have "glued (pre @ ?y # post)" using glued_exchange gl segs render_whole by metis
  then have "segments raw' = pre @ ?y # post" unfolding segments_def out by (rule glued_segments)
  then have "parseTensionLog raw' = ?pf pre @ entry_read e @ ?pf post"
    by (simp add: parseTensionLog_def map_filter_append map_filter_simps entry_read_def split: option.split)
  moreover have "parseTensionLog raw = ?pf pre @ m # ?pf post"
    using block_parse [OF blk] n(2) by (simp add: parseTensionLog_def segs map_filter_append map_filter_simps)
  ultimately show ?thesis using n(3) unres e by blast
qed

definition demo_raw :: string where
  "demo_raw = renderEntry ((new_entry ''2024-05-01'' ''T'')\<lparr>te_id := Some ''t'', te_sourceA := ''a'', te_sourceB := ''b''\<rparr>)"

definition demo_resolution :: tension_resolution where
  "demo_resolution = \<lparr>tr_at = ''2024-05-02'', tr_by = ''bob'', tr_kind = ResAccepted, tr_rationale = None,
     tr_references = None\<rparr>"

lemma demo_resolves: "\<exists>raw' e. resolve_text demo_raw ''t'' demo_resolution = Inr (raw', e)"
proof -
  have "case resolve_text demo_raw ''t'' demo_resolution of Inl _ \<Rightarrow> False | Inr _ \<Rightarrow> True" by code_simp
  then show ?thesis by (auto split: sum.splits)
qed

theorem resolution_local_witness:
  "\<exists>pre m post. parseTensionLog demo_raw = pre @ m # post \<and> te_id m = Some ''t'' \<and> \<not> te_resolved m"
  using demo_resolves resolution_local by blast

section \<open>Interleaved clients\<close>

text \<open>
  Clients share the lease table and the log. A session is a \<open>resolveTension\<close> between its lease and its write; it is
  keyed by its lease holder, which is minted fresh. Time passes, other clients add, sessions begin,
  read, write and release, or die without releasing. A write is a step only while the lease it was begun
  under has not expired: the code does not check this, it relies on a section shorter than the time to live.
\<close>

record session =
  se_id :: string
  se_resolution :: tension_resolution
  se_acquired :: int
  se_got :: "(tension_error + string) option"

record tl_state =
  tl_store :: log_store
  tl_now :: int
  tl_sessions :: "string \<Rightarrow> session option"

inductive tl_step :: "tl_state \<Rightarrow> tl_state \<Rightarrow> bool" where
  tick: "tl_now s \<le> n \<Longrightarrow> tl_step s (s\<lparr>tl_now := n\<rparr>)"
| add: "tl_sessions s h = None \<Longrightarrow> addTension f h (tl_now s) t (tl_store s) = (st, r)
    \<Longrightarrow> tl_step s (s\<lparr>tl_store := st\<rparr>)"
| refused: "tl_sessions s h = None \<Longrightarrow> resolve_begin f h (tl_now s) (tl_store s) = (st, Inl e)
    \<Longrightarrow> tl_step s (s\<lparr>tl_store := st\<rparr>)"
| begin_it: "tl_sessions s h = None \<Longrightarrow> resolve_begin f h (tl_now s) (tl_store s) = (st, Inr row)
    \<Longrightarrow> tl_step s (s\<lparr>tl_store := st, tl_sessions := (tl_sessions s)(h \<mapsto>
          \<lparr>se_id = i, se_resolution = r, se_acquired = tl_now s, se_got = None\<rparr>)\<rparr>)"
| read_it: "tl_sessions s h = Some se \<Longrightarrow> se_got se = None
    \<Longrightarrow> tl_step s (s\<lparr>tl_sessions := (tl_sessions s)(h \<mapsto>
          se\<lparr>se_got := Some (resolve_read f (se_id se) (snd (tl_store s)))\<rparr>)\<rparr>)"
| finish_it: "tl_sessions s h = Some se \<Longrightarrow> se_got se = Some got \<Longrightarrow> tl_now s < se_acquired se + LOCK_TTL_MS
    \<Longrightarrow> resolve_finish f h (se_id se) (se_resolution se) got (tl_store s) = (st, r)
    \<Longrightarrow> tl_step s (s\<lparr>tl_store := st, tl_sessions := (tl_sessions s)(h := None)\<rparr>)"
| die: "tl_step s (s\<lparr>tl_sessions := (tl_sessions s)(h := None)\<rparr>)"

inductive tl_reach :: "tl_state \<Rightarrow> tl_state \<Rightarrow> bool" for s0 where
  start: "tl_reach s0 s0"
| step: "tl_reach s0 s \<Longrightarrow> tl_step s s' \<Longrightarrow> tl_reach s0 s'"

text \<open>
  The invariant: an unexpired session holds the lease until it expires, and what it read is what the log
  still holds.
\<close>

definition session_ok :: "tl_state \<Rightarrow> string \<Rightarrow> session \<Rightarrow> bool" where
  "session_ok s h se \<longleftrightarrow> se_acquired se \<le> tl_now s \<and>
     (tl_now s < se_acquired se + LOCK_TTL_MS \<longrightarrow>
       (\<forall>t. tl_now s \<le> t \<and> t < se_acquired se + LOCK_TTL_MS \<longrightarrow> lock_holder (fst (tl_store s)) TENSIONS_LOCK_KEY t = Some h)
       \<and> (\<forall>raw. se_got se = Some (Inr raw) \<longrightarrow> snd (tl_store s) = Some raw))"

definition tl_ok :: "tl_state \<Rightarrow> bool" where
  "tl_ok s \<longleftrightarrow> distinct (jkeys (fst (tl_store s))) \<and> (\<forall>h se. tl_sessions s h = Some se \<longrightarrow> session_ok s h se)"

text \<open>A lease operation of a holder without a session leaves every session's lease alone.\<close>

definition lease_kept :: "lock_table \<Rightarrow> lock_table \<Rightarrow> int \<Rightarrow> string \<Rightarrow> bool" where
  "lease_kept t t' now h \<longleftrightarrow> distinct (jkeys t') \<and> (\<forall>g x. now \<le> x \<longrightarrow> g \<noteq> h \<longrightarrow>
     lock_holder t TENSIONS_LOCK_KEY x = Some g \<longrightarrow> lock_holder t' TENSIONS_LOCK_KEY x = Some g)"

lemma lease_kept_release:
  "distinct (jkeys t) \<Longrightarrow> lease_kept t (fst (releaseLock t TENSIONS_LOCK_KEY h)) now h"
  using file_lease.release_keeps release_distinct by (auto simp: lease_kept_def)

lemma lease_kept_acquire:
  "distinct (jkeys t) \<Longrightarrow> lease_kept t (fst (acquireLock t TENSIONS_LOCK_KEY h now)) now h"
proof -
  assume d: "distinct (jkeys t)"
  have "fst (lock_ok t TENSIONS_LOCK_KEY h now) = fst (acquireLock t TENSIONS_LOCK_KEY h now)"
    by (simp add: lock_ok_def split: prod.split)
  then show ?thesis
    using file_lease.acquire_keeps [OF d, of now _ TENSIONS_LOCK_KEY _ TENSIONS_LOCK_KEY h] acquire_distinct [OF d]
    by (auto simp: lease_kept_def)
qed

lemma lease_kept_trans:
  "lease_kept t t' now h \<Longrightarrow> lease_kept t' t'' now h \<Longrightarrow> lease_kept t t'' now h"
  by (auto simp: lease_kept_def)

lemma lease_kept_refl: "distinct (jkeys t) \<Longrightarrow> lease_kept t t now h"
  by (simp add: lease_kept_def)

text \<open>While another holder's lease lives, an acquire is refused.\<close>

lemma acquire_refused:
  assumes "distinct (jkeys t)" "lock_holder t TENSIONS_LOCK_KEY now = Some g" "g \<noteq> h"
  shows "\<exists>t' e. acquireLock t TENSIONS_LOCK_KEY h now = (t', Inl e)"
  using file_lease.excluded [OF assms] by (auto simp: lock_ok_def split: prod.splits sum.splits)

lemma acquire_granted:
  assumes "distinct (jkeys t)" "acquireLock t TENSIONS_LOCK_KEY h now = (t', Inr row)" "x < now + LOCK_TTL_MS"
  shows "lock_holder t' TENSIONS_LOCK_KEY x = Some h"
  using file_lease.acquired [OF assms(1), of TENSIONS_LOCK_KEY h now x] assms(2,3) by (simp add: lock_ok_def)

lemma add_effect:
  assumes "distinct (jkeys (fst st))" "addTension f h now t st = (st', r)"
  shows "lease_kept (fst st) (fst st') now h"
    and "lock_holder (fst st) TENSIONS_LOCK_KEY now = Some g \<Longrightarrow> g \<noteq> h \<Longrightarrow> snd st' = snd st"
proof -
  let ?a = "acquireLock (fst st) TENSIONS_LOCK_KEY h now"
  have k: "lease_kept (fst st) (fst (releaseLock (fst ?a) TENSIONS_LOCK_KEY h)) now h"
    using lease_kept_trans [OF lease_kept_acquire [OF assms(1)] lease_kept_release [OF acquire_distinct [OF assms(1)]]] .
  show "lease_kept (fst st) (fst st') now h"
    using assms(2) k lease_kept_refl [OF assms(1)]
    by (auto simp: addTension_def split: option.splits if_splits prod.splits sum.splits)
  show "snd st' = snd st" if "lock_holder (fst st) TENSIONS_LOCK_KEY now = Some g" "g \<noteq> h"
    using acquire_refused [OF assms(1) that] assms(2)
    by (auto simp: addTension_def split: option.splits if_splits)
qed

lemma begin_effect:
  assumes "distinct (jkeys (fst st))" "resolve_begin f h now st = (st', r)"
  shows "lease_kept (fst st) (fst st') now h" "snd st' = snd st"
    and "r = Inr row \<Longrightarrow> x < now + LOCK_TTL_MS \<Longrightarrow> lock_holder (fst st') TENSIONS_LOCK_KEY x = Some h"
    and "r = Inr row \<Longrightarrow> lock_holder (fst st) TENSIONS_LOCK_KEY now = Some g \<Longrightarrow> g = h"
proof -
  let ?a = "acquireLock (fst st) TENSIONS_LOCK_KEY h now"
  have k: "lease_kept (fst st) (fst (releaseLock (fst ?a) TENSIONS_LOCK_KEY h)) now h" "lease_kept (fst st) (fst ?a) now h"
    using lease_kept_trans [OF lease_kept_acquire [OF assms(1)] lease_kept_release [OF acquire_distinct [OF assms(1)]]]
      lease_kept_acquire [OF assms(1)] by auto
  show "lease_kept (fst st) (fst st') now h" "snd st' = snd st"
    using assms(2) k lease_kept_refl [OF assms(1)]
    by (auto simp: resolve_begin_def split: if_splits prod.splits sum.splits)
  show "lock_holder (fst st') TENSIONS_LOCK_KEY x = Some h" if "r = Inr row" "x < now + LOCK_TTL_MS"
    using acquire_granted [OF assms(1)] assms(2) that
    by (auto simp: resolve_begin_def split: if_splits prod.splits sum.splits)
  show "g = h" if r: "r = Inr row" and g: "lock_holder (fst st) TENSIONS_LOCK_KEY now = Some g"
  proof (rule ccontr)
    assume "g \<noteq> h"
    then obtain t' e where "acquireLock (fst st) TENSIONS_LOCK_KEY h now = (t', Inl e)"
      using acquire_refused [OF assms(1) g] by blast
    then show False using assms(2) r by (simp add: resolve_begin_def split: if_splits)
  qed
qed

lemma finish_effect:
  "distinct (jkeys (fst st)) \<Longrightarrow> resolve_finish f h i r got st = (st', out) \<Longrightarrow> lease_kept (fst st) (fst st') now h"
  using lease_kept_release [of "fst st" h now]
  by (auto simp: resolve_finish_def Let_def split: sum.splits prod.splits if_splits)

lemma session_kept:
  assumes "session_ok s g se" "lease_kept (fst (tl_store s)) (fst st) (tl_now s) h" "g \<noteq> h"
    and "tl_now s < se_acquired se + LOCK_TTL_MS \<Longrightarrow> snd st = snd (tl_store s)"
  shows "session_ok (s\<lparr>tl_store := st, tl_sessions := m\<rparr>) g se"
  using assms unfolding session_ok_def lease_kept_def by auto

lemma live_holder:
  "session_ok s g se \<Longrightarrow> tl_now s < se_acquired se + LOCK_TTL_MS \<Longrightarrow>
   lock_holder (fst (tl_store s)) TENSIONS_LOCK_KEY (tl_now s) = Some g"
  by (simp add: session_ok_def)

lemma session_store: "session_ok (s\<lparr>tl_store := st, tl_sessions := m\<rparr>) g se = session_ok (s\<lparr>tl_store := st\<rparr>) g se"
  by (simp add: session_ok_def)

lemma tl_ok_step:
  assumes "tl_step s s'" "tl_ok s"
  shows "tl_ok s'"
  using assms
proof cases
  case (tick n)
  have "session_ok (s\<lparr>tl_now := n\<rparr>) h se" if "session_ok s h se" for h se
  proof -
    have "se_acquired se \<le> n" using that tick(2) by (simp add: session_ok_def)
    moreover have "n < se_acquired se + LOCK_TTL_MS \<Longrightarrow> tl_now s < se_acquired se + LOCK_TTL_MS" using tick(2) by linarith
    ultimately show ?thesis using that tick(2) unfolding session_ok_def by auto
  qed
  then show ?thesis using assms(2) by (simp add: tick(1) tl_ok_def)
next
  case (add h f t st r)
  have d: "distinct (jkeys (fst (tl_store s)))" using assms(2) by (simp add: tl_ok_def)
  note eff = add_effect [OF d add(3)]
  have "session_ok (s\<lparr>tl_store := st\<rparr>) g se" if "tl_sessions s g = Some se" for g se
  proof -
    have ok: "session_ok s g se" and ne: "g \<noteq> h" using that assms(2) add(2) by (auto simp: tl_ok_def)
    show ?thesis
      using session_kept [OF ok eff(1) ne, of "tl_sessions s"] eff(2) [OF live_holder [OF ok] ne] by (simp add: session_store)
  qed
  then show ?thesis using eff(1) by (simp add: add(1) tl_ok_def lease_kept_def)
next
  case (refused h f st e)
  have d: "distinct (jkeys (fst (tl_store s)))" using assms(2) by (simp add: tl_ok_def)
  note eff = begin_effect [OF d refused(3)]
  have "session_ok (s\<lparr>tl_store := st\<rparr>) g se" if "tl_sessions s g = Some se" for g se
  proof -
    have ok: "session_ok s g se" and ne: "g \<noteq> h" using that assms(2) refused(2) by (auto simp: tl_ok_def)
    show ?thesis using session_kept [OF ok eff(1) ne eff(2), of "tl_sessions s"] by (simp add: session_store)
  qed
  then show ?thesis using eff(1) by (simp add: refused(1) tl_ok_def lease_kept_def)
next
  case (begin_it h f st row i r)
  have d: "distinct (jkeys (fst (tl_store s)))" using assms(2) by (simp add: tl_ok_def)
  note eff = begin_effect [OF d begin_it(3)]
  have "session_ok (s\<lparr>tl_store := st\<rparr>) g se" if "tl_sessions s g = Some se" for g se
  proof -
    have ok: "session_ok s g se" and ne: "g \<noteq> h" using that assms(2) begin_it(2) by (auto simp: tl_ok_def)
    show ?thesis using session_kept [OF ok eff(1) ne eff(2), of "tl_sessions s"] by (simp add: session_store)
  qed
  moreover have "session_ok (s\<lparr>tl_store := st\<rparr>) h \<lparr>se_id = i, se_resolution = r, se_acquired = tl_now s, se_got = None\<rparr>"
    using eff(3) [OF refl] by (simp add: session_ok_def)
  ultimately show ?thesis using eff(1) by (simp add: begin_it(1) tl_ok_def lease_kept_def session_store)
next
  case (read_it h se f)
  have "session_ok s h se" using assms(2) read_it(2) by (simp add: tl_ok_def)
  then have "session_ok s h (se\<lparr>se_got := Some (resolve_read f (se_id se) (snd (tl_store s)))\<rparr>)"
    by (auto simp: session_ok_def resolve_read_def split: option.splits if_splits)
  then show ?thesis using assms(2) by (auto simp: read_it(1) tl_ok_def session_ok_def)
next
  case (finish_it h se got f st r)
  have d: "distinct (jkeys (fst (tl_store s)))" using assms(2) by (simp add: tl_ok_def)
  note eff = finish_effect [OF d finish_it(5)]
  have "session_ok (s\<lparr>tl_store := st\<rparr>) g se'" if g: "tl_sessions s g = Some se'" "g \<noteq> h" for g se'
  proof -
    have ok: "session_ok s g se'" "session_ok s h se" using g finish_it(2) assms(2) by (auto simp: tl_ok_def)
    have "\<not> tl_now s < se_acquired se' + LOCK_TTL_MS"
      using live_holder [OF ok(1)] live_holder [OF ok(2) finish_it(4)] g(2) by auto
    then show ?thesis using session_kept [OF ok(1) eff g(2), of "tl_sessions s"] by (simp add: session_store)
  qed
  then show ?thesis using eff by (simp add: finish_it(1) tl_ok_def lease_kept_def session_store)
next
  case (die h)
  then show ?thesis using assms(2) by (auto simp: tl_ok_def session_ok_def)
qed

lemma tl_ok_reach:
  assumes "tl_reach s0 s" "tl_ok s0"
  shows "tl_ok s"
  using assms by induction (auto intro: tl_ok_step)


definition demo_state :: "string option \<Rightarrow> tl_state" where
  "demo_state logf = \<lparr>tl_store = ([], logf), tl_now = 0, tl_sessions = (\<lambda>_. None)\<rparr>"


end
