(* ===== verification/TensionClusters.thy ===== *)
theory TensionClusters
  imports TensionLog SupersedeChains
begin

text \<open>
  The clusters of the tension graph, \<^verbatim>\<open>src/src/curation/tension-clusters.ts\<close>: a union-find over a
  \<^verbatim>\<open>Map\<close> from node to parent, with path compression. Its two loops follow parent pointers and are
  partial functions: a result \<open>None\<close> stands for a loop that never ends (or, for \<open>ufRoot\<close>, for a
  pointer to a node that has no entry). The lemmas show that every map the program builds has a
  height that falls along the pointers, so that all results are \<open>Some\<close>. The hash of
  \<^verbatim>\<open>node:crypto\<close> is the parameter \<open>sha256\<close>, from text to hexadecimal digest.
\<close>

section \<open>Loops that may not return\<close>

fun opt_fold :: "('s \<Rightarrow> 'a \<Rightarrow> 's option) \<Rightarrow> 's \<Rightarrow> 'a list \<Rightarrow> 's option" where
  "opt_fold f s [] = Some s"
| "opt_fold f s (x # xs) = (case f s x of None \<Rightarrow> None | Some s' \<Rightarrow> opt_fold f s' xs)"

lemma opt_fold_snoc:
  "opt_fold f s (xs @ [x]) = (case opt_fold f s xs of None \<Rightarrow> None | Some s' \<Rightarrow> f s' x)"
  by (induction xs arbitrary: s) (auto split: option.splits)

section \<open>Union-find\<close>

partial_function (option) ufRoot :: "('k, 'k) jmap \<Rightarrow> 'k \<Rightarrow> 'k option" where
  "ufRoot parent node =
     (case map_of parent node of
        None \<Rightarrow> None
      | Some p \<Rightarrow> if p = node then Some node else ufRoot parent p)"

partial_function (option) ufCompress :: "('k, 'k) jmap \<Rightarrow> 'k \<Rightarrow> 'k \<Rightarrow> ('k, 'k) jmap option" where
  "ufCompress parent node cur =
     (case map_of parent cur of
        None \<Rightarrow> None
      | Some nxt \<Rightarrow> if nxt = node then Some parent else ufCompress (AList.update cur node parent) node nxt)"

declare ufRoot.simps [code] ufCompress.simps [code]

definition ufFind :: "('k, 'k) jmap \<Rightarrow> 'k \<Rightarrow> (('k, 'k) jmap \<times> 'k) option" where
  "ufFind parent x =
     (if map_of parent x = None then Some (AList.update x x parent, x)
      else case ufRoot parent x of
        None \<Rightarrow> None
      | Some node \<Rightarrow> (case ufCompress parent node x of None \<Rightarrow> None | Some parent' \<Rightarrow> Some (parent', node)))"

definition ufUnion :: "('k, 'k) jmap \<Rightarrow> 'k \<Rightarrow> 'k \<Rightarrow> ('k, 'k) jmap option" where
  "ufUnion parent a b =
     (case ufFind parent a of
        None \<Rightarrow> None
      | Some (p1, ra) \<Rightarrow>
          (case ufFind p1 b of
             None \<Rightarrow> None
           | Some (p2, rb) \<Rightarrow> Some (if ra \<noteq> rb then AList.update ra rb p2 else p2)))"

text \<open>
  The invariant: \<open>R\<close> names the root of every node (a node without an entry is its own), and the
  height \<open>d\<close> falls along every pointer that is not a root's own.
\<close>

definition uf_step :: "('k \<Rightarrow> nat) \<Rightarrow> ('k \<Rightarrow> 'k) \<Rightarrow> ('k, 'k) jmap \<Rightarrow> 'k \<Rightarrow> 'k \<Rightarrow> bool" where
  "uf_step d R m x p \<longleftrightarrow> map_of m p \<noteq> None \<and> R p = R x \<and> (p = x \<and> R x = x \<or> p \<noteq> x \<and> d p < d x)"

definition uf_heights :: "('k \<Rightarrow> nat) \<Rightarrow> ('k \<Rightarrow> 'k) \<Rightarrow> ('k, 'k) jmap \<Rightarrow> bool" where
  "uf_heights d R m \<longleftrightarrow>
     (\<forall>x. case map_of m x of None \<Rightarrow> R x = x | Some p \<Rightarrow> uf_step d R m x p)"

definition uf_inv :: "('k, 'k) jmap \<Rightarrow> ('k \<Rightarrow> 'k) \<Rightarrow> bool" where
  "uf_inv m R \<longleftrightarrow> (\<exists>d. uf_heights d R m)"

lemma uf_heightsD:
  assumes "uf_heights d R m"
  shows "map_of m x = None \<Longrightarrow> R x = x"
    and "map_of m x = Some p \<Longrightarrow> uf_step d R m x p"
  using assms unfolding uf_heights_def by (metis option.simps(4), metis option.simps(5))

lemma uf_heightsI:
  "(\<And>x. map_of m x = None \<Longrightarrow> R x = x) \<Longrightarrow> (\<And>x p. map_of m x = Some p \<Longrightarrow> uf_step d R m x p) \<Longrightarrow> uf_heights d R m"
  by (auto simp: uf_heights_def split: option.split)

lemma ufRoot_root:
  assumes "uf_heights d R m" and "map_of m x = Some q"
  shows "ufRoot m x = Some (R x) \<and> map_of m (R x) = Some (R x) \<and> d (R x) \<le> d x"
  using assms(2)
proof (induction "d x" arbitrary: x q rule: less_induct)
  case less
  have step: "uf_step d R m x q" using uf_heightsD(2) [OF assms(1) less.prems] .
  show ?case
  proof (cases "q = x")
    case True
    then show ?thesis using less.prems step by (subst ufRoot.simps) (simp add: uf_step_def)
  next
    case False
    with step obtain q' where q': "map_of m q = Some q'" "d q < d x" "R q = R x"
      by (auto simp: uf_step_def)
    from less.hyps [OF q'(2,1)] show ?thesis
      using less.prems q' False by (subst ufRoot.simps) simp
  qed
qed

lemma root_idem: "uf_heights d R m \<Longrightarrow> R (R x) = R x"
proof (cases "map_of m x")
  case (Some q)
  assume h: "uf_heights d R m"
  then have "map_of m (R x) = Some (R x)" using ufRoot_root [OF h Some] by simp
  from uf_heightsD(2) [OF h this] show ?thesis by (simp add: uf_step_def)
qed (simp add: uf_heightsD)

lemma root_lower:
  assumes "uf_heights d R m" and "map_of m x = Some p" and "p \<noteq> x"
  shows "d (R x) < d x"
proof -
  obtain q where "map_of m p = Some q" "d p < d x" "R p = R x"
    using uf_heightsD(2) [OF assms(1,2)] assms(3) by (auto simp: uf_step_def)
  then show ?thesis using ufRoot_root [OF assms(1), of p q] by simp
qed

lemma heights_compress:
  assumes "uf_heights d R m" and "map_of m x = Some p" and "p \<noteq> x"
  shows "uf_heights d R (AList.update x (R x) m)"
proof (rule uf_heightsI)
  fix y assume "map_of (AList.update x (R x) m) y = None"
  then show "R y = y" using uf_heightsD(1) [OF assms(1), of y] by (simp split: if_splits)
next
  fix y q assume y: "map_of (AList.update x (R x) m) y = Some q"
  show "uf_step d R (AList.update x (R x) m) y q"
  proof (cases "y = x")
    case True
    then have "q = R x" using y by simp
    then show ?thesis
      using True root_lower [OF assms] root_idem [OF assms(1), of x] ufRoot_root [OF assms(1,2)]
      by (auto simp: uf_step_def)
  next
    case False
    then show ?thesis using y uf_heightsD(2) [OF assms(1), of y q] by (simp add: uf_step_def)
  qed
qed

lemma ufCompress_keeps:
  assumes "uf_heights d R m" and "map_of m x = Some p"
  shows "\<exists>m'. ufCompress m (R x) x = Some m' \<and> uf_heights d R m' \<and> jkeys m' = jkeys m"
  using assms
proof (induction "d x" arbitrary: x p m rule: less_induct)
  case less
  note step = uf_heightsD(2) [OF less.prems]
  show ?case
  proof (cases "p = R x")
    case True
    then show ?thesis using less.prems by (subst ufCompress.simps) simp
  next
    case False
    then have ne: "p \<noteq> x" using step by (auto simp: uf_step_def)
    then obtain q where q: "map_of m p = Some q" "d p < d x" "R p = R x"
      using step by (auto simp: uf_step_def)
    let ?m = "AList.update x (R x) m"
    have "x \<in> set (jkeys m)" using less.prems(2) by (force dest: map_of_SomeD)
    then have keys: "jkeys ?m = jkeys m" by (simp only: jkeys_update if_True)
    have "map_of ?m p = Some q" using q(1) ne by simp
    from less.hyps [OF q(2) heights_compress [OF less.prems ne] this] q(3) keys
    show ?thesis using less.prems(2) False by (subst ufCompress.simps) simp
  qed
qed

lemma heights_new:
  assumes "uf_heights d R m" and "map_of m x = None"
  shows "uf_heights d R (AList.update x x m)"
proof (rule uf_heightsI)
  fix y p assume "map_of (AList.update x x m) y = Some p"
  then show "uf_step d R (AList.update x x m) y p"
    using uf_heightsD [OF assms(1)] assms(2) by (cases "y = x") (auto simp: uf_step_def)
qed (use uf_heightsD(1) [OF assms(1)] in \<open>auto split: if_splits\<close>)

lemma ufFind_root:
  assumes "uf_inv m R"
  shows "\<exists>m'. ufFind m x = Some (m', R x) \<and> uf_inv m' R
    \<and> jkeys m' = (if map_of m x = None then jkeys m @ [x] else jkeys m)"
proof -
  obtain d where d: "uf_heights d R m" using assms by (auto simp: uf_inv_def)
  show ?thesis
  proof (cases "map_of m x")
    case (Some p)
    then obtain m' where "ufCompress m (R x) x = Some m'" "uf_heights d R m'" "jkeys m' = jkeys m"
      using ufCompress_keeps [OF d] by blast
    then show ?thesis using Some ufRoot_root [OF d Some] by (auto simp: ufFind_def uf_inv_def)
  next
    case None
    then have "x \<notin> set (jkeys m)" by (simp add: map_of_eq_None_iff)
    then have "jkeys (AList.update x x m) = jkeys m @ [x]" by (simp only: jkeys_update if_False)
    then show ?thesis
      using heights_new [OF d None] uf_heightsD(1) [OF d None] None by (auto simp: ufFind_def uf_inv_def)
  qed
qed

lemma ufFind_result:
  assumes "uf_inv m R"
  obtains m' where "ufFind m x = Some (m', R x)" "uf_inv m' R"
    "dom (map_of m') = insert x (dom (map_of m))" "map_of m x \<noteq> None \<Longrightarrow> jkeys m' = jkeys m"
proof -
  obtain m' where m': "ufFind m x = Some (m', R x)" "uf_inv m' R"
    "jkeys m' = (if map_of m x = None then jkeys m @ [x] else jkeys m)"
    using ufFind_root [OF assms] by blast
  have "dom (map_of m') = insert x (dom (map_of m))"
    using arg_cong [OF m'(3), of set]
    by (auto simp: dom_map_of_conv_image_fst [symmetric] simp del: not_None_eq split: if_splits)
  then show ?thesis using m'(3) by (intro that [OF m'(1,2)]) auto
qed

definition merge_roots :: "('k \<Rightarrow> 'k) \<Rightarrow> 'k \<Rightarrow> 'k \<Rightarrow> 'k \<Rightarrow> 'k" where
  "merge_roots R a b z = (if R z = R a then R b else R z)"

lemma heights_link:
  assumes h: "uf_heights d R m" and a: "map_of m (R a) = Some (R a)" and b: "map_of m (R b) = Some (R b)"
    and ne: "R a \<noteq> R b"
  shows "uf_inv (AList.update (R a) (R b) m) (merge_roots R a b)"
proof -
  let ?d = "\<lambda>z. if R z = R a then d z + d (R b) + 1 else d z"
  note idem = root_idem [OF h]
  have "uf_heights ?d (merge_roots R a b) (AList.update (R a) (R b) m)"
  proof (rule uf_heightsI)
    fix y assume "map_of (AList.update (R a) (R b) m) y = None"
    then have "map_of m y = None" "y \<noteq> R a" by (auto split: if_splits)
    then show "merge_roots R a b y = y" using uf_heightsD(1) [OF h, of y] by (simp add: merge_roots_def)
  next
    fix y p assume y: "map_of (AList.update (R a) (R b) m) y = Some p"
    show "uf_step ?d (merge_roots R a b) (AList.update (R a) (R b) m) y p"
    proof (cases "y = R a")
      case True
      then show ?thesis using y idem [of a] idem [of b] ne b by (auto simp: uf_step_def merge_roots_def)
    next
      case False
      then have "map_of m y = Some p" using y by simp
      from uf_heightsD(2) [OF h this] False show ?thesis
        by (auto simp: uf_step_def merge_roots_def)
    qed
  qed
  then show ?thesis by (auto simp: uf_inv_def)
qed

lemma ufUnion_merges:
  assumes "uf_inv m R"
  shows "\<exists>m'. ufUnion m a b = Some m' \<and> uf_inv m' (merge_roots R a b) \<and> dom (map_of m') = {a, b} \<union> dom (map_of m)"
proof -
  obtain m1 where m1: "ufFind m a = Some (m1, R a)" "uf_inv m1 R" "dom (map_of m1) = insert a (dom (map_of m))"
    by (rule ufFind_result [OF assms])
  obtain m2 where m2: "ufFind m1 b = Some (m2, R b)" "uf_inv m2 R" "dom (map_of m2) = insert b (dom (map_of m1))"
    by (rule ufFind_result [OF m1(2)])
  obtain d where d: "uf_heights d R m2" using m2(2) by (auto simp: uf_inv_def)
  have root: "map_of m2 (R x) = Some (R x)" if "x \<in> {a, b}" for x
    using that m2(3) m1(3) ufRoot_root [OF d] by blast
  show ?thesis
  proof (cases "R a = R b")
    case True
    then have "merge_roots R a b = R" by (auto simp: merge_roots_def)
    then show ?thesis using m1 m2 True by (auto simp: ufUnion_def)
  next
    case False
    have "R a \<in> dom (map_of m2)" using root [of a] by auto
    then have "dom (map_of (AList.update (R a) (R b) m2)) = {a, b} \<union> dom (map_of m)"
      using m1(3) m2(3) by auto
    then show ?thesis
      using heights_link [OF d root root False] m1(1) m2(1) False by (auto simp: ufUnion_def)
  qed
qed

lemma uf_inv_empty: "uf_inv [] (\<lambda>x. x)"
  by (simp add: uf_inv_def uf_heights_def)

text \<open>
  The interface of a partition: a store that represents an assignment of roots, and an operation
  that merges the classes of two elements. Its client merges the ends of a list of edges; the
  classes it ends with are the connected components.
\<close>

definition joined :: "('k \<times> 'k) set \<Rightarrow> ('k \<times> 'k) set" where
  "joined E = (E \<union> E\<inverse>)\<^sup>*"

lemma joined_sym: "(x, y) \<in> joined E \<longleftrightarrow> (y, x) \<in> joined E"
proof -
  have "sym (joined E)" unfolding joined_def by (intro sym_rtrancl) (auto simp: sym_def)
  then show ?thesis by (meson symD)
qed

lemma joined_trans: "(x, y) \<in> joined E \<Longrightarrow> (y, z) \<in> joined E \<Longrightarrow> (x, z) \<in> joined E"
  unfolding joined_def by (rule rtrancl_trans)

lemma joined_mono: "E \<subseteq> F \<Longrightarrow> joined E \<subseteq> joined F"
  unfolding joined_def by (intro rtrancl_mono) auto

lemma merge_joined:
  assumes "\<forall>x y. R x = R y \<longleftrightarrow> (x, y) \<in> joined E"
  shows "merge_roots R a b x = merge_roots R a b y \<longleftrightarrow> (x, y) \<in> joined (insert (a, b) E)"
proof
  let ?J = "joined (insert (a, b) E)"
  have ab: "(a, b) \<in> ?J" and ba: "(b, a) \<in> ?J" by (auto simp: joined_def)
  have old: "(u, v) \<in> ?J" if "R u = R v" for u v
    using that assms joined_mono [of E "insert (a, b) E"] by auto
  assume "merge_roots R a b x = merge_roots R a b y"
  then consider "R x = R y" | "R x = R a" "R b = R y" | "R x = R b" "R a = R y"
    by (auto simp: merge_roots_def split: if_splits)
  then show "(x, y) \<in> ?J"
    using old ab ba by cases (blast intro: joined_trans)+
next
  let ?M = "merge_roots R a b"
  have edge: "?M u = ?M v" if "(u, v) \<in> insert (a, b) E \<union> (insert (a, b) E)\<inverse>" for u v
  proof -
    have "(u, v) \<in> E \<or> (v, u) \<in> E \<Longrightarrow> R u = R v"
      using assms by (auto simp: joined_def)
    then show ?thesis using that by (auto simp: merge_roots_def)
  qed
  assume "(x, y) \<in> joined (insert (a, b) E)"
  then show "?M x = ?M y" unfolding joined_def 
  proof (induction rule: rtrancl_induct)
    case (step u v)
    from edge [OF step(2)] step(3) show ?case by simp
  qed simp
qed

locale partition_store =
  fixes represents :: "'m \<Rightarrow> ('k \<Rightarrow> 'k) \<Rightarrow> bool"
    and members :: "'m \<Rightarrow> 'k set"
    and unite :: "'m \<Rightarrow> 'k \<Rightarrow> 'k \<Rightarrow> 'm option"
  assumes unite_merges: "represents m R \<Longrightarrow>
    \<exists>m'. unite m a b = Some m' \<and> represents m' (merge_roots R a b) \<and> members m' = {a, b} \<union> members m"
begin

lemma unite_all:
  assumes "represents m R" and "\<forall>x y. R x = R y \<longleftrightarrow> (x, y) \<in> joined E"
  shows "\<exists>m' R'. opt_fold (\<lambda>m e. unite m (f e) (g e)) m es = Some m' \<and> represents m' R'
    \<and> members m' = f ` set es \<union> g ` set es \<union> members m
    \<and> (\<forall>x y. R' x = R' y \<longleftrightarrow> (x, y) \<in> joined ((\<lambda>e. (f e, g e)) ` set es \<union> E))"
  using assms
proof (induction es arbitrary: m R E)
  case Nil
  then show ?case by auto
next
  case (Cons e es)
  obtain m1 where m1: "unite m (f e) (g e) = Some m1" "represents m1 (merge_roots R (f e) (g e))"
    "members m1 = {f e, g e} \<union> members m"
    using unite_merges [OF Cons.prems(1)] by blast
  have "\<forall>x y. merge_roots R (f e) (g e) x = merge_roots R (f e) (g e) y
      \<longleftrightarrow> (x, y) \<in> joined (insert (f e, g e) E)"
    using merge_joined [OF Cons.prems(2)] by blast
  from Cons.IH [OF m1(2) this] m1 show ?case by (auto simp: insert_commute Un_assoc)
qed

end

interpretation uf: partition_store uf_inv "\<lambda>m. dom (map_of m)" ufUnion
  by unfold_locales (rule ufUnion_merges)

section \<open>Clusters\<close>

record tension_cluster =
  tc_id :: string
  tc_size :: nat
  tc_documents :: "string list"
  tc_tension_count :: nat
  tc_kinds :: "(tension_kind, nat) jmap"
  tc_oldest :: int
  tc_newest :: int

record tension_clusters_result =
  tcr_cluster_count :: nat
  tcr_clusters :: "tension_cluster list"

definition inScope :: "tension_entry \<Rightarrow> bool" where
  "inScope entry =
     (if te_resolved entry then False
      else if (case te_resolution entry of Some r \<Rightarrow> tr_kind r = ResAccepted | None \<Rightarrow> False) then False
      else if te_sourceA entry = te_sourceB entry then False
      else if te_sourceA entry = [] \<or> te_sourceB entry = [] then False
      else True)"

definition clusterIdFor :: "(string \<Rightarrow> string) \<Rightarrow> string list \<Rightarrow> string" where
  "clusterIdFor sha256 sortedMembers = ''cluster:'' @ take 8 (sha256 (join_with [nl] sortedMembers))"

text \<open>The three loops over the scoped tensions and over the documents of the union-find map.\<close>

definition unite_tensions :: "tension_entry list \<Rightarrow> (string, string) jmap option" where
  "unite_tensions scoped = opt_fold (\<lambda>parent t. ufUnion parent (te_sourceA t) (te_sourceB t)) [] scoped"

definition group_doc ::
    "(string, string) jmap \<times> (string, string list) jmap \<Rightarrow> string \<Rightarrow> ((string, string) jmap \<times> (string, string list) jmap) option" where
  "group_doc st doc =
     (case ufFind (fst st) doc of
        None \<Rightarrow> None
      | Some (parent, r) \<Rightarrow>
          (let docs = (case map_of (snd st) r of None \<Rightarrow> [] | Some ds \<Rightarrow> ds)
           in Some (parent, AList.update r (if doc \<in> set docs then docs else docs @ [doc]) (snd st))))"

definition group_tension ::
    "(string, string) jmap \<times> (string, tension_entry list) jmap \<Rightarrow> tension_entry
     \<Rightarrow> ((string, string) jmap \<times> (string, tension_entry list) jmap) option" where
  "group_tension st t =
     (case ufFind (fst st) (te_sourceA t) of
        None \<Rightarrow> None
      | Some (p1, r) \<Rightarrow>
          (case ufFind p1 (te_sourceB t) of
             None \<Rightarrow> None
           | Some (p2, other) \<Rightarrow>
               if r \<noteq> other then Some (p2, snd st)
               else (let ts = (case map_of (snd st) r of None \<Rightarrow> [] | Some ts \<Rightarrow> ts)
                     in Some (p2, AList.update r (ts @ [t]) (snd st)))))"

definition count_kind :: "(tension_kind, nat) jmap \<Rightarrow> tension_kind \<Rightarrow> (tension_kind, nat) jmap" where
  "count_kind kinds k =
     (case map_of kinds k of None \<Rightarrow> kinds | Some n \<Rightarrow> AList.update k (n + 1) kinds)"

text \<open>The ages: the oldest starts at 0, the newest at infinity, which is \<open>None\<close>.\<close>

definition age_step :: "int \<Rightarrow> int \<times> int option \<Rightarrow> tension_entry \<Rightarrow> int \<times> int option" where
  "age_step now st t =
     (let age = ageInDays (te_date t) now
      in (if age > fst st then age else fst st,
          case snd st of None \<Rightarrow> Some age | Some n \<Rightarrow> Some (if age < n then age else n)))"

definition cluster_of ::
    "(string \<Rightarrow> string) \<Rightarrow> int \<Rightarrow> (string, tension_entry list) jmap \<Rightarrow> string \<times> string list \<Rightarrow> tension_cluster" where
  "cluster_of sha256 now tensionsByRoot e =
     (let members = js_sort string_order (snd e);
          ts = (case map_of tensionsByRoot (fst e) of None \<Rightarrow> [] | Some ts \<Rightarrow> ts);
          ages = foldl (age_step now) (0, None) ts
      in \<lparr>tc_id = clusterIdFor sha256 members, tc_size = length members, tc_documents = members,
          tc_tension_count = length ts,
          tc_kinds = foldl (\<lambda>m t. count_kind m (te_kind t)) (map (\<lambda>k. (k, 0)) TENSION_KINDS) ts,
          tc_oldest = fst ages, tc_newest = (case snd ages of None \<Rightarrow> 0 | Some n \<Rightarrow> n)\<rparr>)"

definition compareClusters :: "tension_cluster \<Rightarrow> tension_cluster \<Rightarrow> int" where
  "compareClusters a b =
     (if tc_size b \<noteq> tc_size a then int (tc_size b) - int (tc_size a)
      else if tc_id a < tc_id b then - 1 else if tc_id a > tc_id b then 1 else 0)"

definition computeTensionClusters ::
    "(string \<Rightarrow> string) \<Rightarrow> tension_entry list \<Rightarrow> int \<Rightarrow> tension_clusters_result option" where
  "computeTensionClusters sha256 tensions now =
     (let scoped = filter inScope tensions
      in if scoped = [] then Some \<lparr>tcr_cluster_count = 0, tcr_clusters = []\<rparr>
         else case unite_tensions scoped of
           None \<Rightarrow> None
         | Some parent \<Rightarrow>
             (case opt_fold group_doc (parent, []) (jkeys parent) of
                None \<Rightarrow> None
              | Some (parent1, docsByRoot) \<Rightarrow>
                  (case opt_fold group_tension (parent1, []) scoped of
                     None \<Rightarrow> None
                   | Some (_, tensionsByRoot) \<Rightarrow>
                       (let clusters = js_sort compareClusters (map (cluster_of sha256 now tensionsByRoot) docsByRoot)
                        in Some \<lparr>tcr_cluster_count = length clusters, tcr_clusters = clusters\<rparr>))))"

definition loadTensionClusters ::
    "(string \<Rightarrow> string) \<Rightarrow> (tension_entry list \<Rightarrow> tension_entry list) \<Rightarrow> bool \<Rightarrow> string option \<Rightarrow> int
     \<Rightarrow> (tension_error + tension_clusters_result) option" where
  "loadTensionClusters sha256 entryFilter fault logf now =
     (case listTensions fault None logf of
        Inl e \<Rightarrow> Some (Inl e)
      | Inr ts \<Rightarrow> map_option Inr (computeTensionClusters sha256 (entryFilter ts) now))"

section \<open>Clusters are the connected components\<close>

definition tension_edges :: "tension_entry list \<Rightarrow> (string \<times> string) set" where
  "tension_edges ts = (\<lambda>t. (te_sourceA t, te_sourceB t)) ` set (filter inScope ts)"

lemma unite_tensions_components:
  obtains m R where "unite_tensions (filter inScope ts) = Some m" "uf_inv m R"
    "dom (map_of m) = te_sourceA ` set (filter inScope ts) \<union> te_sourceB ` set (filter inScope ts)"
    "\<forall>x y. R x = R y \<longleftrightarrow> (x, y) \<in> joined (tension_edges ts)"
proof -
  have "\<forall>x y. x = y \<longleftrightarrow> (x, y) \<in> joined {}" by (simp add: joined_def)
  from uf.unite_all [OF uf_inv_empty this, of te_sourceA te_sourceB "filter inScope ts"] show thesis
    by (elim exE conjE) (rule that, simp_all add: unite_tensions_def tension_edges_def)
qed

lemma group_doc_step:
  assumes "uf_inv p R" and "map_of p d \<noteq> None"
  obtains p' where "group_doc (p, m) d = Some (p', AList.update (R d)
      (let docs = (case map_of m (R d) of None \<Rightarrow> [] | Some ds \<Rightarrow> ds) in if d \<in> set docs then docs else docs @ [d]) m)"
    "uf_inv p' R" "dom (map_of p') = dom (map_of p)"
proof -
  obtain p' where "ufFind p d = Some (p', R d)" "uf_inv p' R" "dom (map_of p') = insert d (dom (map_of p))"
    by (rule ufFind_result [OF assms(1)])
  then have p': "ufFind p d = Some (p', R d)" "uf_inv p' R" "dom (map_of p') = dom (map_of p)"
    using assms(2) by auto
  show thesis by (rule that [OF _ p'(2,3)]) (simp add: group_doc_def p'(1) Let_def)
qed

definition grouped :: "('a list \<Rightarrow> 'a list) \<Rightarrow> ('a \<Rightarrow> 'k) \<Rightarrow> 'a list \<Rightarrow> ('k, 'a list) jmap \<Rightarrow> bool" where
  "grouped f key xs m \<longleftrightarrow> distinct (jkeys m) \<and>
     (\<forall>r. map_of m r = (case filter (\<lambda>x. key x = r) xs of [] \<Rightarrow> None | ys \<Rightarrow> Some (f ys)))"

lemma groupedD: "grouped f key xs m \<Longrightarrow>
    map_of m r = (if filter (\<lambda>x. key x = r) xs = [] then None else Some (f (filter (\<lambda>x. key x = r) xs)))"
  by (auto simp: grouped_def split: list.split)

lemma grouped_snoc:
  assumes "grouped f key xs m" and "f [] = []" and "\<And>ys. f (ys @ [x]) = g (f ys) x"
  shows "grouped f key (xs @ [x])
    (AList.update (key x) (g (case map_of m (key x) of None \<Rightarrow> [] | Some ys \<Rightarrow> ys) x) m)"
proof -
  let ?F = "\<lambda>r. filter (\<lambda>x. key x = r) xs"
  have "(case map_of m (key x) of None \<Rightarrow> [] | Some ys \<Rightarrow> ys) = f (?F (key x))"
    using groupedD [OF assms(1), of "key x"] assms(2) by simp
  moreover have "distinct (jkeys m)" using assms(1) by (simp add: grouped_def)
  moreover have "f (ys @ [x]) = g (f ys) x" for ys by (rule assms(3))
  then have "f [x] = g [] x" "f (y # ys @ [x]) = g (f (y # ys)) x" for y ys
    using assms(2) append_Nil append_Cons by metis+
  ultimately show ?thesis
    using groupedD [OF assms(1)] by (auto simp: grouped_def distinct_update split: list.split)
qed

lemma group_docs:
  assumes "uf_inv p R" and "set docs \<subseteq> dom (map_of p)"
  shows "\<exists>p' m. opt_fold group_doc (p, []) docs = Some (p', m) \<and> uf_inv p' R
    \<and> dom (map_of p') = dom (map_of p) \<and> grouped remdups_first R docs m"
  using assms(2)
proof (induction docs rule: rev_induct)
  case Nil
  then show ?case using assms(1) by (simp add: grouped_def)
next
  case (snoc d docs)
  then obtain p1 m1 where 1: "opt_fold group_doc (p, []) docs = Some (p1, m1)" "uf_inv p1 R"
    "dom (map_of p1) = dom (map_of p)" "grouped remdups_first R docs m1" by auto
  have "map_of p1 d \<noteq> None" using snoc.prems 1(3) by auto
  from group_doc_step [OF 1(2) this] obtain p' where p': "group_doc (p1, m1) d = Some (p', AList.update (R d)
      (let docs = (case map_of m1 (R d) of None \<Rightarrow> [] | Some ds \<Rightarrow> ds) in if d \<in> set docs then docs else docs @ [d]) m1)"
    "uf_inv p' R" "dom (map_of p') = dom (map_of p1)" by metis
  have "grouped remdups_first R (docs @ [d]) (AList.update (R d)
      (let docs = (case map_of m1 (R d) of None \<Rightarrow> [] | Some ds \<Rightarrow> ds) in if d \<in> set docs then docs else docs @ [d]) m1)"
    using grouped_snoc [OF 1(4), of d "\<lambda>ds d. if d \<in> set ds then ds else ds @ [d]"] by (simp add: Let_def)
  then show ?case using 1 p' by (simp add: opt_fold_snoc)
qed

lemma group_tensions:
  assumes "uf_inv p R" and "\<forall>t \<in> set ts. R (te_sourceA t) = R (te_sourceB t)"
  shows "\<exists>p' m. opt_fold group_tension (p, []) ts = Some (p', m) \<and> uf_inv p' R
    \<and> grouped (\<lambda>x. x) (\<lambda>t. R (te_sourceA t)) ts m"
  using assms(2)
proof (induction ts rule: rev_induct)
  case Nil
  then show ?case using assms(1) by (simp add: grouped_def)
next
  case (snoc t ts)
  then obtain p1 m1 where 1: "opt_fold group_tension (p, []) ts = Some (p1, m1)" "uf_inv p1 R"
    "grouped (\<lambda>x. x) (\<lambda>t. R (te_sourceA t)) ts m1" by auto
  obtain p2 where 2: "ufFind p1 (te_sourceA t) = Some (p2, R (te_sourceA t))" "uf_inv p2 R"
    by (rule ufFind_result [OF 1(2)])
  obtain p3 where 3: "ufFind p2 (te_sourceB t) = Some (p3, R (te_sourceB t))" "uf_inv p3 R"
    by (rule ufFind_result [OF 2(2)])
  have "group_tension (p1, m1) t = Some (p3, AList.update (R (te_sourceA t))
      ((case map_of m1 (R (te_sourceA t)) of None \<Rightarrow> [] | Some ts \<Rightarrow> ts) @ [t]) m1)"
    using 2 3 snoc.prems by (simp add: group_tension_def Let_def)
  then show ?case
    using 1 3 grouped_snoc [OF 1(3), of t "\<lambda>ts t. ts @ [t]"] by (simp add: opt_fold_snoc)
qed

lemma mset_concat_sort: "mset (concat (map f (js_sort c xs))) = mset (concat (map f xs))"
proof -
  have "mset (concat (map f xs)) = (\<Sum>x \<in># mset xs. mset (f x))" for xs
    by (induction xs) auto
  then show ?thesis by simp
qed

lemma distinct_groups:
  assumes "distinct (jkeys m)" and "\<And>r ds. (r, ds) \<in> set m \<Longrightarrow> distinct ds \<and> (\<forall>d \<in> set ds. R d = r)"
  shows "distinct (concat (map snd m))"
  using assms
proof (induction m)
  case (Cons e m)
  obtain r ds where e: "e = (r, ds)" by (cases e)
  have "distinct (concat (map snd m))" using Cons by auto
  moreover have "\<And>d. d \<in> set ds \<Longrightarrow> R d = r" "distinct ds" using Cons.prems(2) e by auto
  moreover have "\<And>r' ds' d. (r', ds') \<in> set m \<Longrightarrow> d \<in> set ds' \<Longrightarrow> R d = r' \<and> r' \<noteq> r"
    using Cons.prems e by (auto intro: rev_image_eqI)
  ultimately show ?case using e by (fastforce simp: disjoint_iff)
qed simp

lemma grouped_entry: "grouped f key xs m \<Longrightarrow> (r, ys) \<in> set m \<longleftrightarrow> map_of m r = Some ys"
  by (metis grouped_def map_of_eq_Some_iff)

lemma scoped_result:
  assumes "filter inScope ts \<noteq> []"
  obtains ks R dbr tbr where
    "computeTensionClusters sha ts now = Some \<lparr>tcr_cluster_count = length dbr,
       tcr_clusters = js_sort compareClusters (map (cluster_of sha now tbr) dbr)\<rparr>"
    "\<forall>x y. R x = R y \<longleftrightarrow> (x, y) \<in> joined (tension_edges ts)"
    "set ks = Field (tension_edges ts)"
    "grouped remdups_first R ks dbr"
    "grouped (\<lambda>x. x) (\<lambda>t. R (te_sourceA t)) (filter inScope ts) tbr"
proof -
  let ?s = "filter inScope ts"
  obtain m R where m: "unite_tensions ?s = Some m" "uf_inv m R"
    "dom (map_of m) = te_sourceA ` set ?s \<union> te_sourceB ` set ?s"
    "\<forall>x y. R x = R y \<longleftrightarrow> (x, y) \<in> joined (tension_edges ts)"
    by (rule unite_tensions_components)
  have "set (jkeys m) \<subseteq> dom (map_of m)" by (simp add: dom_map_of_conv_image_fst)
  from group_docs [OF m(2) this] obtain m1 dbr where
    dbr: "opt_fold group_doc (m, []) (jkeys m) = Some (m1, dbr)" "uf_inv m1 R" "grouped remdups_first R (jkeys m) dbr"
    by blast
  have "\<forall>t \<in> set ?s. R (te_sourceA t) = R (te_sourceB t)"
    using m(4) by (auto simp: joined_def tension_edges_def)
  from group_tensions [OF dbr(2) this] obtain m2 tbr where
    tbr: "opt_fold group_tension (m1, []) ?s = Some (m2, tbr)" "grouped (\<lambda>x. x) (\<lambda>t. R (te_sourceA t)) ?s tbr"
    by blast
  have "set (jkeys m) = Field (tension_edges ts)"
    using m(3) by (auto simp: tension_edges_def Field_def dom_map_of_conv_image_fst)
  then show thesis
    using assms m dbr tbr by (intro that [of dbr tbr R "jkeys m"]) (auto simp: computeTensionClusters_def Let_def)
qed

lemma cluster_fields [simp]:
  "tc_documents (cluster_of sha now tbr e) = js_sort string_order (snd e)"
  "tc_tension_count (cluster_of sha now tbr e) = (case map_of tbr (fst e) of None \<Rightarrow> 0 | Some ts \<Rightarrow> length ts)"
  by (auto simp: cluster_of_def Let_def split: option.splits)

lemma grouped_member:
  assumes "grouped remdups_first R ks dbr" and "e \<in> set dbr"
  shows "set (snd e) = {d \<in> set ks. R d = fst e}" and "distinct (snd e)"
proof -
  have "map_of dbr (fst e) = Some (snd e)" using assms by (metis grouped_entry prod.collapse)
  then have "snd e = remdups_first (filter (\<lambda>d. R d = fst e) ks)"
    using groupedD [OF assms(1), of "fst e"] by (auto split: if_splits)
  then show "set (snd e) = {d \<in> set ks. R d = fst e}" "distinct (snd e)" by auto
qed

lemma grouped_covers:
  assumes "grouped remdups_first R ks dbr" and "d \<in> set ks"
  shows "\<exists>e \<in> set dbr. fst e = R d"
proof -
  have "filter (\<lambda>x. R x = R d) ks \<noteq> []" using assms(2) by (auto simp: filter_empty_conv)
  then have "map_of dbr (R d) \<noteq> None" using groupedD [OF assms(1), of "R d"] by simp
  then show ?thesis by (force dest: map_of_SomeD)
qed

lemma cluster_partition:
  obtains res where "computeTensionClusters sha ts now = Some res"
    "tcr_cluster_count res = length (tcr_clusters res)"
    "\<And>x y. (\<exists>c \<in> set (tcr_clusters res). x \<in> set (tc_documents c) \<and> y \<in> set (tc_documents c))
         \<longleftrightarrow> x \<in> Field (tension_edges ts) \<and> (x, y) \<in> joined (tension_edges ts)"
    "distinct (concat (map tc_documents (tcr_clusters res)))"
    "\<And>c. c \<in> set (tcr_clusters res) \<Longrightarrow>
       tc_tension_count c = length (filter (\<lambda>t. inScope t \<and> te_sourceA t \<in> set (tc_documents c)) ts)"
proof (cases "filter inScope ts = []")
  case True
  then show thesis
    by (intro that [of "\<lparr>tcr_cluster_count = 0, tcr_clusters = []\<rparr>"])
      (simp_all add: computeTensionClusters_def tension_edges_def)
next
  case False
  let ?E = "tension_edges ts"
  obtain ks R dbr tbr where
    res: "computeTensionClusters sha ts now = Some \<lparr>tcr_cluster_count = length dbr,
       tcr_clusters = js_sort compareClusters (map (cluster_of sha now tbr) dbr)\<rparr>"
    and R: "\<forall>x y. R x = R y \<longleftrightarrow> (x, y) \<in> joined ?E"
    and keys: "set ks = Field ?E"
    and dbr: "grouped remdups_first R ks dbr"
    and tbr: "grouped (\<lambda>x. x) (\<lambda>t. R (te_sourceA t)) (filter inScope ts) tbr"
    by (rule scoped_result [OF False, of sha now])
  let ?cs = "js_sort compareClusters (map (cluster_of sha now tbr) dbr)"
  have docs: "set (snd e) = {d \<in> Field ?E. R d = fst e}" if "e \<in> set dbr" for e
    using grouped_member(1) [OF dbr that] keys by simp
  have one: "(\<exists>c \<in> set ?cs. x \<in> set (tc_documents c) \<and> y \<in> set (tc_documents c))
      \<longleftrightarrow> x \<in> Field ?E \<and> (x, y) \<in> joined ?E" for x y
  proof -
    have "(x, y) \<in> joined ?E \<Longrightarrow> x \<in> Field ?E \<Longrightarrow> y \<in> Field ?E"
      unfolding joined_def by (induction rule: rtrancl_induct) (auto simp: Field_def)
    moreover have "(\<exists>c \<in> set ?cs. x \<in> set (tc_documents c) \<and> y \<in> set (tc_documents c))
        \<longleftrightarrow> (\<exists>e \<in> set dbr. x \<in> set (snd e) \<and> y \<in> set (snd e))" by simp
    moreover have "\<dots> \<longleftrightarrow> (\<exists>e \<in> set dbr. x \<in> Field ?E \<and> y \<in> Field ?E \<and> R x = fst e \<and> R x = R y)"
      using docs by (intro bex_cong) auto
    ultimately show ?thesis using R grouped_covers [OF dbr, of x] keys by fastforce
  qed
  have "distinct (concat (map snd dbr))"
    using dbr grouped_member [OF dbr] by (intro distinct_groups [of _ R]) (fastforce simp: grouped_def)+
  moreover have "mset (concat (map tc_documents ?cs)) = mset (concat (map snd dbr))"
    unfolding mset_concat_sort by (induction dbr) auto
  ultimately have two: "distinct (concat (map tc_documents ?cs))" by (metis mset_eq_imp_distinct_iff)
  have count: "tc_tension_count (cluster_of sha now tbr e)
      = length (filter (\<lambda>t. inScope t \<and> te_sourceA t \<in> set (snd e)) ts)" if e: "e \<in> set dbr" for e
  proof -
    have "inScope t \<and> R (te_sourceA t) = fst e \<longleftrightarrow> inScope t \<and> te_sourceA t \<in> set (snd e)" if "t \<in> set ts" for t
      using that docs [OF e] by (auto simp: tension_edges_def Field_def)
    then have "filter (\<lambda>t. inScope t \<and> R (te_sourceA t) = fst e) ts = filter (\<lambda>t. inScope t \<and> te_sourceA t \<in> set (snd e)) ts"
      by (intro filter_cong) auto
    then show ?thesis using groupedD [OF tbr, of "fst e"] by (simp add: conj_commute split: if_splits)
  qed
  show thesis
  proof (rule that [OF res], goal_cases)
    case (2 x y)
    then show ?case by (simp only: tension_clusters_result.simps one)
  next
    case 3
    then show ?case by (simp only: tension_clusters_result.simps two)
  next
    case (4 c)
    then show ?case using count by auto
  qed simp
qed

text \<open>
  C20: the clusters are the connected components of the tension graph. The computation returns; two
  documents are in one cluster exactly when in-scope tensions join them, no document is in two
  clusters or twice in one, and the count of a cluster is that of its in-scope tensions.
\<close>

theorem clusters_are_components:
  "\<exists>res. computeTensionClusters sha ts now = Some res
    \<and> tcr_cluster_count res = length (tcr_clusters res)
    \<and> (\<forall>x y. (\<exists>c \<in> set (tcr_clusters res). x \<in> set (tc_documents c) \<and> y \<in> set (tc_documents c))
         \<longleftrightarrow> x \<in> Field (tension_edges ts) \<and> (x, y) \<in> (tension_edges ts \<union> (tension_edges ts)\<inverse>)\<^sup>*)
    \<and> distinct (concat (map tc_documents (tcr_clusters res)))
    \<and> map tc_tension_count (tcr_clusters res)
        = map (\<lambda>c. length (filter (\<lambda>t. inScope t \<and> te_sourceA t \<in> set (tc_documents c)) ts)) (tcr_clusters res)"
  by (rule cluster_partition [of sha ts now]) (fold joined_def, auto)

end
