(* ===== verification/TensionBlast.thy ===== *)
theory TensionBlast
  imports TensionClusters ChainView
begin

text \<open>
  The blast radius of a contested document or cluster: \<^verbatim>\<open>src/src/curation/tension-blast.ts\<close>. The
  reverse maps are insertion-ordered maps to insertion-ordered sets, a set being a list without
  repetition. The breadth-first search ends because each round with a new node uses up one of the
  finitely many nodes of the maps; its theorem gives every downstream document its least distance.
\<close>

section \<open>The reverse maps\<close>

definition set_add :: "'a \<Rightarrow> 'a list \<Rightarrow> 'a list" where
  "set_add x xs = (if x \<in> set xs then xs else xs @ [x])"

lemma set_set_add [simp]: "set (set_add x xs) = insert x (set xs)"
  by (auto simp: set_add_def)

definition get_list :: "('k, 'v list) jmap \<Rightarrow> 'k \<Rightarrow> 'v list" where
  "get_list m k = (case map_of m k of None \<Rightarrow> [] | Some xs \<Rightarrow> xs)"

definition reverse_edge :: "string \<Rightarrow> (string, string list) jmap \<Rightarrow> string option \<Rightarrow> (string, string list) jmap" where
  "reverse_edge path rmap target =
     (case target of
        None \<Rightarrow> rmap
      | Some t \<Rightarrow> if t = [] \<or> t = path then rmap else AList.update t (set_add path (get_list rmap t)) rmap)"

definition source_target :: "path_indexes \<Rightarrow> string \<Rightarrow> string \<Rightarrow> string option" where
  "source_target ix path raw =
     (case resolveVaultSourceRef raw path ix of VaultSource _ target \<Rightarrow> target | NonVault \<Rightarrow> None)"

definition buildReverseSourceMap :: "loaded_doc list \<Rightarrow> (string, string list) jmap" where
  "buildReverseSourceMap docs =
     (let ix = buildPathIndexes (map ld_path docs)
      in foldl (\<lambda>rmap d. foldl (\<lambda>rmap raw. reverse_edge (ld_path d) rmap (source_target ix (ld_path d) raw))
                  rmap (fm_sources (ld_frontmatter d))) [] docs)"

definition buildReverseLinkMap :: "loaded_doc list \<Rightarrow> (string, string list) jmap" where
  "buildReverseLinkMap docs =
     (let ix = buildPathIndexes (map ld_path docs)
      in foldl (\<lambda>rmap d. foldl (\<lambda>rmap raw. reverse_edge (ld_path d) rmap (resolveLink ix raw (ld_path d)))
                  rmap (extractLinks (ld_content d))) [] docs)"

lemma get_list_edge:
  "set (get_list (reverse_edge path rmap t) k) =
     set (get_list rmap k) \<union> (if t = Some k \<and> k \<noteq> [] \<and> k \<noteq> path then {path} else {})"
  by (auto simp: reverse_edge_def get_list_def split: option.splits)

lemma reverse_edges:
  "set (get_list (foldl (\<lambda>rmap raw. reverse_edge path rmap (f raw)) rmap raws) k) =
     set (get_list rmap k) \<union> (if k \<noteq> [] \<and> k \<noteq> path \<and> (\<exists>raw \<in> set raws. f raw = Some k) then {path} else {})"
  by (induction raws arbitrary: rmap) (auto simp: get_list_edge)

lemma reverse_map:
  "set (get_list (foldl (\<lambda>rmap d. foldl (\<lambda>rmap raw. reverse_edge (ld_path d) rmap (f d raw)) rmap (g d)) rmap docs) k) =
     set (get_list rmap k) \<union> {ld_path d |d. d \<in> set docs \<and> k \<noteq> [] \<and> k \<noteq> ld_path d \<and> (\<exists>raw \<in> set (g d). f d raw = Some k)}"
  by (induction docs arbitrary: rmap) (auto simp: reverse_edges)

lemma cites_iff:
  "p \<in> set (get_list (buildReverseSourceMap docs) k) \<longleftrightarrow>
     (\<exists>d \<in> set docs. p = ld_path d \<and> k \<noteq> [] \<and> k \<noteq> p
        \<and> (\<exists>raw \<in> set (fm_sources (ld_frontmatter d)). source_target (buildPathIndexes (map ld_path docs)) p raw = Some k))"
  unfolding buildReverseSourceMap_def Let_def reverse_map by (auto simp: get_list_def)

section \<open>The search\<close>

datatype dependency = SourceDep | LinkDep

record blast_entry =
  be_path :: string
  be_type :: dependency
  be_distance :: nat

record blast_output =
  bo_downstream :: "blast_entry list"
  bo_primary :: nat
  bo_advisory :: nat
  bo_max_depth :: nat

type_synonym blast_state = "string list \<times> (string, nat) jmap \<times> string list"

definition visit_succ :: "nat \<Rightarrow> blast_state \<Rightarrow> string \<Rightarrow> blast_state" where
  "visit_succ depth st s =
     (case st of (visited, distance, next1) \<Rightarrow>
        if s \<in> set visited then st
        else (visited @ [s], AList.update s (depth + 1) distance, set_add s next1))"

definition visit_node ::
    "(string, string list) jmap \<Rightarrow> (string, string list) jmap \<Rightarrow> nat \<Rightarrow> blast_state \<Rightarrow> string \<Rightarrow> blast_state" where
  "visit_node rs rl depth st node =
     foldl (visit_succ depth) st (remdups_first (get_list rs node @ get_list rl node))"

definition blast_edges :: "(string, string list) jmap \<Rightarrow> (string, string list) jmap \<Rightarrow> (string \<times> string) set" where
  "blast_edges rs rl = {(v, s). s \<in> set (get_list rs v) \<or> s \<in> set (get_list rl v)}"

lemma visit_succs:
  assumes "foldl (visit_succ depth) (vis, dm, nxt) ss = (vis', dm', nxt')"
  shows "set vis' = set vis \<union> set ss" and "set nxt' = set nxt \<union> (set ss - set vis)"
    and "map_of dm' x = (if x \<in> set ss - set vis then Some (depth + 1) else map_of dm x)"
    and "distinct (jkeys dm) \<Longrightarrow> distinct (jkeys dm')"
proof -
  have "set vis' = set vis \<union> set ss \<and> set nxt' = set nxt \<union> (set ss - set vis)
      \<and> map_of dm' x = (if x \<in> set ss - set vis then Some (depth + 1) else map_of dm x)
      \<and> (distinct (jkeys dm) \<longrightarrow> distinct (jkeys dm'))"
    using assms
  proof (induction ss arbitrary: vis dm nxt)
    case (Cons s ss)
    show ?case
    proof (cases "s \<in> set vis")
      case True
      then show ?thesis using Cons.IH [of vis dm nxt] Cons.prems by (auto simp: visit_succ_def)
    next
      case False
      then show ?thesis
        using Cons.IH [of "vis @ [s]" "AList.update s (depth + 1) dm" "set_add s nxt"] Cons.prems
          distinct_update [of dm s "depth + 1"]
        by (auto simp: visit_succ_def)
    qed
  qed simp
  then show "set vis' = set vis \<union> set ss" "set nxt' = set nxt \<union> (set ss - set vis)"
    "map_of dm' x = (if x \<in> set ss - set vis then Some (depth + 1) else map_of dm x)"
    "distinct (jkeys dm) \<Longrightarrow> distinct (jkeys dm')" by blast+
qed

lemma visit_nodes:
  assumes "foldl (visit_node rs rl depth) (vis, dm, nxt) ns = (vis', dm', nxt')"
  defines "new \<equiv> blast_edges rs rl `` set ns"
  shows "set vis' = set vis \<union> new \<and> set nxt' = set nxt \<union> (new - set vis)
    \<and> (\<forall>x. map_of dm' x = (if x \<in> new - set vis then Some (depth + 1) else map_of dm x))
    \<and> (distinct (jkeys dm) \<longrightarrow> distinct (jkeys dm'))"
  using assms(1) unfolding new_def
proof (induction ns arbitrary: vis dm nxt)
  case (Cons n ns)
  let ?ss = "remdups_first (get_list rs n @ get_list rl n)"
  obtain v1 d1 n1 where 1: "foldl (visit_succ depth) (vis, dm, nxt) ?ss = (v1, d1, n1)" by (metis prod_cases3)
  have "foldl (visit_node rs rl depth) (v1, d1, n1) ns = (vis', dm', nxt')"
    using Cons.prems 1 by (simp add: visit_node_def [of rs rl depth "(vis, dm, nxt)" n])
  from Cons.IH [OF this] visit_succs [OF 1]
  show ?case by (auto simp: blast_edges_def)
qed simp

definition targets_of :: "(string, string list) jmap \<Rightarrow> (string, string list) jmap \<Rightarrow> string set" where
  "targets_of rs rl = \<Union> (set ` snd ` set rs) \<union> \<Union> (set ` snd ` set rl)"

lemma finite_targets [simp]: "finite (targets_of rs rl)"
  by (auto simp: targets_of_def)

lemma edge_targets: "blast_edges rs rl `` A \<subseteq> targets_of rs rl"
proof -
  have "\<exists>xs. (v, xs) \<in> set m \<and> s \<in> set xs" if "s \<in> set (get_list m v)" for s v m
    using that by (cases "map_of m v") (auto simp: get_list_def dest: map_of_SomeD)
  then show ?thesis unfolding blast_edges_def targets_of_def by fastforce
qed

function blast_loop ::
    "(string, string list) jmap \<Rightarrow> (string, string list) jmap \<Rightarrow> string list \<Rightarrow> (string, nat) jmap \<Rightarrow> string list \<Rightarrow> nat
     \<Rightarrow> string list \<times> (string, nat) jmap" where
  "blast_loop rs rl visited distance frontier depth =
     (if frontier = [] then (visited, distance)
      else case foldl (visit_node rs rl depth) (visited, distance, []) frontier of
        (visited', distance', next1) \<Rightarrow> blast_loop rs rl visited' distance' next1 (depth + 1))"
  by pat_completeness auto
termination
proof (relation "measure (\<lambda>(rs, rl, vis, dm, fr, depth).
    2 * card (targets_of rs rl - set vis) + (if fr = [] then 0 else 1))", simp)
  fix rs rl :: "(string, string list) jmap" and vis fr :: "string list" and dm :: "(string, nat) jmap" and depth :: nat
    and vis' rest dm' nxt
  assume fr: "fr \<noteq> []" and st: "(vis', rest) = foldl (visit_node rs rl depth) (vis, dm, []) fr"
    and eq: "(dm', nxt) = rest"
  from st eq have "foldl (visit_node rs rl depth) (vis, dm, []) fr = (vis', dm', nxt)" by simp
  note step = visit_nodes [OF this]
  have sub: "targets_of rs rl - set vis' \<subseteq> targets_of rs rl - set vis" using step by auto
  have "card (targets_of rs rl - set vis') < card (targets_of rs rl - set vis)" if ne: "nxt \<noteq> []"
  proof (rule psubset_card_mono)
    obtain x where "x \<in> set nxt" using ne by (cases nxt) auto
    then have "x \<in> targets_of rs rl - set vis" "x \<in> set vis'" using step edge_targets [of rs rl "set fr"] by auto
    then show "targets_of rs rl - set vis' \<subset> targets_of rs rl - set vis" using sub by blast
  qed simp
  moreover have "card (targets_of rs rl - set vis') \<le> card (targets_of rs rl - set vis)"
    using sub by (intro card_mono) auto
  ultimately show "((rs, rl, vis', dm', nxt, depth + 1), rs, rl, vis, dm, fr, depth)
      \<in> measure (\<lambda>(rs, rl, vis, dm, fr, depth). 2 * card (targets_of rs rl - set vis) + (if fr = [] then 0 else 1))"
    using fr by auto
qed

declare blast_loop.simps [simp del]

text \<open>The set \<open>primary_downstream\<close> collects the documents that cite a visited one and are no seeds.\<close>

definition primary_downstream :: "(string, string list) jmap \<Rightarrow> string list \<Rightarrow> string list \<Rightarrow> string list" where
  "primary_downstream rs seeds visited =
     foldl (\<lambda>acc v. foldl (\<lambda>acc child. if child \<in> set seeds then acc else set_add child acc) acc (get_list rs v))
       [] visited"

definition compareBlast :: "blast_entry \<Rightarrow> blast_entry \<Rightarrow> int" where
  "compareBlast a b =
     (if be_distance a \<noteq> be_distance b then int (be_distance a) - int (be_distance b)
      else if be_type a \<noteq> be_type b then (if be_type a = SourceDep then - 1 else 1)
      else if be_path a < be_path b then - 1 else if be_path a > be_path b then 1 else 0)"

definition count_entry :: "nat \<times> nat \<times> nat \<Rightarrow> blast_entry \<Rightarrow> nat \<times> nat \<times> nat" where
  "count_entry acc e =
     (case acc of (primary, advisory, deep) \<Rightarrow>
        (if be_type e = SourceDep then primary + 1 else primary,
         if be_type e = SourceDep then advisory else advisory + 1,
         if be_distance e > deep then be_distance e else deep))"

definition computeBlast ::
    "string list \<Rightarrow> (string, string list) jmap \<Rightarrow> (string, string list) jmap \<Rightarrow> blast_output" where
  "computeBlast seeds reverseSource reverseLink =
     (case blast_loop reverseSource reverseLink (remdups_first seeds) [] (remdups_first seeds) 0 of
        (visited, distance) \<Rightarrow>
          (let primaries = primary_downstream reverseSource seeds visited;
               entries = js_sort compareBlast
                 (map (\<lambda>(path, dm). \<lparr>be_path = path,
                    be_type = (if path \<in> set primaries then SourceDep else LinkDep), be_distance = dm\<rparr>) distance)
           in case foldl count_entry (0, 0, 0) entries of
                (primary, advisory, deep) \<Rightarrow>
                  \<lparr>bo_downstream = entries, bo_primary = primary, bo_advisory = advisory, bo_max_depth = deep\<rparr>))"

section \<open>The search finds least distances\<close>

definition hops :: "(string \<times> string) set \<Rightarrow> string set \<Rightarrow> nat \<Rightarrow> string \<Rightarrow> bool" where
  "hops E S k x \<longleftrightarrow> (\<exists>s \<in> S. (s, x) \<in> E ^^ k)"

definition least_hops :: "(string \<times> string) set \<Rightarrow> string set \<Rightarrow> nat \<Rightarrow> string \<Rightarrow> bool" where
  "least_hops E S k x \<longleftrightarrow> hops E S k x \<and> (\<forall>j < k. \<not> hops E S j x)"

lemma hops_Suc: "hops E S (Suc k) x \<longleftrightarrow> (\<exists>v. hops E S k v \<and> (v, x) \<in> E)"
  by (auto simp: hops_def)

lemma hops_least: "hops E S k x \<Longrightarrow> \<exists>j \<le> k. least_hops E S j x"
proof (induction k rule: less_induct)
  case (less k)
  show ?case
  proof (cases "\<exists>j < k. hops E S j x")
    case True
    then show ?thesis using less.IH by (meson le_trans less_imp_le)
  next
    case False
    then show ?thesis using less.prems by (auto simp: least_hops_def)
  qed
qed

lemma least_pred:
  assumes "least_hops E S (Suc k) x"
  shows "\<exists>v. least_hops E S k v \<and> (v, x) \<in> E"
proof -
  obtain v where v: "hops E S k v" "(v, x) \<in> E" using assms by (auto simp: least_hops_def hops_Suc)
  have "\<not> hops E S j v" if "j < k" for j
    using assms that v(2) hops_Suc [of E S j x] by (auto simp: least_hops_def)
  then show ?thesis using v by (auto simp: least_hops_def)
qed

lemma least_downward: "least_hops E S k x \<Longrightarrow> j \<le> k \<Longrightarrow> \<exists>v. least_hops E S j v"
proof (induction k arbitrary: x)
  case (Suc k)
  then show ?case using least_pred [OF Suc.prems(1)] by (cases "j = Suc k") auto
qed auto

definition search_inv ::
    "(string \<times> string) set \<Rightarrow> string set \<Rightarrow> string list \<Rightarrow> (string, nat) jmap \<Rightarrow> string list \<Rightarrow> nat \<Rightarrow> bool" where
  "search_inv E S vis dm fr depth \<longleftrightarrow>
     set vis = {x. \<exists>k \<le> depth. hops E S k x} \<and> set fr = {x. least_hops E S depth x}
     \<and> (\<forall>x k. map_of dm x = Some k \<longleftrightarrow> 1 \<le> k \<and> k \<le> depth \<and> least_hops E S k x) \<and> distinct (jkeys dm)"

lemma search_inv_step:
  assumes inv: "search_inv (blast_edges rs rl) S vis dm fr depth"
    and step: "foldl (visit_node rs rl depth) (vis, dm, []) fr = (vis', dm', nxt)"
  shows "search_inv (blast_edges rs rl) S vis' dm' nxt (Suc depth)"
proof -
  let ?E = "blast_edges rs rl" let ?new = "blast_edges rs rl `` set fr"
  note v = visit_nodes [OF step]
  have vis: "set vis = {x. \<exists>k \<le> depth. hops ?E S k x}" and fr: "set fr = {x. least_hops ?E S depth x}"
    and dm: "\<And>x k. map_of dm x = Some k \<longleftrightarrow> 1 \<le> k \<and> k \<le> depth \<and> least_hops ?E S k x"
    using inv by (auto simp: search_inv_def)
  have new: "?new - set vis = {x. least_hops ?E S (Suc depth) x}"
  proof (intro set_eqI iffI)
    fix x assume "x \<in> ?new - set vis"
    then have "hops ?E S (Suc depth) x" "\<forall>k \<le> depth. \<not> hops ?E S k x"
      using vis fr by (auto simp: hops_Suc least_hops_def)
    then show "x \<in> {x. least_hops ?E S (Suc depth) x}" by (auto simp: least_hops_def less_Suc_eq_le)
  next
    fix x assume "x \<in> {x. least_hops ?E S (Suc depth) x}"
    then show "x \<in> ?new - set vis"
      using least_pred [of ?E S depth x] vis fr by (auto simp: least_hops_def less_Suc_eq_le)
  qed
  have "set vis' = {x. \<exists>k \<le> Suc depth. hops ?E S k x}"
  proof (intro set_eqI iffI)
    fix x assume "x \<in> set vis'"
    then have "x \<in> set vis \<or> least_hops ?E S (Suc depth) x" using v new by blast
    then show "x \<in> {x. \<exists>k \<le> Suc depth. hops ?E S k x}" using vis le_SucI unfolding least_hops_def by blast
  next
    fix x assume "x \<in> {x. \<exists>k \<le> Suc depth. hops ?E S k x}"
    then obtain k where k: "k \<le> Suc depth" "hops ?E S k x" by auto
    obtain j where "j \<le> k" "least_hops ?E S j x" using hops_least [OF k(2)] by blast
    then have "j \<le> Suc depth" using k(1) by simp
    then have "x \<in> set vis \<or> x \<in> ?new - set vis"
      using \<open>least_hops ?E S j x\<close> vis new by (cases "j = Suc depth") (auto simp: least_hops_def)
    then show "x \<in> set vis'" using v by blast
  qed
  moreover have "map_of dm' x = Some k \<longleftrightarrow> 1 \<le> k \<and> k \<le> Suc depth \<and> least_hops ?E S k x" for x k
  proof (cases "least_hops ?E S (Suc depth) x")
    case True
    then have "least_hops ?E S k x \<Longrightarrow> k = Suc depth"
      unfolding least_hops_def by (metis linorder_neqE_nat)
    then show ?thesis using True v new by auto
  next
    case False
    then have "x \<notin> ?new - set vis" using new by blast
    then have "map_of dm' x = map_of dm x" using v by metis
    then show ?thesis using dm False le_Suc_eq by auto
  qed
  ultimately show ?thesis
    using v new inv by (auto simp: search_inv_def)
qed

lemma blast_loop_result:
  assumes "search_inv (blast_edges rs rl) S vis dm fr depth"
    and "blast_loop rs rl vis dm fr depth = (vis', dm')"
  shows "set vis' = {x. \<exists>k. hops (blast_edges rs rl) S k x}
    \<and> (\<forall>x k. map_of dm' x = Some k \<longleftrightarrow> 1 \<le> k \<and> least_hops (blast_edges rs rl) S k x) \<and> distinct (jkeys dm')"
  using assms
proof (induction rs rl vis dm fr depth rule: blast_loop.induct)
  case (1 rs rl vis dm fr depth)
  let ?E = "blast_edges rs rl"
  show ?case
  proof (cases "fr = []")
    case True
    then have r: "vis' = vis" "dm' = dm" using 1(3) by (simp_all add: blast_loop.simps)
    have bound: "k < depth" if lh: "least_hops ?E S k x" for k x
    proof (rule ccontr)
      assume "\<not> k < depth"
      then obtain v where "least_hops ?E S depth v" using least_downward [OF lh, of depth] by auto
      then show False using True 1(2) by (auto simp: search_inv_def)
    qed
    then have "hops ?E S k x \<Longrightarrow> \<exists>j \<le> depth. hops ?E S j x" for k x
      using hops_least [of ?E S k x] unfolding least_hops_def by (meson less_imp_le)
    then show ?thesis using r 1(2) bound by (auto simp: search_inv_def intro: less_imp_le)
  next
    case False
    obtain v d n where vdn: "foldl (visit_node rs rl depth) (vis, dm, []) fr = (v, d, n)" by (metis prod_cases3)
    have "blast_loop rs rl v d n (Suc depth) = (vis', dm')"
      using 1(3) False vdn by (subst (asm) blast_loop.simps) simp
    moreover have "search_inv ?E S v d n (Suc depth)" by (rule search_inv_step [OF 1(2) vdn])
    ultimately show ?thesis using 1(1) [OF False vdn [symmetric] refl] by simp
  qed
qed

lemma primary_downstream_set:
  "set (primary_downstream rs seeds visited) = {c. \<exists>v \<in> set visited. c \<in> set (get_list rs v) \<and> c \<notin> set seeds}"
proof -
  have inner: "set (foldl (\<lambda>acc child. if child \<in> set seeds then acc else set_add child acc) acc cs)
      = set acc \<union> (set cs - set seeds)" for acc cs
    by (induction cs arbitrary: acc) auto
  have "set (foldl (\<lambda>acc v. foldl (\<lambda>acc child. if child \<in> set seeds then acc else set_add child acc) acc (get_list rs v))
      acc vs) = set acc \<union> {c. \<exists>v \<in> set vs. c \<in> set (get_list rs v) \<and> c \<notin> set seeds}" for acc vs
    by (induction vs arbitrary: acc) (auto simp: inner)
  then show ?thesis by (simp add: primary_downstream_def)
qed

lemma count_entries:
  "foldl count_entry (p, a, m) es =
     (p + length (filter (\<lambda>e. be_type e = SourceDep) es), a + length (filter (\<lambda>e. be_type e = LinkDep) es),
      foldl max m (map be_distance es))"
proof (induction es arbitrary: p a m)
  case (Cons e es)
  then show ?case by (cases "be_type e") (auto simp: count_entry_def max_def)
qed simp

text \<open>
  C21: the blast radius is exact. The downstream documents are those reachable from the seeds and no
  seeds, each once, with the least number of hops; an entry is primary exactly when a reached document
  is cited by it, and the two counts are those of the two kinds.
\<close>

theorem blast_exact:
  "(\<forall>p t k. \<lparr>be_path = p, be_type = t, be_distance = k\<rparr> \<in> set (bo_downstream (computeBlast seeds rs rl))
      \<longleftrightarrow> k \<ge> 1 \<and> least_hops (blast_edges rs rl) (set seeds) k p
        \<and> t = (if \<exists>v j. hops (blast_edges rs rl) (set seeds) j v \<and> p \<in> set (get_list rs v) then SourceDep else LinkDep))
   \<and> distinct (map be_path (bo_downstream (computeBlast seeds rs rl)))
   \<and> bo_primary (computeBlast seeds rs rl)
       = length (filter (\<lambda>e. be_type e = SourceDep) (bo_downstream (computeBlast seeds rs rl)))
   \<and> bo_primary (computeBlast seeds rs rl) + bo_advisory (computeBlast seeds rs rl)
       = length (bo_downstream (computeBlast seeds rs rl))"
proof -
  let ?E = "blast_edges rs rl" let ?out = "computeBlast seeds rs rl"
  obtain vis dm where loop: "blast_loop rs rl (remdups_first seeds) [] (remdups_first seeds) 0 = (vis, dm)"
    by (metis prod.collapse)
  have "search_inv ?E (set seeds) (remdups_first seeds) [] (remdups_first seeds) 0"
    by (auto simp: search_inv_def hops_def least_hops_def)
  from blast_loop_result [OF this loop]
  have vis: "set vis = {x. \<exists>k. hops ?E (set seeds) k x}" and dist: "distinct (jkeys dm)"
    and dm: "\<And>x k. (x, k) \<in> set dm \<longleftrightarrow> 1 \<le> k \<and> least_hops ?E (set seeds) k x"
    by (auto simp: map_of_eq_Some_iff [symmetric])
  let ?mk = "\<lambda>(path, d). \<lparr>be_path = path,
     be_type = (if path \<in> set (primary_downstream rs seeds vis) then SourceDep else LinkDep), be_distance = d\<rparr>"
  have down: "bo_downstream ?out = js_sort compareBlast (map ?mk dm)"
    and prim: "bo_primary ?out = length (filter (\<lambda>e. be_type e = SourceDep) (bo_downstream ?out))"
    and adv: "bo_advisory ?out = length (filter (\<lambda>e. be_type e = LinkDep) (bo_downstream ?out))"
    by (auto simp: computeBlast_def loop Let_def count_entries)
  have seed: "p \<notin> set seeds" if "(p, k) \<in> set dm" for p k
  proof
    assume "p \<in> set seeds"
    then have "hops ?E (set seeds) 0 p" by (auto simp: hops_def)
    then show False using dm [of p k] that by (auto simp: least_hops_def)
  qed
  define cited where "cited p \<longleftrightarrow> (\<exists>v j. hops ?E (set seeds) j v \<and> p \<in> set (get_list rs v))" for p
  have "\<lparr>be_path = p, be_type = t, be_distance = k\<rparr> \<in> set (bo_downstream ?out)
      \<longleftrightarrow> (p, k) \<in> set dm \<and> t = (if p \<in> set (primary_downstream rs seeds vis) then SourceDep else LinkDep)" for p t k
    unfolding down by force
  moreover have "p \<in> set (primary_downstream rs seeds vis) \<longleftrightarrow> cited p" if "(p, k) \<in> set dm" for p k
    using seed [OF that] vis unfolding primary_downstream_set cited_def by auto
  ultimately have one: "\<lparr>be_path = p, be_type = t, be_distance = k\<rparr> \<in> set (bo_downstream ?out)
      \<longleftrightarrow> k \<ge> 1 \<and> least_hops ?E (set seeds) k p \<and> t = (if cited p then SourceDep else LinkDep)" for p t k
    using dm [of p k] by metis
  have "mset (map be_path (bo_downstream ?out)) = mset (jkeys dm)"
    unfolding down mset_map mset_js_sort by (induction dm) auto
  then have two: "distinct (map be_path (bo_downstream ?out))" using dist by (metis mset_eq_imp_distinct_iff)
  have "length (filter (\<lambda>e. be_type e = SourceDep) es) + length (filter (\<lambda>e. be_type e = LinkDep) es) = length es"
    for es :: "blast_entry list"
  proof (induction es)
    case (Cons e es)
    then show ?case by (cases "be_type e") auto
  qed simp
  then show ?thesis using one two prim adv unfolding cited_def by simp
qed

section \<open>The tool's computation\<close>

datatype blast_error =
    BothGiven
  | NoneGiven
  | DocsFailed
  | ClustersFailed tension_error
  | DocumentNotFound string
  | ClusterNotFound string

record blast_result =
  br_contested :: "string option"
  br_cluster_id :: "string option"
  br_cluster_documents :: "string list"
  br_blast :: blast_output
  br_hidden :: hidden_downstream

text \<open>
  The seeds of a request: a known document, with the cluster it is in, or the members of a cluster.
  \<open>given\<close> is the test for a string that is there and not empty.
\<close>

definition given :: "string option \<Rightarrow> bool" where
  "given v = (case v of None \<Rightarrow> False | Some s \<Rightarrow> s \<noteq> [])"

definition blast_seeds ::
    "string option \<Rightarrow> string option \<Rightarrow> string list \<Rightarrow> tension_cluster list
     \<Rightarrow> blast_error + string option \<times> string option \<times> string list \<times> string list" where
  "blast_seeds document cluster_id knownPaths clusters =
     (if given document
      then let doc = the document
           in if doc \<notin> set knownPaths then Inl (DocumentNotFound doc)
              else (case List.find (\<lambda>c. doc \<in> set (tc_documents c)) clusters of
                      None \<Rightarrow> Inr (Some doc, None, [], [doc])
                    | Some c \<Rightarrow> Inr (Some doc, Some (tc_id c), tc_documents c, [doc]))
      else let i = the cluster_id
           in case List.find (\<lambda>c. tc_id c = i) clusters of
                None \<Rightarrow> Inl (ClusterNotFound i)
              | Some c \<Rightarrow> Inr (None, Some (tc_id c), tc_documents c, tc_documents c))"

definition computeTensionBlast ::
    "string option \<Rightarrow> string option \<Rightarrow> loaded_doc list option \<Rightarrow> (tension_error + tension_clusters_result)
     \<Rightarrow> blast_error + blast_result" where
  "computeTensionBlast document cluster_id docs clusters =
     (if given document \<and> given cluster_id then Inl BothGiven
      else if \<not> given document \<and> \<not> given cluster_id then Inl NoneGiven
      else case docs of None \<Rightarrow> Inl DocsFailed
      | Some ds \<Rightarrow>
          (case clusters of Inl e \<Rightarrow> Inl (ClustersFailed e)
           | Inr cs \<Rightarrow>
               (case blast_seeds document cluster_id (map ld_path ds) (tcr_clusters cs) of
                  Inl e \<Rightarrow> Inl e
                | Inr (contested, cid, cdocs, seeds) \<Rightarrow>
                    Inr \<lparr>br_contested = contested, br_cluster_id = cid, br_cluster_documents = cdocs,
                         br_blast = computeBlast seeds (buildReverseSourceMap ds) (buildReverseLinkMap ds),
                         br_hidden = HiddenNone\<rparr>)))"

end
