(* ===== verification/TensionTriage.thy ===== *)
theory TensionTriage
  imports TensionBlast
begin

text \<open>
  The triage card, \<^verbatim>\<open>src/src/curation/tension-triage.ts\<close>, with the read heat of
  \<^verbatim>\<open>src/src/curation/read-heat.ts\<close> and the reads of a run of \<^verbatim>\<open>src/src/curation/read-log.ts\<close>. The
  clusters of \<open>TensionClusters\<close> give the buckets, \<open>TensionBlast\<close> the blast of each tension. The lemmas
  follow a tension from the log to its bucket.
\<close>

section \<open>Read heat\<close>

record read_log_entry =
  rl_timestamp :: string
  rl_tool :: string
  rl_file :: string
  rl_run_id :: "string option"
  rl_principal :: "string option"
  rl_broken_upstream :: "nat option"

record read_heat =
  rh_count :: nat
  rh_last_read :: "string option"
  rh_instrumented :: bool

definition earliest_step :: "int option \<Rightarrow> read_log_entry \<Rightarrow> int option" where
  "earliest_step acc e =
     (case date_parse (rl_timestamp e) of
        None \<Rightarrow> acc
      | Some ms \<Rightarrow> (case acc of None \<Rightarrow> Some ms | Some m \<Rightarrow> if ms < m then Some ms else acc))"

text \<open>The heat loop keeps the count, the latest instant (\<open>None\<close> is minus infinity) and its text.\<close>

definition heat_step ::
    "int \<Rightarrow> string \<Rightarrow> nat \<times> int option \<times> string option \<Rightarrow> read_log_entry \<Rightarrow> nat \<times> int option \<times> string option" where
  "heat_step cutoff doc st e =
     (case st of (n, latest, text1) \<Rightarrow>
        if rl_file e \<noteq> doc then st
        else case date_parse (rl_timestamp e) of
          None \<Rightarrow> st
        | Some ms \<Rightarrow>
            if ms < cutoff then st
            else if (case latest of None \<Rightarrow> True | Some l \<Rightarrow> ms > l) then (n + 1, Some ms, Some (rl_timestamp e))
            else (n + 1, latest, text1))"

definition heat_of :: "read_log_entry list \<Rightarrow> int \<Rightarrow> string \<times> string option \<Rightarrow> read_heat" where
  "heat_of entries cutoff doc =
     (case foldl (heat_step cutoff (fst doc)) (0, None, None) entries of
        (n, _, text1) \<Rightarrow>
          \<lparr>rh_count = n, rh_last_read = text1,
           rh_instrumented =
             (case (foldl earliest_step None entries, snd doc) of
                (Some first1, Some created) \<Rightarrow> (case date_parse created of None \<Rightarrow> False | Some c \<Rightarrow> c \<ge> first1)
              | _ \<Rightarrow> False)\<rparr>)"

definition computeReadHeat ::
    "read_log_entry list \<Rightarrow> (string \<times> string option) list \<Rightarrow> int \<Rightarrow> int \<Rightarrow> (string, read_heat) jmap" where
  "computeReadHeat entries docs now windowDays =
     foldl (\<lambda>m doc. AList.update (fst doc) (heat_of entries (now - windowDays * 86400000) doc) m) [] docs"

text \<open>The unique paths a run read, in first-read order.\<close>

definition readsForRun :: "read_log_entry list \<Rightarrow> string \<Rightarrow> string list" where
  "readsForRun entries runId =
     foldl (\<lambda>paths e. if rl_run_id e \<noteq> Some runId \<or> rl_file e \<in> set paths then paths else paths @ [rl_file e])
       [] entries"

section \<open>The card\<close>

record triage_doc_meta =
  tm_tier :: "tier option"
  tm_confidence :: confidence
  tm_criticality :: "criticality option"
  tm_provenance :: provenance
  tm_updated_by :: string
  tm_created :: string

record triage_blast =
  tb_primary :: nat
  tb_advisory :: nat
  tb_hidden :: hidden_downstream

record triage_side =
  ts_path :: string
  ts_claim :: string
  ts_tier :: "tier option"
  ts_confidence :: "confidence option"
  ts_read_heat :: "read_heat option"
  ts_criticality :: "criticality option"
  ts_provenance :: "provenance option"
  ts_updated_by :: "string option"

record triage_tension =
  tt_id :: string
  tt_title :: string
  tt_kind :: tension_kind
  tt_age_days :: int
  tt_a :: triage_side
  tt_b :: triage_side
  tt_primary :: "nat option"
  tt_advisory :: "nat option"
  tt_hidden :: "hidden_downstream option"

record triage_cluster =
  tgc_cluster_id :: string
  tgc_documents :: "string list"
  tgc_tensions :: "triage_tension list"

record triage_result =
  tg_cluster_count :: nat
  tg_tension_count :: nat
  tg_clusters :: "triage_cluster list"

record triage_inputs =
  ti_docMeta :: "(string, triage_doc_meta) jmap"
  ti_readHeat :: "(string, read_heat) jmap"
  ti_blast :: "(string, triage_blast) jmap"

definition sideFor :: "string \<Rightarrow> string \<Rightarrow> triage_inputs \<Rightarrow> triage_side" where
  "sideFor path claim inputs =
     (let m = map_of (ti_docMeta inputs) path
      in \<lparr>ts_path = path, ts_claim = claim, ts_tier = Option.bind m tm_tier, ts_confidence = map_option tm_confidence m,
          ts_read_heat = map_of (ti_readHeat inputs) path, ts_criticality = Option.bind m tm_criticality,
          ts_provenance = map_option tm_provenance m, ts_updated_by = map_option tm_updated_by m\<rparr>)"

definition enrich :: "tension_entry \<Rightarrow> triage_inputs \<Rightarrow> int \<Rightarrow> triage_tension" where
  "enrich tension inputs now =
     (let b = (case te_id tension of None \<Rightarrow> None | Some i \<Rightarrow> if i = [] then None else map_of (ti_blast inputs) i)
      in \<lparr>tt_id = (case te_id tension of None \<Rightarrow> [] | Some i \<Rightarrow> i), tt_title = te_title tension, tt_kind = te_kind tension,
          tt_age_days = ageInDays (te_date tension) now,
          tt_a = sideFor (te_sourceA tension) (te_claimA tension) inputs,
          tt_b = sideFor (te_sourceB tension) (te_claimB tension) inputs,
          tt_primary = map_option tb_primary b, tt_advisory = map_option tb_advisory b,
          tt_hidden = map_option tb_hidden b\<rparr>)"

text \<open>The module's own copy of the scope test, in its order.\<close>

definition triage_inScope :: "tension_entry \<Rightarrow> bool" where
  "triage_inScope t =
     (if te_resolved t then False
      else if (case te_resolution t of Some r \<Rightarrow> tr_kind r = ResAccepted | None \<Rightarrow> False) then False
      else if te_sourceA t = [] \<or> te_sourceB t = [] then False
      else if te_sourceA t = te_sourceB t then False
      else True)"

text \<open>The comparator of the card: oldest first, then the id; equal ids compare as greater.\<close>

definition compareTriage :: "triage_tension \<Rightarrow> triage_tension \<Rightarrow> int" where
  "compareTriage x y =
     (if tt_age_days y \<noteq> tt_age_days x then tt_age_days y - tt_age_days x
      else if tt_id x < tt_id y then - 1 else 1)"

definition cluster_of_doc :: "tension_cluster list \<Rightarrow> (string, string) jmap" where
  "cluster_of_doc clusters =
     foldl (\<lambda>m c. foldl (\<lambda>m doc. AList.update doc (tc_id c) m) m (tc_documents c)) [] clusters"

definition bucket_step ::
    "(string, string) jmap \<Rightarrow> (string, tension_entry list) jmap \<Rightarrow> tension_entry \<Rightarrow> (string, tension_entry list) jmap" where
  "bucket_step clusterOfDoc m t =
     (case map_of clusterOfDoc (te_sourceA t) of
        None \<Rightarrow> m
      | Some cid \<Rightarrow> AList.update cid (get_list m cid @ [t]) m)"

definition computeTensionTriage ::
    "(string \<Rightarrow> string) \<Rightarrow> tension_entry list \<Rightarrow> triage_inputs \<Rightarrow> int \<Rightarrow> triage_result option" where
  "computeTensionTriage sha256 tensions inputs now =
     (let scoped = filter triage_inScope tensions
      in case computeTensionClusters sha256 scoped now of
           None \<Rightarrow> None
         | Some res \<Rightarrow>
             (let clusters = tcr_clusters res;
                  buckets = foldl (bucket_step (cluster_of_doc clusters)) [] scoped;
                  tri = map (\<lambda>c. \<lparr>tgc_cluster_id = tc_id c, tgc_documents = tc_documents c,
                           tgc_tensions = js_sort compareTriage (map (\<lambda>t. enrich t inputs now) (get_list buckets (tc_id c)))\<rparr>)
                         clusters
              in Some \<lparr>tg_cluster_count = length tri, tg_tension_count = length scoped, tg_clusters = tri\<rparr>))"

text \<open>The loader: a failed read of the log, of the documents or of the read log ends it.\<close>

datatype triage_error = TriageTensions tension_error | TriageDocs | TriageReadLog

definition doc_meta :: "loaded_doc \<Rightarrow> triage_doc_meta" where
  "doc_meta d = (let f = ld_frontmatter d in
     \<lparr>tm_tier = fm_tier f, tm_confidence = fm_confidence f, tm_criticality = fm_criticality f,
      tm_provenance = fm_provenance f, tm_updated_by = fm_updated_by f, tm_created = fm_created f\<rparr>)"

definition blast_of_tension ::
    "(string, string list) jmap \<Rightarrow> (string, string list) jmap \<Rightarrow> (string, triage_blast) jmap \<Rightarrow> tension_entry
     \<Rightarrow> (string, triage_blast) jmap" where
  "blast_of_tension rs rl m t =
     (case te_id t of
        None \<Rightarrow> m
      | Some i \<Rightarrow>
          if i = [] then m
          else let b = computeBlast [te_sourceA t, te_sourceB t] rs rl
               in AList.update i \<lparr>tb_primary = bo_primary b, tb_advisory = bo_advisory b,
                                  tb_hidden = bucketHiddenDownstream 0\<rparr> m)"

definition loadTensionTriage ::
    "(string \<Rightarrow> string) \<Rightarrow> (tension_entry list \<Rightarrow> tension_entry list) \<Rightarrow> bool \<Rightarrow> string option \<Rightarrow> loaded_doc list option
     \<Rightarrow> read_log_entry list option \<Rightarrow> int \<Rightarrow> int \<Rightarrow> (triage_error + triage_result) option" where
  "loadTensionTriage sha256 entryFilter fault logf docsResult readLog now windowDays =
     (case listTensions fault None logf of
        Inl e \<Rightarrow> Some (Inl (TriageTensions e))
      | Inr entries \<Rightarrow>
          (case docsResult of
             None \<Rightarrow> Some (Inl TriageDocs)
           | Some docs \<Rightarrow>
               (case readLog of
                  None \<Rightarrow> Some (Inl TriageReadLog)
                | Some reads \<Rightarrow>
                    (let tensions = entryFilter entries;
                         docMeta = foldl (\<lambda>m d. AList.update (ld_path d) (doc_meta d) m) [] docs;
                         readHeat = computeReadHeat reads
                           (map (\<lambda>d. (ld_path d, Some (fm_created (ld_frontmatter d)))) docs) now windowDays;
                         blastBy = foldl (blast_of_tension (buildReverseSourceMap docs) (buildReverseLinkMap docs)) []
                           (filter triage_inScope tensions)
                     in map_option Inr (computeTensionTriage sha256 tensions
                          \<lparr>ti_docMeta = docMeta, ti_readHeat = readHeat, ti_blast = blastBy\<rparr> now)))))"

lemma triage_scope [simp]: "triage_inScope = inScope"
  by (intro ext) (auto simp: triage_inScope_def inScope_def)

section \<open>Every live tension is on the card\<close>

lemma map_of_docs:
  "map_of (foldl (\<lambda>m doc. AList.update doc i m) m docs) d = (if d \<in> set docs then Some i else map_of m d)"
  by (induction docs arbitrary: m) auto

lemma cluster_of_doc_snoc:
  "map_of (cluster_of_doc (cs @ [c])) d = (if d \<in> set (tc_documents c) then Some (tc_id c) else map_of (cluster_of_doc cs) d)"
  by (simp add: cluster_of_doc_def map_of_docs)

lemma cluster_of_doc_iff:
  "distinct (concat (map tc_documents cs)) \<Longrightarrow>
   map_of (cluster_of_doc cs) d = Some i \<longleftrightarrow> (\<exists>c \<in> set cs. d \<in> set (tc_documents c) \<and> tc_id c = i)"
proof (induction cs rule: rev_induct)
  case (snoc c cs)
  then show ?case by (auto simp: cluster_of_doc_snoc)
qed (simp add: cluster_of_doc_def)

lemma buckets:
  "get_list (foldl (bucket_step cod) m ts) i = get_list m i @ filter (\<lambda>t. map_of cod (te_sourceA t) = Some i) ts"
proof (induction ts arbitrary: m)
  case (Cons t ts)
  then show ?case by (cases "map_of cod (te_sourceA t)") (auto simp: bucket_step_def get_list_def)
qed simp

lemma filter_disjoint:
  "\<forall>x \<in> set xs. \<not> (P x \<and> Q x) \<Longrightarrow> mset (filter P xs) + mset (filter Q xs) = mset (filter (\<lambda>x. P x \<or> Q x) xs)"
  by (induction xs) auto

lemma mset_buckets:
  "distinct (concat (map f cs)) \<Longrightarrow>
   mset (concat (map (\<lambda>c. filter (\<lambda>t. g t \<in> set (f c)) ts) cs)) = mset (filter (\<lambda>t. g t \<in> set (concat (map f cs))) ts)"
proof (induction cs)
  case (Cons c cs)
  let ?rest = "set (concat (map f cs))"
  have "mset (concat (map (\<lambda>c. filter (\<lambda>t. g t \<in> set (f c)) ts) (c # cs)))
      = mset (filter (\<lambda>t. g t \<in> set (f c)) ts) + mset (filter (\<lambda>t. g t \<in> ?rest) ts)"
    using Cons by simp
  also have "\<dots> = mset (filter (\<lambda>t. g t \<in> set (f c) \<or> g t \<in> ?rest) ts)"
    using Cons.prems by (intro filter_disjoint) auto
  finally show ?case by simp
qed simp

lemma mset_concat_image:
  "(\<And>c. c \<in> set cs \<Longrightarrow> mset (f c) = image_mset h (mset (g c))) \<Longrightarrow>
   mset (concat (map f cs)) = image_mset h (mset (concat (map g cs)))"
  by (induction cs) auto

text \<open>
  The card is complete. When no two clusters share a truncated hash, every live contested tension
  is on the card exactly once, with its metadata, in the cluster that holds both its sources.
\<close>

theorem triage_complete:
  assumes "computeTensionTriage sha ts inputs now = Some res"
    and "distinct (map tgc_cluster_id (tg_clusters res))"
  shows "mset (concat (map tgc_tensions (tg_clusters res))) = mset (map (\<lambda>t. enrich t inputs now) (filter inScope ts))
    \<and> tg_tension_count res = length (concat (map tgc_tensions (tg_clusters res)))
    \<and> list_all (\<lambda>c. list_all (\<lambda>t. ts_path (tt_a t) \<in> set (tgc_documents c) \<and> ts_path (tt_b t) \<in> set (tgc_documents c))
         (tgc_tensions c)) (tg_clusters res)"
proof -
  let ?s = "filter inScope ts"
  obtain cl where cl: "computeTensionClusters sha ?s now = Some cl"
    and joint: "\<And>x y. (\<exists>c \<in> set (tcr_clusters cl). x \<in> set (tc_documents c) \<and> y \<in> set (tc_documents c))
         \<longleftrightarrow> x \<in> Field (tension_edges ?s) \<and> (x, y) \<in> joined (tension_edges ?s)"
    and dist: "distinct (concat (map tc_documents (tcr_clusters cl)))"
    by (rule cluster_partition [of sha ?s now]) blast
  let ?cs = "tcr_clusters cl"
  let ?in = "\<lambda>c t. te_sourceA t \<in> set (tc_documents c)"
  let ?bucket = "\<lambda>c. js_sort compareTriage (map (\<lambda>t. enrich t inputs now)
    (get_list (foldl (bucket_step (cluster_of_doc ?cs)) [] ?s) (tc_id c)))"
  have res: "tg_clusters res = map (\<lambda>c. \<lparr>tgc_cluster_id = tc_id c, tgc_documents = tc_documents c,
      tgc_tensions = ?bucket c\<rparr>) ?cs" "tg_tension_count res = length ?s"
    using assms(1) cl by (auto simp: computeTensionTriage_def Let_def)
  have ids: "inj_on tc_id (set ?cs)"
    using assms(2) unfolding res by (simp add: distinct_map comp_def)
  have bucket: "get_list (foldl (bucket_step (cluster_of_doc ?cs)) [] ?s) (tc_id c) = filter (?in c) ?s"
    if "c \<in> set ?cs" for c
  proof -
    have "map_of (cluster_of_doc ?cs) d = Some (tc_id c) \<longleftrightarrow> d \<in> set (tc_documents c)" for d
      using cluster_of_doc_iff [OF dist] ids that by (auto dest: inj_onD)
    then show ?thesis unfolding buckets by (simp add: get_list_def)
  qed
  have scope: "\<exists>c \<in> set ?cs. ?in c t \<and> te_sourceB t \<in> set (tc_documents c)" if "t \<in> set ?s" for t
  proof -
    have "(te_sourceA t, te_sourceB t) \<in> tension_edges ?s" using that by (auto simp: tension_edges_def)
    then show ?thesis unfolding joint by (auto simp: Field_def joined_def)
  qed
  have both: "te_sourceB t \<in> set (tc_documents c)" if "t \<in> set ?s" "c \<in> set ?cs" "?in c t" for t c
  proof -
    from scope [OF that(1)] obtain c' where c': "c' \<in> set ?cs" "?in c' t" "te_sourceB t \<in> set (tc_documents c')" by blast
    then have "map_of (cluster_of_doc ?cs) (te_sourceA t) = Some (tc_id c')"
      "map_of (cluster_of_doc ?cs) (te_sourceA t) = Some (tc_id c)"
      using cluster_of_doc_iff [OF dist] that by blast+
    then show ?thesis using c' ids that by (auto dest: inj_onD)
  qed
  have "mset (concat (map tgc_tensions (tg_clusters res)))
      = image_mset (\<lambda>t. enrich t inputs now) (mset (concat (map (\<lambda>c. filter (?in c) ?s) ?cs)))"
    unfolding res using bucket by (simp add: comp_def del: filter_filter) (rule mset_concat_image, simp)
  also have "mset (concat (map (\<lambda>c. filter (?in c) ?s) ?cs))
      = mset (filter (\<lambda>t. te_sourceA t \<in> set (concat (map tc_documents ?cs))) ?s)"
    by (rule mset_buckets [OF dist])
  also have "filter (\<lambda>t. te_sourceA t \<in> set (concat (map tc_documents ?cs))) ?s = ?s"
    using scope by (intro filter_True) fastforce
  finally have one: "mset (concat (map tgc_tensions (tg_clusters res))) = mset (map (\<lambda>t. enrich t inputs now) ?s)" by simp
  then have "length (concat (map tgc_tensions (tg_clusters res))) = length ?s"
    by (metis length_map mset_eq_length)
  moreover have "list_all (\<lambda>c. list_all (\<lambda>t. ts_path (tt_a t) \<in> set (tgc_documents c) \<and> ts_path (tt_b t) \<in> set (tgc_documents c))
         (tgc_tensions c)) (tg_clusters res)"
    unfolding res using bucket both by (auto simp: list_all_iff enrich_def sideFor_def Let_def)
  ultimately show ?thesis using one res by simp
qed

definition demo_pair :: "string \<Rightarrow> string \<Rightarrow> tension_entry" where
  "demo_pair a b = \<lparr>te_id = Some ''tension-001'', te_date = ''2026-05-01'', te_title = ''t'', te_kind = Factual,
     te_sourceA = a, te_claimA = ''x'', te_sourceB = b, te_claimB = ''y'', te_status = ''unresolved'',
     te_logged_by = ''ann'', te_decided_by = None, te_resolved = False, te_resolution = None, te_positionA = None,
     te_positionB = None, te_readerA = None, te_readerB = None\<rparr>"

definition no_inputs :: triage_inputs where
  "no_inputs = \<lparr>ti_docMeta = [], ti_readHeat = [], ti_blast = []\<rparr>"

lemma demo_clusters:
  "map_option (\<lambda>r. map tc_id (tcr_clusters r)) (computeTensionClusters (\<lambda>s. s) [demo_pair ''a.md'' ''b.md''] 0)
     = Some [''cluster:a.md'' @ [nl] @ ''b.m'']"
  by (simp add: computeTensionClusters_def unite_tensions_def ufUnion_def ufFind_def group_doc_def group_tension_def
      ufRoot.simps ufCompress.simps demo_pair_def inScope_def cluster_of_def Let_def clusterIdFor_def
      string_order_def cmp_key_def)

theorem triage_complete_witness:
  "\<exists>res. computeTensionTriage (\<lambda>s. s) [demo_pair ''a.md'' ''b.md''] no_inputs 0 = Some res
    \<and> length (concat (map tgc_tensions (tg_clusters res))) = 1"
proof -
  let ?ts = "[demo_pair ''a.md'' ''b.md'']"
  have live: "inScope (demo_pair ''a.md'' ''b.md'')" by (simp add: demo_pair_def inScope_def)
  obtain cl where cl: "computeTensionClusters (\<lambda>s. s) ?ts 0 = Some cl" "length (map tc_id (tcr_clusters cl)) = 1"
    using demo_clusters by (auto simp: map_option_case split: option.splits)
  then obtain res where res: "computeTensionTriage (\<lambda>s. s) ?ts no_inputs 0 = Some res"
      "length (map tgc_cluster_id (tg_clusters res)) = 1"
    by (simp add: computeTensionTriage_def live Let_def)
  then have "distinct (map tgc_cluster_id (tg_clusters res))"
    by (metis One_nat_def distinct_singleton length_0_conv length_Suc_conv)
  from triage_complete [OF res(1) this] have "mset (concat (map tgc_tensions (tg_clusters res)))
      = mset (map (\<lambda>t. enrich t no_inputs 0) (filter inScope ?ts))" by blast
  from arg_cong [OF this, of size] have "length (concat (map tgc_tensions (tg_clusters res))) = length (filter inScope ?ts)"
    by (simp only: size_mset length_map)
  then show ?thesis using res(1) live by simp
qed

end
