(* ===== verification/BoardLedger.thy ===== *)
theory BoardLedger
  imports Dates Frontmatter
begin

text \<open>
  The board's data and its ledger: \<^verbatim>\<open>src/src/board/types.ts\<close>, \<^verbatim>\<open>src/src/board/identity.ts\<close> and
  \<^verbatim>\<open>src/src/board/ledger.ts\<close>. Evidence is a JSON value whose objects list their keys in the
  enumeration order of JavaScript; the hash of \<^verbatim>\<open>sha256Hex\<close> and the printing of
  \<^verbatim>\<open>JSON.stringify\<close> are parameters. The ledger file is the list of its lines after
  \<^verbatim>\<open>JSON.parse\<close>, a line being blank, unparsable, the literal \<^verbatim>\<open>null\<close> or a value of which the
  four guarded fields are read; \<open>None\<close> is a file that does not exist. The lemmas show that two
  findings share an identity only when they are the same finding, that a fingerprint does not
  depend on the order of keys, and that the ledger gives back the history of each finding.
\<close>

section \<open>Types\<close>

datatype board_column = ColNew | ColAccepted | ColWaiting | ColResolved | ColDismissed

definition BOARD_COLUMNS :: "board_column list" where
  "BOARD_COLUMNS = [ColNew, ColAccepted, ColWaiting, ColResolved, ColDismissed]"

datatype finding_source = SrcLint | SrcStaleness | SrcTension | SrcStaged | SrcTier2

definition source_name :: "finding_source \<Rightarrow> string" where
  "source_name s = (case s of SrcLint \<Rightarrow> ''lint'' | SrcStaleness \<Rightarrow> ''staleness''
     | SrcTension \<Rightarrow> ''tension'' | SrcStaged \<Rightarrow> ''staged'' | SrcTier2 \<Rightarrow> ''tier2'')"

text \<open>\<open>UnknownTarget\<close> is a target read from JSON whose kind the code does not know.\<close>

datatype finding_target =
    LintTarget string
  | StalenessTarget string
  | TensionTarget string
  | StagedTarget string
  | Tier2Target (artifact: string) (t2_unit: string) (edge_class: string)
  | UnknownTarget string

record finding_descriptor =
  fd_source :: finding_source
  fd_check :: string
  fd_target :: finding_target
  fd_label :: string
  fd_rbac_paths :: "string list option"

text \<open>The event types of the code, and any other string found in the file.\<close>

datatype ledger_event_type =
    EvNew | EvAccept | EvDefer | EvDismiss | EvReassign | EvResolved | EvReopened | EvOther string

definition event_name :: "ledger_event_type \<Rightarrow> string" where
  "event_name e = (case e of EvNew \<Rightarrow> ''new'' | EvAccept \<Rightarrow> ''accept'' | EvDefer \<Rightarrow> ''defer''
     | EvDismiss \<Rightarrow> ''dismiss'' | EvReassign \<Rightarrow> ''reassign'' | EvResolved \<Rightarrow> ''resolved''
     | EvReopened \<Rightarrow> ''reopened'' | EvOther s \<Rightarrow> s)"

definition LEDGER_EVENT_TYPES :: "ledger_event_type list" where
  "LEDGER_EVENT_TYPES = [EvNew, EvAccept, EvDefer, EvDismiss, EvReassign, EvResolved, EvReopened]"

definition event_of :: "string \<Rightarrow> ledger_event_type" where
  "event_of s = (case List.find (\<lambda>e. event_name e = s) LEDGER_EVENT_TYPES of None \<Rightarrow> EvOther s | Some e \<Rightarrow> e)"

datatype principal_type = PtHuman | PtAgent | PtSystem

record ledger_event =
  le_finding :: string
  le_event :: ledger_event_type
  le_by :: string
  le_ptype :: principal_type
  le_at :: string
  le_rationale :: "string option"
  le_expiry :: "string option"
  le_against :: string
  le_owner :: "string option"
  le_scheme :: string
  le_descriptor :: "finding_descriptor option"

datatype json = JNull | JBool bool | JNum rat | JStr string | JArr "json list" | JObj "(string \<times> json) list"

record finding =
  fi_key :: string
  fi_source :: finding_source
  fi_check :: string
  fi_target :: finding_target
  fi_discriminator :: "string option"
  fi_fingerprint :: string
  fi_certainty :: confidence
  fi_evidence :: "(string \<times> json) list"
  fi_suggested_action :: string
  fi_verify_predicate :: string
  fi_owner :: string
  fi_first_seen :: string
  fi_last_seen :: string
  fi_disposition :: board_column
  fi_history :: "ledger_event list"

section \<open>Identity\<close>

definition IDENTITY_SCHEME_VERSION :: string where "IDENTITY_SCHEME_VERSION = ''1''"

text \<open>\<open>None\<close> is the exception for an unknown target kind.\<close>

definition canonicalizeTarget :: "finding_target \<Rightarrow> string list option" where
  "canonicalizeTarget t = (case t of
       LintTarget p \<Rightarrow> Some [''lint'', p]
     | StalenessTarget p \<Rightarrow> Some [''staleness'', p]
     | TensionTarget i \<Rightarrow> Some [''tension'', i]
     | StagedTarget i \<Rightarrow> Some [''staged'', i]
     | Tier2Target a u e \<Rightarrow> Some [''tier2'', a, e, u]
     | UnknownTarget k \<Rightarrow> None)"

definition nul :: char where "nul = CHR 0x00"

definition deriveIdentity ::
    "(string \<Rightarrow> string) \<Rightarrow> finding_source \<Rightarrow> string \<Rightarrow> finding_target \<Rightarrow> string option \<Rightarrow> string option" where
  "deriveIdentity sha256Hex source check target discriminator = (case target of
       TensionTarget i \<Rightarrow> Some (''tension:'' @ i)
     | StagedTarget i \<Rightarrow> Some (''staged:'' @ i)
     | _ \<Rightarrow>
        (case canonicalizeTarget target of
           None \<Rightarrow> None
         | Some c \<Rightarrow>
             (let parts = [source_name source, check] @ c
                    @ (case discriminator of None \<Rightarrow> [] | Some d \<Rightarrow> [d])
              in Some (sha256Hex (join_with [nul] parts)))))"

text \<open>
  An object enumerates its array-index keys first, in numeric order, then its other keys in the order they
  were added: \<open>js_object\<close> puts a list of distinct keys in that order.
\<close>

definition is_index_key :: "string \<Rightarrow> bool" where
  "is_index_key k \<longleftrightarrow> k \<noteq> [] \<and> list_all is_digit k \<and> (k = ''0'' \<or> hd k \<noteq> CHR ''0'') \<and> dec_value k < 2 ^ 32 - 1"

definition js_object :: "(string \<times> 'v) list \<Rightarrow> (string \<times> 'v) list" where
  "js_object kvs = js_sort (\<lambda>a b. int (dec_value (fst a)) - int (dec_value (fst b))) (filter (\<lambda>kv. is_index_key (fst kv)) kvs)
     @ filter (\<lambda>kv. \<not> is_index_key (fst kv)) kvs"

fun canonicalizeEvidence :: "json \<Rightarrow> json" where
  "canonicalizeEvidence (JArr xs) = JArr (map canonicalizeEvidence xs)"
| "canonicalizeEvidence (JObj kvs) =
     JObj (js_object (js_sort (cmp_key fst) (map (\<lambda>(k, v). (k, canonicalizeEvidence v)) kvs)))"
| "canonicalizeEvidence v = v"

definition fingerprint_of :: "(string \<Rightarrow> string) \<Rightarrow> (json \<Rightarrow> string) \<Rightarrow> (string \<times> json) list \<Rightarrow> string" where
  "fingerprint_of sha256Hex stringify evidence = sha256Hex (stringify (canonicalizeEvidence (JObj evidence)))"

section \<open>The ledger file\<close>

record raw_event =
  re_finding :: "string option"
  re_event :: "string option"
  re_against :: "string option"
  re_at :: "string option"
  re_rest :: ledger_event

datatype ledger_line = BlankLine | CorruptLine | NullLine | JsonLine raw_event

type_synonym ledger_file = "ledger_line list option"

datatype board_error =
    LedgerUnreadable
  | LedgerNullLine
  | LedgerAppendFailed string
  | EmptyHistory

record ledger_data =
  ld_byFinding :: "(string, ledger_event list) jmap"
  ld_flat :: "ledger_event list"

definition push_event :: "ledger_data \<Rightarrow> ledger_event \<Rightarrow> ledger_data" where
  "push_event d e =
     \<lparr>ld_byFinding = (case map_of (ld_byFinding d) (le_finding e) of
          Some existing \<Rightarrow> AList.update (le_finding e) (existing @ [e]) (ld_byFinding d)
        | None \<Rightarrow> AList.update (le_finding e) [e] (ld_byFinding d)),
      ld_flat = ld_flat d @ [e]\<rparr>"

definition guarded_event :: "raw_event \<Rightarrow> ledger_event option" where
  "guarded_event r =
     (case (re_finding r, re_event r, re_against r, re_at r) of
        (Some f, Some v, Some g, Some t) \<Rightarrow>
          Some ((re_rest r)\<lparr>le_finding := f, le_event := event_of v, le_against := g, le_at := t\<rparr>)
      | _ \<Rightarrow> None)"

fun load_lines :: "ledger_data \<Rightarrow> ledger_line list \<Rightarrow> board_error + ledger_data" where
  "load_lines d [] = Inr d"
| "load_lines d (BlankLine # ls) = load_lines d ls"
| "load_lines d (CorruptLine # ls) = load_lines d ls"
| "load_lines d (NullLine # ls) = Inl LedgerNullLine"
| "load_lines d (JsonLine r # ls) =
     load_lines (case guarded_event r of None \<Rightarrow> d | Some e \<Rightarrow> push_event d e) ls"

definition loadLedger :: "bool \<Rightarrow> ledger_file \<Rightarrow> board_error + ledger_data" where
  "loadLedger fault file =
     (case file of
        None \<Rightarrow> Inr \<lparr>ld_byFinding = [], ld_flat = []\<rparr>
      | Some ls \<Rightarrow> if fault then Inl LedgerUnreadable else load_lines \<lparr>ld_byFinding = [], ld_flat = []\<rparr> ls)"

definition event_line :: "ledger_event \<Rightarrow> ledger_line" where
  "event_line e = JsonLine \<lparr>re_finding = Some (le_finding e), re_event = Some (event_name (le_event e)),
     re_against = Some (le_against e), re_at = Some (le_at e), re_rest = e\<rparr>"

definition appendEvent :: "bool \<Rightarrow> ledger_file \<Rightarrow> ledger_event \<Rightarrow> ledger_file \<times> (board_error + ledger_event)" where
  "appendEvent fault file event =
     (let full = event\<lparr>le_scheme := IDENTITY_SCHEME_VERSION\<rparr> in
      if fault then (file, Inl (LedgerAppendFailed (le_finding event)))
      else (Some ((case file of None \<Rightarrow> [] | Some ls \<Rightarrow> ls) @ [event_line full]), Inr full))"

section \<open>The fold of one history\<close>

record current_disposition =
  cd_event :: ledger_event_type
  cd_against :: string
  cd_expiry :: "string option"
  cd_owner :: "string option"
  cd_expired :: bool
  cd_latest :: ledger_event

definition disposition_step :: "string option \<times> string option \<Rightarrow> ledger_event \<Rightarrow> string option \<times> string option" where
  "disposition_step st e =
     ((if le_event e = EvReassign \<and> le_owner e \<noteq> None then le_owner e else fst st),
      (if le_event e = EvAccept \<or> le_event e = EvResolved then None
       else if le_event e = EvDefer \<or> le_event e = EvDismiss then le_expiry e else snd st))"

definition currentDisposition :: "ledger_event list \<Rightarrow> int option \<Rightarrow> board_error + current_disposition" where
  "currentDisposition events now =
     (if events = [] then Inl EmptyHistory
      else
        (let latest = last events;
             st = foldl disposition_step (None, None) events;
             expired = (case (snd st, now) of
                          (Some x, Some n) \<Rightarrow> (case date_parse x of None \<Rightarrow> False | Some t \<Rightarrow> t < n)
                        | _ \<Rightarrow> False)
         in Inr \<lparr>cd_event = le_event latest, cd_against = le_against latest, cd_expiry = snd st,
                 cd_owner = fst st, cd_expired = expired, cd_latest = latest\<rparr>))"

definition eventTimestamps :: "ledger_event list \<Rightarrow> board_error + string \<times> string" where
  "eventTimestamps events =
     (case events of
        [] \<Rightarrow> Inl EmptyHistory
      | e0 # _ \<Rightarrow>
          Inr (foldl (\<lambda>(first, final) e. (if le_at e < first then le_at e else first,
                                          if le_at e > final then le_at e else final))
                 (le_at e0, le_at e0) events))"

section \<open>Identities are unique\<close>

definition plain :: "string \<Rightarrow> bool" where "plain s \<longleftrightarrow> nul \<notin> set s"

definition plain_finding :: "string \<Rightarrow> finding_target \<Rightarrow> string option \<Rightarrow> bool" where
  "plain_finding check target disc \<longleftrightarrow> plain check \<and> pred_option plain disc
     \<and> (case canonicalizeTarget target of None \<Rightarrow> True | Some c \<Rightarrow> list_all plain c)"

text \<open>What a hash must promise: no collisions, and no output that looks like a native id.\<close>

definition good_hash :: "(string \<Rightarrow> string) \<Rightarrow> bool" where
  "good_hash h \<longleftrightarrow> inj h \<and> (\<forall>x. take 8 (h x) \<noteq> ''tension:'' \<and> take 7 (h x) \<noteq> ''staged:'')"

definition hash_parts :: "finding_source \<Rightarrow> string \<Rightarrow> string list \<Rightarrow> string option \<Rightarrow> string list" where
  "hash_parts source check c disc = [source_name source, check] @ c @ (case disc of None \<Rightarrow> [] | Some d \<Rightarrow> [d])"

lemma join_parts_eq:
  assumes "xs \<noteq> []" "ys \<noteq> []" "list_all plain xs" "list_all plain ys"
    and "join_with [nul] xs = join_with [nul] ys"
  shows "xs = ys"
proof -
  have "split_on nul (join_with [nul] xs) = xs" "split_on nul (join_with [nul] ys) = ys"
    using assms(1-4) by (intro split_join; simp add: list_all_iff plain_def)+
  with assms(5) show ?thesis by metis
qed

lemma plain_source: "plain (source_name s)"
  by (cases s) (simp_all add: source_name_def plain_def nul_def)

lemma source_name_inj: "source_name s = source_name s' \<Longrightarrow> s = s'"
  by (cases s; cases s') (simp_all add: source_name_def)

lemma target_parts_inj:
  assumes "canonicalizeTarget t = Some c" "canonicalizeTarget t' = Some c'" "c @ q = c' @ q'"
  shows "t = t' \<and> q = q'"
proof -
  have "the (canonicalizeTarget t) @ q = the (canonicalizeTarget t') @ q'"
    "canonicalizeTarget t \<noteq> None" "canonicalizeTarget t' \<noteq> None"
    using assms by simp_all
  then show ?thesis
    by (cases t; cases t'; simp add: canonicalizeTarget_def)
qed

lemma hash_parts_inj:
  assumes "canonicalizeTarget t = Some c" "canonicalizeTarget t' = Some c'"
    and "hash_parts s k c d = hash_parts s' k' c' d'"
  shows "s = s' \<and> k = k' \<and> t = t' \<and> d = d'"
proof -
  let ?q = "\<lambda>d :: string option. case d of None \<Rightarrow> [] | Some d \<Rightarrow> [d]"
  have "source_name s = source_name s'" "k = k'" and cat: "c @ ?q d = c' @ ?q d'"
    using assms(3) by (simp_all add: hash_parts_def)
  moreover have "t = t' \<and> ?q d = ?q d'"
    using target_parts_inj [OF assms(1,2) cat] by (simp split: option.splits)
  moreover have "d = d'" if "?q d = ?q d'" using that by (simp split: option.splits)
  ultimately show ?thesis using source_name_inj by blast
qed

lemma plain_parts:
  assumes "canonicalizeTarget t = Some c" "plain_finding k t d"
  shows "list_all plain (hash_parts s k c d)"
  using assms plain_source [of s]
  by (cases d) (auto simp: hash_parts_def plain_finding_def list_all_iff)

lemma deriveIdentity_cases:
  obtains i where "t = TensionTarget i" "deriveIdentity h s k t d = Some (''tension:'' @ i)"
  | i where "t = StagedTarget i" "deriveIdentity h s k t d = Some (''staged:'' @ i)"
  | c where "canonicalizeTarget t = Some c" "\<And>i. t \<noteq> TensionTarget i" "\<And>i. t \<noteq> StagedTarget i"
      "deriveIdentity h s k t d = Some (h (join_with [nul] (hash_parts s k c d)))"
  | "deriveIdentity h s k t d = None"
  by (cases t) (auto simp: deriveIdentity_def canonicalizeTarget_def hash_parts_def Let_def)

lemma hash_not_native:
  assumes "good_hash h"
  shows "h y \<noteq> ''tension:'' @ i" "h y \<noteq> ''staged:'' @ i"
proof -
  have "take 8 (h y) \<noteq> ''tension:''" "take 7 (h y) \<noteq> ''staged:''"
    using assms by (simp_all add: good_hash_def)
  then show "h y \<noteq> ''tension:'' @ i" "h y \<noteq> ''staged:'' @ i" by auto
qed

lemma identity_unique:
  assumes "good_hash h" "plain_finding k t d" "plain_finding k' t' d'"
    and some: "deriveIdentity h s k t d = Some x" "deriveIdentity h s' k' t' d' = Some x"
  shows "t = t' \<and> (s = s' \<and> k = k' \<and> d = d' \<or> (\<exists>i. t = TensionTarget i \<or> t = StagedTarget i))"
proof -
  note clash = hash_not_native [OF assms(1)] hash_not_native [OF assms(1), symmetric]
  consider i where "t = TensionTarget i" "x = ''tension:'' @ i" | i where "t = StagedTarget i" "x = ''staged:'' @ i"
    | c where "canonicalizeTarget t = Some c" "x = h (join_with [nul] (hash_parts s k c d))"
    using some(1) by (cases rule: deriveIdentity_cases [of t h s k d]) auto
  note l = this
  consider i where "t' = TensionTarget i" "x = ''tension:'' @ i" | i where "t' = StagedTarget i" "x = ''staged:'' @ i"
    | c where "canonicalizeTarget t' = Some c" "x = h (join_with [nul] (hash_parts s' k' c d'))"
    using some(2) by (cases rule: deriveIdentity_cases [of t' h s' k' d']) auto
  note r = this
  show ?thesis
  proof (cases rule: l)
    case 1
    then show ?thesis using clash by (cases rule: r) auto
  next
    case 2
    then show ?thesis using clash by (cases rule: r) auto
  next
    case (3 c)
    note c = 3
    show ?thesis
    proof (cases rule: r)
      case (3 c')
      have "join_with [nul] (hash_parts s k c d) = join_with [nul] (hash_parts s' k' c' d')"
        using c(2) 3(2) assms(1) by (auto simp: good_hash_def inj_eq)
      moreover have "hash_parts s k c d \<noteq> []" "hash_parts s' k' c' d' \<noteq> []" by (simp_all add: hash_parts_def)
      ultimately have "hash_parts s k c d = hash_parts s' k' c' d'"
        using join_parts_eq plain_parts [OF c(1) assms(2)] plain_parts [OF 3(1) assms(3)] by blast
      then show ?thesis using hash_parts_inj [OF c(1) 3(1)] by blast
    qed (use clash c in simp_all)
  qed
qed



section \<open>Fingerprints ignore the order of keys\<close>

text \<open>
  Two JSON values with the same content: arrays element by element, objects up to the order of their
  (distinct) keys.
\<close>

inductive same_content :: "json \<Rightarrow> json \<Rightarrow> bool" where
  null_same: "same_content JNull JNull"
| bool_same: "same_content (JBool b) (JBool b)"
| num_same: "same_content (JNum n) (JNum n)"
| str_same: "same_content (JStr s) (JStr s)"
| arr_same: "list_all2 same_content xs ys \<Longrightarrow> same_content (JArr xs) (JArr ys)"
| obj_same: "list_all2 (\<lambda>a b. fst a = fst b \<and> same_content (snd a) (snd b)) kvs kvs'
    \<Longrightarrow> distinct (map fst kvs) \<Longrightarrow> mset kvs' = mset kvs'' \<Longrightarrow> same_content (JObj kvs) (JObj kvs'')"

interpretation key_order: comparator "cmp_key fst :: (string \<times> json) \<Rightarrow> (string \<times> json) \<Rightarrow> int"
  by (rule comparator_key)

lemma sort_keys_mset:
  assumes "mset kvs = mset kvs'" "distinct (map fst kvs)"
  shows "js_sort (cmp_key fst) kvs = js_sort (cmp_key fst) (kvs' :: (string \<times> json) list)"
proof (rule key_order.sort_cong_mset [OF assms(1)], intro ballI impI)
  fix x y assume "x \<in> set kvs" "y \<in> set kvs" "cmp_key fst x y \<le> 0" "cmp_key fst y x \<le> 0"
  then have "fst x = fst y" by (auto simp: cmp_key_def split: if_splits)
  then show "x = y"
    using assms(2) \<open>x \<in> set kvs\<close> \<open>y \<in> set kvs\<close> by (metis distinct_map inj_onD)
qed

lemma same_content_canonical: "same_content v w \<Longrightarrow> canonicalizeEvidence v = canonicalizeEvidence w"
proof (induction rule: same_content.induct)
  case (arr_same xs ys)
  then have "map canonicalizeEvidence xs = map canonicalizeEvidence ys"
    by (auto simp: list_all2_conv_all_nth intro: nth_equalityI)
  then show ?case by simp
next
  case (obj_same kvs kvs' kvs'')
  let ?c = "\<lambda>(k, v). (k, canonicalizeEvidence v)"
  have same: "map ?c kvs = map ?c kvs'"
    using obj_same(1) by (auto simp: list_all2_conv_all_nth case_prod_beta intro: nth_equalityI)
  have "map fst (map ?c kvs) = map fst kvs" by auto
  then have "distinct (map fst (map ?c kvs'))" using obj_same(2) same by metis
  moreover have "mset (map ?c kvs') = mset (map ?c kvs'')" using obj_same(3) by simp
  ultimately have "js_sort (cmp_key fst) (map ?c kvs') = js_sort (cmp_key fst) (map ?c kvs'')"
    by (intro sort_keys_mset)
  then show ?case using same by simp
qed simp_all

text \<open>
  Evidence with the same content has the same fingerprint, however its objects, at any depth, list
  their keys; so a dismissal does not lapse because a source rebuilt its evidence in another order.
\<close>

theorem fingerprint_ignores_key_order:
  assumes "same_content (JObj e) (JObj e')"
  shows "fingerprint_of h stringify e = fingerprint_of h stringify e'"
  using same_content_canonical [OF assms] by (simp only: fingerprint_of_def)

theorem fingerprint_ignores_key_order_witness:
  "fingerprint_of (\<lambda>s. s) (\<lambda>v. case v of JObj kvs \<Rightarrow> join_with '','' (map fst kvs) | _ \<Rightarrow> [])
     [(''score'', JNum 1), (''age'', JArr [JNull])] =
   fingerprint_of (\<lambda>s. s) (\<lambda>v. case v of JObj kvs \<Rightarrow> join_with '','' (map fst kvs) | _ \<Rightarrow> [])
     [(''age'', JArr [JNull]), (''score'', JNum 1)]"
  by (rule fingerprint_ignores_key_order,
      rule obj_same [where kvs' = "[(''score'', JNum 1), (''age'', JArr [JNull])]"])
    (auto intro: same_content.intros)

section \<open>The ledger gives back each history\<close>

definition history_of :: "ledger_event list \<Rightarrow> string \<Rightarrow> ledger_event list" where
  "history_of es k = filter (\<lambda>e. le_finding e = k) es"

definition data_of :: "ledger_event list \<Rightarrow> ledger_data" where
  "data_of es = foldl push_event \<lparr>ld_byFinding = [], ld_flat = []\<rparr> es"

lemma data_of_snoc [simp]: "data_of (es @ [e]) = push_event (data_of es) e"
  by (simp add: data_of_def)

lemma data_of_Nil [simp]: "data_of [] = \<lparr>ld_byFinding = [], ld_flat = []\<rparr>"
  by (simp add: data_of_def)

lemma data_of_flat: "ld_flat (data_of es) = es"
  by (induction es rule: rev_induct) (auto simp: push_event_def)

lemma data_of_lookup:
  "map_of (ld_byFinding (data_of es)) k = (if history_of es k = [] then None else Some (history_of es k))"
  by (induction es rule: rev_induct) (auto simp: push_event_def history_of_def split: option.splits if_splits)

lemma data_of_keys: "jkeys (ld_byFinding (data_of es)) = remdups_first (map le_finding es)"
proof (induction es rule: rev_induct)
  case (snoc e es)
  have "le_finding e \<in> set (jkeys (ld_byFinding (data_of es))) \<longleftrightarrow> le_finding e \<in> le_finding ` set es"
    using snoc by simp
  then show ?case using snoc by (auto simp: push_event_def jkeys_update split: option.splits)
qed simp

lemma data_of_distinct: "distinct (jkeys (ld_byFinding (data_of es)))"
  by (simp add: data_of_keys)

lemma event_of_name: "v \<in> set LEDGER_EVENT_TYPES \<Longrightarrow> event_of (event_name v) = v"
proof -
  have "list_all (\<lambda>v. event_of (event_name v) = v) LEDGER_EVENT_TYPES" by code_simp
  then show "v \<in> set LEDGER_EVENT_TYPES \<Longrightarrow> event_of (event_name v) = v" by (simp add: list_all_iff)
qed

text \<open>A type is known when it is one of the code's; an unknown one must not spell a known name.\<close>

definition proper_event :: "ledger_event \<Rightarrow> bool" where
  "proper_event e \<longleftrightarrow> event_of (event_name (le_event e)) = le_event e"

lemma guarded_event_line: "proper_event e \<Longrightarrow> guarded_event
    \<lparr>re_finding = Some (le_finding e), re_event = Some (event_name (le_event e)),
     re_against = Some (le_against e), re_at = Some (le_at e), re_rest = e\<rparr> = Some e"
  by (cases e) (simp add: guarded_event_def proper_event_def)

definition good_line :: "ledger_line \<Rightarrow> bool" where
  "good_line l \<longleftrightarrow> l \<noteq> NullLine"

definition line_event :: "ledger_line \<Rightarrow> ledger_event option" where
  "line_event l = (case l of JsonLine r \<Rightarrow> guarded_event r | _ \<Rightarrow> None)"

lemma load_lines_good:
  "list_all good_line ls \<Longrightarrow> load_lines d ls = Inr (foldl push_event d (List.map_filter line_event ls))"
  by (induction d ls rule: load_lines.induct)
    (auto simp: good_line_def line_event_def map_filter_def split: option.splits)

lemma load_lines_null: "NullLine \<in> set ls \<Longrightarrow> load_lines d ls = Inl LedgerNullLine"
  by (induction d ls rule: load_lines.induct) auto

definition file_lines :: "ledger_file \<Rightarrow> ledger_line list" where
  "file_lines file = (case file of None \<Rightarrow> [] | Some ls \<Rightarrow> ls)"

definition file_events :: "ledger_file \<Rightarrow> ledger_event list" where
  "file_events file = List.map_filter line_event (file_lines file)"

definition good_file :: "ledger_file \<Rightarrow> bool" where
  "good_file file \<longleftrightarrow> list_all good_line (file_lines file)"

lemma loadLedger_good: "good_file file \<Longrightarrow> loadLedger False file = Inr (data_of (file_events file))"
  by (cases "file") (auto simp: loadLedger_def good_file_def file_events_def file_lines_def data_of_def load_lines_good
      map_filter_def)

definition stamped :: "ledger_event \<Rightarrow> ledger_event" where
  "stamped e = e\<lparr>le_scheme := IDENTITY_SCHEME_VERSION\<rparr>"

lemma stamped_simps [simp]:
  "le_finding (stamped e) = le_finding e" "le_event (stamped e) = le_event e" "le_at (stamped e) = le_at e"
  "le_expiry (stamped e) = le_expiry e" "le_owner (stamped e) = le_owner e" "le_against (stamped e) = le_against e"
  "le_descriptor (stamped e) = le_descriptor e" "proper_event (stamped e) = proper_event e"
  by (simp_all add: stamped_def proper_event_def)

lemma append_events:
  "proper_event e \<Longrightarrow> file_events (fst (appendEvent False file e)) = file_events file @ [stamped e]"
  "good_file file \<Longrightarrow> good_file (fst (appendEvent fault file e))"
  using guarded_event_line [of "stamped e"]
  by (auto simp: appendEvent_def file_events_def file_lines_def good_file_def good_line_def event_line_def
      line_event_def map_filter_def stamped_def [symmetric] Let_def split: option.splits)

end
