(* ===== verification/BoardEngine.thy ===== *)
theory BoardEngine
  imports BoardLedger
begin

text \<open>
  The board engine: \<^verbatim>\<open>src/src/board/reconcile.ts\<close> and \<^verbatim>\<open>src/src/board/board.ts\<close>. \<open>reconcile\<close> is
  the pure function of the code, its exceptions values of \<open>board_error\<close>; \<open>listBoard\<close> takes the
  lists the source adapters return, the ledger file, and which of the reads and appends fail, and
  gives the new file with the board or the exception. The theorems show that a board settles after
  one run, that a run cut off by a failing append is completed by the next one, that each finding
  has one card in one column, and that a human decision survives a resolution and a reopening.
\<close>

section \<open>The pure engine\<close>

fun prior_before :: "ledger_event list \<Rightarrow> board_column" where
  "prior_before [] = ColNew"
| "prior_before (e # es) =
     (case le_event e of EvAccept \<Rightarrow> ColAccepted | EvDefer \<Rightarrow> ColWaiting | EvDismiss \<Rightarrow> ColDismissed
      | _ \<Rightarrow> prior_before es)"

text \<open>The events, last first: skip to the marker, then look for the human event.\<close>

definition is_marker :: "ledger_event \<Rightarrow> bool" where
  "is_marker e \<longleftrightarrow> le_event e = EvResolved \<or> le_event e = EvReopened"

definition priorHumanDisposition :: "ledger_event list \<Rightarrow> board_column" where
  "priorHumanDisposition events = prior_before (drop 1 (dropWhile (\<lambda>e. \<not> is_marker e) (rev events)))"

definition column_of :: "finding \<Rightarrow> ledger_event list \<Rightarrow> current_disposition \<Rightarrow> board_column \<times> bool" where
  "column_of f events disp = (case cd_event disp of
       EvAccept \<Rightarrow> (ColAccepted, False)
     | EvDefer \<Rightarrow> (if cd_expired disp then ColNew else ColWaiting, False)
     | EvDismiss \<Rightarrow>
         (if cd_against disp \<noteq> fi_fingerprint f \<or> cd_expired disp then ColNew else ColDismissed, False)
     | EvResolved \<Rightarrow> (priorHumanDisposition events, True)
     | EvReopened \<Rightarrow> (priorHumanDisposition events, False)
     | _ \<Rightarrow> (ColNew, False))"

definition columnForLiveWithLedger ::
    "finding \<Rightarrow> ledger_event list \<Rightarrow> int \<Rightarrow> board_error + board_column \<times> bool" where
  "columnForLiveWithLedger f events now =
     (case currentDisposition events (Some now) of Inl e \<Rightarrow> Inl e | Inr disp \<Rightarrow> Inr (column_of f events disp))"

definition buildSystemEvent ::
    "string \<Rightarrow> ledger_event_type \<Rightarrow> string \<Rightarrow> int \<Rightarrow> finding_descriptor option \<Rightarrow> ledger_event" where
  "buildSystemEvent fid event against now desc =
     \<lparr>le_finding = fid, le_event = event, le_by = ''system'', le_ptype = PtSystem, le_at = to_iso now,
      le_rationale = None, le_expiry = None, le_against = against, le_owner = None,
      le_scheme = IDENTITY_SCHEME_VERSION, le_descriptor = desc\<rparr>"

fun first_some :: "('a \<Rightarrow> 'b option) \<Rightarrow> 'a list \<Rightarrow> 'b option" where
  "first_some f [] = None"
| "first_some f (x # xs) = (case f x of None \<Rightarrow> first_some f xs | Some y \<Rightarrow> Some y)"

definition latestDescriptor :: "ledger_event list \<Rightarrow> finding_descriptor option" where
  "latestDescriptor events = first_some le_descriptor (rev events)"

definition skeletonFinding :: "string \<Rightarrow> ledger_event list \<Rightarrow> board_error + finding" where
  "skeletonFinding key events =
     (case eventTimestamps events of Inl e \<Rightarrow> Inl e
      | Inr (first, final) \<Rightarrow>
         (let owner = first_some le_owner (rev events);
              skeleton = (\<lambda>src check target.
                \<lparr>fi_key = key, fi_source = src, fi_check = check, fi_target = target, fi_discriminator = None,
                 fi_fingerprint = le_against (last events), fi_certainty = ConfMedium, fi_evidence = [],
                 fi_suggested_action = [], fi_verify_predicate = [],
                 fi_owner = (case owner of None \<Rightarrow> [] | Some w \<Rightarrow> w),
                 fi_first_seen = first, fi_last_seen = final, fi_disposition = ColResolved,
                 fi_history = events\<rparr>)
          in Inr (case latestDescriptor events of
                    Some d \<Rightarrow> skeleton (fd_source d) (fd_check d) (fd_target d)
                  | None \<Rightarrow> skeleton SrcStaleness ''unknown'' (StalenessTarget key))))"

text \<open>The bodies of the two loops: the cards and the events one finding adds.\<close>

definition live_step ::
    "(string, ledger_event list) jmap \<Rightarrow> int \<Rightarrow> finding \<Rightarrow> board_error + finding list \<times> ledger_event list" where
  "live_step ledger now f =
     (case map_of ledger (fi_key f) of
        None \<Rightarrow> Inr ([f\<lparr>fi_disposition := ColNew, fi_history := []\<rparr>], [])
      | Some events \<Rightarrow>
          if events = [] then Inr ([f\<lparr>fi_disposition := ColNew, fi_history := []\<rparr>], [])
          else (case (eventTimestamps events, columnForLiveWithLedger f events now) of
                  (Inl e, _) \<Rightarrow> Inl e
                | (_, Inl e) \<Rightarrow> Inl e
                | (Inr (first, final), Inr (column, shouldEmitReopen)) \<Rightarrow>
                    Inr ([f\<lparr>fi_disposition := column, fi_history := events, fi_first_seen := first,
                            fi_last_seen := final\<rparr>],
                         if shouldEmitReopen
                         then [buildSystemEvent (fi_key f) EvReopened (fi_fingerprint f) now (latestDescriptor events)]
                         else [])))"

definition absent_step ::
    "(string, finding) jmap \<Rightarrow> int \<Rightarrow> string \<times> ledger_event list \<Rightarrow> board_error + finding list \<times> ledger_event list" where
  "absent_step liveByKey now ke =
     (case ke of (key, events) \<Rightarrow>
        if map_of liveByKey key \<noteq> None then Inr ([], [])
        else (case currentDisposition events (Some now) of
           Inl e \<Rightarrow> Inl e
         | Inr disp \<Rightarrow>
             if cd_event disp = EvAccept \<or> cd_event disp = EvReopened then
               (case skeletonFinding key events of Inl e \<Rightarrow> Inl e
                | Inr f \<Rightarrow> Inr ([f], [buildSystemEvent key EvResolved (cd_against disp) now (latestDescriptor events)]))
             else if cd_event disp = EvResolved then
               (case skeletonFinding key events of Inl e \<Rightarrow> Inl e | Inr f \<Rightarrow> Inr ([f], []))
             else Inr ([], [])))"

definition reconcile ::
    "finding list \<Rightarrow> (string, ledger_event list) jmap \<Rightarrow> int \<Rightarrow> board_error + finding list \<times> ledger_event list" where
  "reconcile liveFindings ledger now =
     (let liveByKey = index_by fi_key liveFindings in
      case collect (live_step ledger now) ([], []) liveFindings of
        Inl e \<Rightarrow> Inl e
      | Inr acc \<Rightarrow> collect (absent_step liveByKey now) acc ledger)"

section \<open>Filters and columns\<close>

record board_filters =
  bf_collection :: "string option"
  bf_check :: "string option"
  bf_certainty :: "confidence option"
  bf_owner :: "string option"
  bf_min_age_days :: "rat option"
  bf_document :: "string option"

text \<open>\<^verbatim>\<open>evidence.key\<close>, when it is a string; \<open>split("/")[0]\<close> of it.\<close>

definition evidence_string :: "finding \<Rightarrow> string \<Rightarrow> string option" where
  "evidence_string f key = (case map_of (fi_evidence f) key of Some (JStr s) \<Rightarrow> Some s | _ \<Rightarrow> None)"

definition collectionOf :: "finding \<Rightarrow> string option" where
  "collectionOf f = (case fi_target f of
       LintTarget p \<Rightarrow> Some (first_segment p)
     | StalenessTarget p \<Rightarrow> Some (first_segment p)
     | StagedTarget i \<Rightarrow> map_option first_segment (evidence_string f ''targetPath'')
     | TensionTarget i \<Rightarrow> map_option first_segment (evidence_string f ''sourceA'')
     | Tier2Target a u e \<Rightarrow> Some (first_segment a)
     | UnknownTarget k \<Rightarrow> None)"

definition documentMatches :: "finding \<Rightarrow> string \<Rightarrow> bool" where
  "documentMatches f document = (case fi_target f of
       LintTarget p \<Rightarrow> p = document
     | StalenessTarget p \<Rightarrow> p = document
     | StagedTarget i \<Rightarrow> evidence_string f ''targetPath'' = Some document
     | TensionTarget i \<Rightarrow>
         evidence_string f ''sourceA'' = Some document \<or> evidence_string f ''sourceB'' = Some document
     | Tier2Target a u e \<Rightarrow> a = document \<or> u = document
     | UnknownTarget k \<Rightarrow> False)"

text \<open>The age test: an unparsable \<open>first_seen\<close> makes the age \<^verbatim>\<open>NaN\<close>, which is not below the limit.\<close>

definition old_enough :: "int \<Rightarrow> finding \<Rightarrow> rat \<Rightarrow> bool" where
  "old_enough now f minAge =
     (case date_parse (fi_first_seen f) of None \<Rightarrow> True
      | Some t \<Rightarrow> \<not> of_int ((now - t) div MS_PER_DAY) < minAge)"

definition filter_keeps :: "board_filters \<Rightarrow> int \<Rightarrow> finding \<Rightarrow> bool" where
  "filter_keeps flt now f \<longleftrightarrow>
     (case bf_collection flt of None \<Rightarrow> True | Some c \<Rightarrow> collectionOf f = Some c)
     \<and> (case bf_check flt of None \<Rightarrow> True | Some c \<Rightarrow> fi_check f = c)
     \<and> (case bf_certainty flt of None \<Rightarrow> True | Some c \<Rightarrow> fi_certainty f = c)
     \<and> (case bf_owner flt of None \<Rightarrow> True | Some w \<Rightarrow> fi_owner f = w)
     \<and> (case bf_min_age_days flt of None \<Rightarrow> True | Some m \<Rightarrow> old_enough now f m)
     \<and> (case bf_document flt of None \<Rightarrow> True | Some d \<Rightarrow> documentMatches f d)"

definition applyFilters :: "finding list \<Rightarrow> board_filters \<Rightarrow> int \<Rightarrow> finding list" where
  "applyFilters findings flt now = filter (filter_keeps flt now) findings"

record board_columns =
  bc_new :: "finding list"
  bc_accepted :: "finding list"
  bc_waiting :: "finding list"
  bc_resolved :: "finding list"
  bc_dismissed :: "finding list"

definition push_column :: "board_columns \<Rightarrow> finding \<Rightarrow> board_columns" where
  "push_column b f = (case fi_disposition f of
       ColNew \<Rightarrow> b\<lparr>bc_new := bc_new b @ [f]\<rparr>
     | ColAccepted \<Rightarrow> b\<lparr>bc_accepted := bc_accepted b @ [f]\<rparr>
     | ColWaiting \<Rightarrow> b\<lparr>bc_waiting := bc_waiting b @ [f]\<rparr>
     | ColResolved \<Rightarrow> b\<lparr>bc_resolved := bc_resolved b @ [f]\<rparr>
     | ColDismissed \<Rightarrow> b\<lparr>bc_dismissed := bc_dismissed b @ [f]\<rparr>)"

definition groupByColumn :: "finding list \<Rightarrow> board_columns" where
  "groupByColumn findings = foldl push_column
     \<lparr>bc_new = [], bc_accepted = [], bc_waiting = [], bc_resolved = [], bc_dismissed = []\<rparr> findings"

section \<open>The entry point\<close>

record board_result =
  br_columns :: board_columns
  br_all :: "finding list"

text \<open>The append loop: \<open>faults\<close> says for each append whether it fails; beyond its end none does.\<close>

fun persist :: "bool list \<Rightarrow> ledger_file \<Rightarrow> ledger_event list \<Rightarrow> ledger_file \<times> board_error option" where
  "persist faults file [] = (file, None)"
| "persist faults file (e # es) =
     (case appendEvent (case faults of [] \<Rightarrow> False | b # _ \<Rightarrow> b) file e of
        (file', Inl err) \<Rightarrow> (file', Some err)
      | (file', Inr _) \<Rightarrow> persist (tl faults) file' es)"

definition listBoard ::
    "finding list list \<Rightarrow> bool \<Rightarrow> bool list \<Rightarrow> board_filters option \<Rightarrow> int \<Rightarrow> ledger_file
     \<Rightarrow> ledger_file \<times> (board_error + board_result)" where
  "listBoard perAdapter readFault faults filters now file =
     (let live = concat perAdapter in
      case loadLedger readFault file of
        Inl e \<Rightarrow> (file, Inl e)
      | Inr d \<Rightarrow>
          (case reconcile live (ld_byFinding d) now of
             Inl e \<Rightarrow> (file, Inl e)
           | Inr (findings, emit) \<Rightarrow>
               (case persist faults file emit of
                  (file', Some e) \<Rightarrow> (file', Inl e)
                | (file', None) \<Rightarrow>
                    (let visible = (case filters of None \<Rightarrow> findings | Some flt \<Rightarrow> applyFilters findings flt now)
                     in (file', Inr \<lparr>br_columns = groupByColumn visible, br_all = visible\<rparr>)))))"

section \<open>What a run emits\<close>

text \<open>
  Over a ledger that holds the events \<open>es\<close> both loops run without an exception; \<open>live_emit\<close>,
  \<open>absent_emit\<close> and their cards say what one subject adds.
\<close>

definition live_emit :: "ledger_event list \<Rightarrow> int \<Rightarrow> finding \<Rightarrow> ledger_event list" where
  "live_emit es now f =
     (let h = history_of es (fi_key f) in
      if h \<noteq> [] \<and> le_event (last h) = EvResolved
      then [buildSystemEvent (fi_key f) EvReopened (fi_fingerprint f) now (latestDescriptor h)] else [])"

definition absent_emit :: "ledger_event list \<Rightarrow> int \<Rightarrow> string \<Rightarrow> ledger_event list" where
  "absent_emit es now k =
     (let h = history_of es k in
      if h \<noteq> [] \<and> (le_event (last h) = EvAccept \<or> le_event (last h) = EvReopened)
      then [buildSystemEvent k EvResolved (le_against (last h)) now (latestDescriptor h)] else [])"

definition live_column :: "ledger_event list \<Rightarrow> int \<Rightarrow> finding \<Rightarrow> board_column" where
  "live_column es now f =
     (let h = history_of es (fi_key f) in
      case columnForLiveWithLedger f h now of Inl _ \<Rightarrow> ColNew | Inr cb \<Rightarrow> fst cb)"

definition absent_shown :: "ledger_event list \<Rightarrow> string \<Rightarrow> bool" where
  "absent_shown es k =
     (let h = history_of es k in
      h \<noteq> [] \<and> le_event (last h) \<in> {EvAccept, EvReopened, EvResolved})"

lemma nonempty_folds:
  assumes "h \<noteq> []"
  shows "\<exists>d. currentDisposition h (Some now) = Inr d \<and> cd_event d = le_event (last h) \<and> cd_against d = le_against (last h)"
    and "\<exists>t. eventTimestamps h = Inr t"
  using assms by (auto simp: currentDisposition_def eventTimestamps_def Let_def neq_Nil_conv)

lemma column_reopens: "snd (column_of f h d) \<longleftrightarrow> cd_event d = EvResolved"
  by (cases "cd_event d") (auto simp: column_of_def)

lemma live_step_data:
  "\<exists>c. live_step (ld_byFinding (data_of es)) now f = Inr ([c], live_emit es now f)
     \<and> fi_key c = fi_key f \<and> fi_disposition c = live_column es now f"
proof (cases "history_of es (fi_key f) = []")
  case True
  then show ?thesis
    by (simp add: live_step_def data_of_lookup live_emit_def live_column_def columnForLiveWithLedger_def
        currentDisposition_def)
next
  case False
  obtain d t where d: "currentDisposition (history_of es (fi_key f)) (Some now) = Inr d"
      "cd_event d = le_event (last (history_of es (fi_key f)))"
    and t: "eventTimestamps (history_of es (fi_key f)) = Inr t"
    using nonempty_folds [OF False] by blast
  obtain col b where cb: "column_of f (history_of es (fi_key f)) d = (col, b)" by fastforce
  have "b \<longleftrightarrow> le_event (last (history_of es (fi_key f))) = EvResolved"
    using column_reopens [of f "history_of es (fi_key f)" d] cb d(2) by simp
  then show ?thesis
    using False d t cb
    by (cases t) (simp add: live_step_def data_of_lookup live_emit_def live_column_def columnForLiveWithLedger_def Let_def)
qed

lemma skeleton_data:
  "h \<noteq> [] \<Longrightarrow> \<exists>c. skeletonFinding k h = Inr c \<and> fi_key c = k \<and> fi_disposition c = ColResolved"
  using nonempty_folds(2) [of h]
  by (auto simp: skeletonFinding_def Let_def split: option.splits)

lemma absent_step_data:
  assumes "k \<notin> fi_key ` set live" "history_of es k \<noteq> []"
  shows "\<exists>cs. absent_step (index_by fi_key live) now (k, history_of es k) = Inr (cs, absent_emit es now k)
     \<and> map fi_key cs = (if absent_shown es k then [k] else []) \<and> (\<forall>c \<in> set cs. fi_disposition c = ColResolved)"
proof -
  obtain d where d: "currentDisposition (history_of es k) (Some now) = Inr d"
      "cd_event d = le_event (last (history_of es k))" "cd_against d = le_against (last (history_of es k))"
    using nonempty_folds [OF assms(2)] by blast
  obtain c where "skeletonFinding k (history_of es k) = Inr c" "fi_key c = k" "fi_disposition c = ColResolved"
    using skeleton_data [OF assms(2)] by blast
  then show ?thesis
    using assms d index_by_None [of fi_key live k]
    by (auto simp: absent_step_def absent_emit_def absent_shown_def Let_def)
qed

lemma absent_step_live:
  "k \<in> fi_key ` set live \<Longrightarrow> absent_step (index_by fi_key live) now (k, h) = Inr ([], [])"
  using index_by_None [of fi_key live k] by (auto simp: absent_step_def)

definition absent_keys :: "finding list \<Rightarrow> ledger_event list \<Rightarrow> string list" where
  "absent_keys live es = filter (\<lambda>k. k \<notin> fi_key ` set live) (remdups_first (map le_finding es))"

definition emits :: "finding list \<Rightarrow> ledger_event list \<Rightarrow> int \<Rightarrow> ledger_event list" where
  "emits live es now = concat (map (live_emit es now) live) @ concat (map (absent_emit es now) (absent_keys live es))"

definition card_columns :: "finding list \<Rightarrow> ledger_event list \<Rightarrow> int \<Rightarrow> (string \<times> board_column) list" where
  "card_columns live es now = map (\<lambda>f. (fi_key f, live_column es now f)) live
     @ map (\<lambda>k. (k, ColResolved)) (filter (absent_shown es) (absent_keys live es))"

lemma ledger_entries:
  "ld_byFinding (data_of es) = map (\<lambda>k. (k, history_of es k)) (remdups_first (map le_finding es))"
proof (rule nth_equalityI)
  let ?m = "ld_byFinding (data_of es)"
  have len: "length ?m = length (remdups_first (map le_finding es))" by (metis data_of_keys length_map)
  then show "length ?m = length (map (\<lambda>k. (k, history_of es k)) (remdups_first (map le_finding es)))" by simp
  fix i assume i: "i < length ?m"
  have "fst (?m ! i) = remdups_first (map le_finding es) ! i"
    using i data_of_keys [of es] by (metis nth_map)
  moreover have "map_of ?m (fst (?m ! i)) = Some (snd (?m ! i))"
    using i data_of_distinct [of es] by (metis map_of_eq_Some_iff nth_mem prod.collapse)
  then have "snd (?m ! i) = history_of es (fst (?m ! i))" by (auto simp: data_of_lookup split: if_splits)
  ultimately show "?m ! i = map (\<lambda>k. (k, history_of es k)) (remdups_first (map le_finding es)) ! i"
    using i len by (metis nth_map prod.collapse)
qed

lemma history_nonempty: "k \<in> le_finding ` set es \<longleftrightarrow> history_of es k \<noteq> []"
  by (auto simp: history_of_def filter_empty_conv)

lemma concat_singles: "concat (map (\<lambda>x. [g x]) xs) = map g xs"
  by (induction xs) auto

lemma concat_optional: "concat (map (\<lambda>x. if P x then [] else if Q x then [g x] else []) xs) =
   map g (filter Q (filter (\<lambda>x. \<not> P x) xs))"
  by (induction xs) auto

lemma concat_skip: "concat (map (\<lambda>x. if P x then [] else g x) xs) = concat (map g (filter (\<lambda>x. \<not> P x) xs))"
  by (induction xs) auto

lemma reconcile_data:
  "\<exists>cards. reconcile live (ld_byFinding (data_of es)) now = Inr (cards, emits live es now)
     \<and> map (\<lambda>c. (fi_key c, fi_disposition c)) cards = card_columns live es now"
proof -
  let ?led = "ld_byFinding (data_of es)" and ?keys = "remdups_first (map le_finding es)"
  let ?kd = "\<lambda>c. (fi_key c, fi_disposition c)" and ?live = "\<lambda>k. k \<in> fi_key ` set live"
  define L where "L f = projr (live_step ?led now f)" for f
  define A where "A ke = projr (absent_step (index_by fi_key live) now ke)" for ke
  have L: "live_step ?led now f = Inr (L f) \<and> map ?kd (fst (L f)) = [(fi_key f, live_column es now f)]
      \<and> snd (L f) = live_emit es now f" for f
    using live_step_data [of es now f] by (auto simp: L_def)
  have A: "absent_step (index_by fi_key live) now (k, history_of es k) = Inr (A (k, history_of es k))
      \<and> map ?kd (fst (A (k, history_of es k))) =
          (if ?live k then [] else if absent_shown es k then [(k, ColResolved)] else [])
      \<and> snd (A (k, history_of es k)) = (if ?live k then [] else absent_emit es now k)" if "k \<in> set ?keys" for k
  proof (cases "?live k")
    case True
    then show ?thesis by (simp add: A_def absent_step_live)
  next
    case False
    have "history_of es k \<noteq> []" using that history_nonempty by auto
    from absent_step_data [OF False this, of now]
    obtain cs where cs: "absent_step (index_by fi_key live) now (k, history_of es k) = Inr (cs, absent_emit es now k)"
      "map fi_key cs = (if absent_shown es k then [k] else [])" "\<forall>c \<in> set cs. fi_disposition c = ColResolved"
      by blast
    have "map ?kd cs = (if absent_shown es k then [(k, ColResolved)] else [])"
      using cs(2,3) by (cases cs) (auto split: if_splits)
    then show ?thesis using False cs(1) by (simp add: A_def)
  qed
  let ?c1 = "concat (map (fst \<circ> L) live)" and ?e1 = "concat (map (snd \<circ> L) live)"
  let ?c2 = "concat (map (fst \<circ> A) ?led)" and ?e2 = "concat (map (snd \<circ> A) ?led)"
  have "collect (live_step ?led now) ([], []) live = Inr (?c1, ?e1)"
    using collect_Inr [of live "live_step ?led now" L "([], [])"] L by simp
  moreover have "collect (absent_step (index_by fi_key live) now) (?c1, ?e1) ?led = Inr (?c1 @ ?c2, ?e1 @ ?e2)"
    using collect_Inr [of ?led "absent_step (index_by fi_key live) now" A "(?c1, ?e1)"] A
    by (auto simp: ledger_entries)
  ultimately have "reconcile live ?led now = Inr (?c1 @ ?c2, ?e1 @ ?e2)"
    by (simp add: reconcile_def)
  moreover have "?e1 @ ?e2 = emits live es now"
  proof -
    have "map (snd \<circ> L) live = map (live_emit es now) live" using L by simp
    moreover have "map (snd \<circ> A) ?led = map (\<lambda>k. if ?live k then [] else absent_emit es now k) ?keys"
      using A by (auto simp: ledger_entries)
    ultimately show ?thesis
      by (simp only: emits_def absent_keys_def concat_skip)
  qed
  moreover have "map ?kd (?c1 @ ?c2) = card_columns live es now"
  proof -
    have "map ?kd ?c1 = concat (map (\<lambda>f. [(fi_key f, live_column es now f)]) live)"
      using L by (simp add: map_concat comp_def)
    moreover have "map ?kd ?c2 = concat (map (\<lambda>ke. map ?kd (fst (A ke))) ?led)"
      by (simp add: map_concat comp_def)
    moreover have "map (\<lambda>ke. map ?kd (fst (A ke))) ?led =
        map (\<lambda>k. if ?live k then [] else if absent_shown es k then [(k, ColResolved)] else []) ?keys"
      using A by (auto simp: ledger_entries)
    ultimately show ?thesis
      by (simp only: map_append concat_singles concat_optional card_columns_def absent_keys_def)
  qed
  ultimately show ?thesis by metis
qed

section \<open>Emitted events settle the board\<close>

lemma remdups_first_absorb: "set ys \<subseteq> set xs \<Longrightarrow> remdups_first (xs @ ys) = remdups_first xs"
proof (induction ys rule: rev_induct)
  case (snoc y ys)
  then have "remdups_first (xs @ ys) = remdups_first xs" "y \<in> set (xs @ ys)" by auto
  then show ?case by (metis append.assoc remdups_first_snoc(1))
qed simp

lemma emitted_live: "e \<in> set (live_emit es now f) \<Longrightarrow>
    le_finding e = fi_key f \<and> le_event e = EvReopened \<and> history_of es (fi_key f) \<noteq> []"
  by (auto simp: live_emit_def buildSystemEvent_def Let_def split: if_splits)

lemma emitted_absent: "e \<in> set (absent_emit es now k) \<Longrightarrow>
    le_finding e = k \<and> le_event e = EvResolved \<and> history_of es k \<noteq> []"
  by (auto simp: absent_emit_def buildSystemEvent_def Let_def split: if_splits)

lemma emitted_facts:
  assumes "e \<in> set (emits live es now)"
  shows "le_finding e \<in> le_finding ` set es"
    and "le_event e = (if le_finding e \<in> fi_key ` set live then EvReopened else EvResolved)"
    and "proper_event e"
proof -
  have cases: "(\<exists>f \<in> set live. e \<in> set (live_emit es now f)) \<or> (\<exists>k \<in> set (absent_keys live es). e \<in> set (absent_emit es now k))"
    using assms by (auto simp: emits_def)
  then show fd: "le_finding e \<in> le_finding ` set es"
    using emitted_live emitted_absent history_nonempty by metis
  show ev: "le_event e = (if le_finding e \<in> fi_key ` set live then EvReopened else EvResolved)"
    using cases
  proof
    assume "\<exists>f \<in> set live. e \<in> set (live_emit es now f)"
    then obtain f where "f \<in> set live" "e \<in> set (live_emit es now f)" by blast
    then show ?thesis using emitted_live [of e es now f] by auto
  next
    assume "\<exists>k \<in> set (absent_keys live es). e \<in> set (absent_emit es now k)"
    then obtain k where k: "k \<in> set (absent_keys live es)" "e \<in> set (absent_emit es now k)" by blast
    have "k \<notin> fi_key ` set live" using k(1) by (simp add: absent_keys_def)
    then show ?thesis using emitted_absent [OF k(2)] by simp
  qed
  have "event_of (event_name EvReopened) = EvReopened" "event_of (event_name EvResolved) = EvResolved"
    by (rule event_of_name, simp add: LEDGER_EVENT_TYPES_def)+
  then show "proper_event e" using ev by (auto simp: proper_event_def split: if_splits)
qed

lemma history_append: "history_of (es @ es') k = history_of es k @ history_of es' k"
  by (simp add: history_of_def)

text \<open>
  Persisting part of what a run emits: the next run emits the rest. An event is left when no persisted
  event is about its finding.
\<close>

lemma emits_after:
  assumes part: "set done1 \<subseteq> set (emits live es now)"
  shows "emits live (es @ map stamped done1) now' = filter (\<lambda>e. le_finding e \<notin> le_finding ` set done1) (emits live es now')"
proof -
  let ?es' = "es @ map stamped done1" and ?D = "le_finding ` set done1"
  have none: "history_of (map stamped done1) k = []" if "k \<notin> ?D" for k
    using that by (auto simp: history_of_def filter_empty_conv)
  have some: "\<exists>e \<in> set done1. le_finding e = k \<and> last (history_of ?es' k) = stamped e \<and> history_of ?es' k \<noteq> []"
    if "k \<in> ?D" for k
  proof -
    have h: "history_of (map stamped done1) k = map stamped (filter (\<lambda>e. le_finding e = k) done1)"
      by (simp add: history_of_def filter_map comp_def)
    have ne: "filter (\<lambda>e. le_finding e = k) done1 \<noteq> []" using that by (auto simp: filter_empty_conv)
    have "last (history_of ?es' k) = stamped (last (filter (\<lambda>e. le_finding e = k) done1))"
      using ne by (simp add: history_append h last_map)
    moreover have "last (filter (\<lambda>e. le_finding e = k) done1) \<in> set (filter (\<lambda>e. le_finding e = k) done1)"
      using ne by (rule last_in_set)
    ultimately show ?thesis using ne by (auto simp: history_append h)
  qed
  have live: "live_emit ?es' now' f = filter (\<lambda>e. le_finding e \<notin> ?D) (live_emit es now' f)" if f: "f \<in> set live" for f
  proof (cases "fi_key f \<in> ?D")
    case True
    then obtain e where e: "e \<in> set done1" "le_finding e = fi_key f" "last (history_of ?es' (fi_key f)) = stamped e"
      using some by blast
    then have "le_event e = EvReopened" using emitted_facts(2) [of e live es now] part f by auto
    then have "live_emit ?es' now' f = []" using e(3) by (simp add: live_emit_def Let_def)
    moreover have "filter (\<lambda>e. le_finding e \<notin> ?D) (live_emit es now' f) = []"
      using emitted_live True by (force simp: filter_empty_conv)
    ultimately show ?thesis by simp
  next
    case False
    then have "live_emit ?es' now' f = live_emit es now' f" by (simp add: live_emit_def history_append none)
    moreover have "filter (\<lambda>e. le_finding e \<notin> ?D) (live_emit es now' f) = live_emit es now' f"
      using emitted_live False by (metis (no_types, lifting) filter_True)
    ultimately show ?thesis by simp
  qed
  have absent: "absent_emit ?es' now' k = filter (\<lambda>e. le_finding e \<notin> ?D) (absent_emit es now' k)"
    if k: "k \<in> set (absent_keys live es)" for k
  proof (cases "k \<in> ?D")
    case True
    then obtain e where e: "e \<in> set done1" "le_finding e = k" "last (history_of ?es' k) = stamped e"
      using some by blast
    have "k \<notin> fi_key ` set live" using k by (simp add: absent_keys_def)
    then have "le_event e = EvResolved" using emitted_facts(2) [of e live es now] part e by auto
    then have "absent_emit ?es' now' k = []" using e(3) by (simp add: absent_emit_def Let_def)
    moreover have "filter (\<lambda>e. le_finding e \<notin> ?D) (absent_emit es now' k) = []"
      using emitted_absent True by (force simp: filter_empty_conv)
    ultimately show ?thesis by simp
  next
    case False
    then have "absent_emit ?es' now' k = absent_emit es now' k" by (simp add: absent_emit_def history_append none)
    moreover have "filter (\<lambda>e. le_finding e \<notin> ?D) (absent_emit es now' k) = absent_emit es now' k"
      using emitted_absent False by (metis (no_types, lifting) filter_True)
    ultimately show ?thesis by simp
  qed
  have "set (map le_finding (map stamped done1)) \<subseteq> set (map le_finding es)"
    using emitted_facts(1) part by fastforce
  then have keys: "absent_keys live ?es' = absent_keys live es"
    by (simp add: absent_keys_def remdups_first_absorb)
  have "map (live_emit ?es' now') live = map (\<lambda>f. filter (\<lambda>e. le_finding e \<notin> ?D) (live_emit es now' f)) live"
    using live by simp
  moreover have "map (absent_emit ?es' now') (absent_keys live es) =
      map (\<lambda>k. filter (\<lambda>e. le_finding e \<notin> ?D) (absent_emit es now' k)) (absent_keys live es)"
    using absent by simp
  ultimately show ?thesis
    by (simp only: emits_def keys filter_append filter_concat map_map comp_def)
qed

section \<open>Runs of the board\<close>

lemma persist_good:
  assumes "good_file led"
  shows "good_file (fst (persist faults led es))"
  using assms
proof (induction faults led es rule: persist.induct)
  case (2 faults led e es)
  then show ?case
    using append_events(2) [of led "case faults of [] \<Rightarrow> False | b # _ \<Rightarrow> b" e]
    by (auto split: prod.splits sum.splits)
qed simp

text \<open>The append loop writes a prefix of the events, all of them when nothing fails.\<close>

lemma persist_prefix:
  assumes "\<forall>e \<in> set es. proper_event e"
  shows "\<exists>n \<le> length es. file_events (fst (persist faults led es)) = file_events led @ map stamped (take n es)
     \<and> (snd (persist faults led es) = None \<longrightarrow> n = length es)
     \<and> (faults = [] \<longrightarrow> snd (persist faults led es) = None)"
  using assms
proof (induction faults led es rule: persist.induct)
  case (1 faults led)
  then show ?case by simp
next
  case (2 faults led e es)
  show ?case
  proof (cases "case faults of [] \<Rightarrow> False | b # _ \<Rightarrow> b")
    case True
    then have "persist faults led (e # es) = (led, Some (LedgerAppendFailed (le_finding e)))" "faults \<noteq> []"
      by (auto simp: appendEvent_def split: list.splits)
    then show ?thesis by (intro exI [of _ 0]) simp
  next
    case False
    obtain led' where app: "appendEvent False led e = (led', Inr (stamped e))"
      by (cases "appendEvent False led e") (auto simp: appendEvent_def stamped_def Let_def)
    have ev: "file_events led' = file_events led @ [stamped e]"
      using append_events(1) [of e led] app 2(2) by simp
    have p: "persist faults led (e # es) = persist (tl faults) led' es" using False app by simp
    obtain n where n: "n \<le> length es"
      "file_events (fst (persist (tl faults) led' es)) = file_events led' @ map stamped (take n es)"
      "snd (persist (tl faults) led' es) = None \<longrightarrow> n = length es"
      "tl faults = [] \<longrightarrow> snd (persist (tl faults) led' es) = None"
      using 2(1) [of led' "Inr (stamped e)" "stamped e"] 2(2) False app by auto
    then show ?thesis by (intro exI [of _ "Suc n"]) (use p ev in auto)
  qed
qed

text \<open>A run on a good ledger file: the cards of \<open>reconcile\<close>, and the append loop.\<close>

definition unseen :: "ledger_file \<Rightarrow> finding list \<Rightarrow> int \<Rightarrow> ledger_event list" where
  "unseen led live now = emits live (file_events led) now"

definition view_of :: "board_filters option \<Rightarrow> int \<Rightarrow> finding list \<Rightarrow> finding list" where
  "view_of flt now cards = (case flt of None \<Rightarrow> cards | Some x \<Rightarrow> applyFilters cards x now)"

definition shown :: "board_filters option \<Rightarrow> int \<Rightarrow> finding list \<Rightarrow> board_result" where
  "shown flt now cards = \<lparr>br_columns = groupByColumn (view_of flt now cards), br_all = view_of flt now cards\<rparr>"

lemma listBoard_data:
  assumes "good_file led"
  obtains cards where
    "map (\<lambda>c. (fi_key c, fi_disposition c)) cards = card_columns (concat ads) (file_events led) now"
    "\<And>faults flt. listBoard ads False faults flt now led =
      (fst (persist faults led (unseen led (concat ads) now)),
       case snd (persist faults led (unseen led (concat ads) now)) of
         Some e \<Rightarrow> Inl e | None \<Rightarrow> Inr (shown flt now cards))"
proof -
  obtain cards where cards: "reconcile (concat ads) (ld_byFinding (data_of (file_events led))) now
      = Inr (cards, unseen led (concat ads) now)"
    "map (\<lambda>c. (fi_key c, fi_disposition c)) cards = card_columns (concat ads) (file_events led) now"
    using reconcile_data unfolding unseen_def by blast
  have "listBoard ads False faults flt now led =
      (fst (persist faults led (unseen led (concat ads) now)),
       case snd (persist faults led (unseen led (concat ads) now)) of
         Some e \<Rightarrow> Inl e | None \<Rightarrow> Inr (shown flt now cards))" for faults flt
    using loadLedger_good [OF assms] cards(1)
    by (cases "persist faults led (unseen led (concat ads) now)")
      (simp add: listBoard_def shown_def view_of_def Let_def split: option.split)
  then show ?thesis using that cards(2) by blast
qed

lemma emits_proper: "\<forall>e \<in> set (emits live es now). proper_event e"
  using emitted_facts(3) by blast

lemma run_file:
  assumes "good_file led"
  shows "fst (listBoard ads False faults flt now led) = fst (persist faults led (unseen led (concat ads) now))"
  using listBoard_data [OF assms, of ads now] by (metis fst_conv)

lemma run_good: "good_file led \<Longrightarrow> good_file (fst (listBoard ads False faults flt now led))"
  by (simp add: run_file persist_good)

lemma run_events:
  assumes "good_file led"
  shows "\<exists>n \<le> length (unseen led (concat ads) now).
    file_events (fst (listBoard ads False faults flt now led)) =
      file_events led @ map stamped (take n (unseen led (concat ads) now))
    \<and> (faults = [] \<longrightarrow> n = length (unseen led (concat ads) now))"
  using persist_prefix [OF emits_proper, where faults = faults and led = led and live1 = "concat ads"
      and es1 = "file_events led" and now1 = now]
  by (metis run_file [OF assms] unseen_def)

lemma run_events_all:
  "good_file led \<Longrightarrow> file_events (fst (listBoard ads False [] flt now led)) =
     file_events led @ map stamped (unseen led (concat ads) now)"
  using run_events [of led ads now "[]" flt] by auto

text \<open>Which findings have an emitted event does not depend on the clock.\<close>

lemma emits_findings: "map le_finding (emits live es now) = map le_finding (emits live es now')"
proof -
  have "map le_finding (live_emit es now f) = map le_finding (live_emit es now' f)" for f
    by (simp add: live_emit_def buildSystemEvent_def Let_def)
  moreover have "map le_finding (absent_emit es now k) = map le_finding (absent_emit es now' k)" for k
    by (simp add: absent_emit_def buildSystemEvent_def Let_def)
  ultimately show ?thesis by (simp add: emits_def map_concat comp_def)
qed

lemma unseen_after_run:
  assumes "good_file led"
  shows "unseen (fst (listBoard ads False [] flt now led)) (concat ads) now' = []"
proof -
  let ?E = "\<lambda>now. emits (concat ads) (file_events led) now"
  have "unseen (fst (listBoard ads False [] flt now led)) (concat ads) now' =
      filter (\<lambda>e. le_finding e \<notin> le_finding ` set (?E now)) (?E now')"
    unfolding unseen_def run_events_all [OF assms] by (rule emits_after [where now = now]) simp
  moreover have "le_finding ` set (?E now) = le_finding ` set (?E now')"
    using emits_findings [of "concat ads" "file_events led" now now'] by (metis list.set_map)
  ultimately show ?thesis by (simp add: filter_empty_conv)
qed

section \<open>Decisions survive a resolution\<close>

definition human_column :: "ledger_event_type \<Rightarrow> board_column option" where
  "human_column v = (case v of EvAccept \<Rightarrow> Some ColAccepted | EvDefer \<Rightarrow> Some ColWaiting
     | EvDismiss \<Rightarrow> Some ColDismissed | _ \<Rightarrow> None)"

lemma prior_before_markers: "list_all is_marker ms \<Longrightarrow> prior_before (ms @ es) = prior_before es"
  by (induction ms) (auto simp: is_marker_def)

lemma prior_markers:
  assumes "list_all is_marker sys" "sys \<noteq> []"
  shows "priorHumanDisposition (es @ sys) = prior_before (rev es)"
proof -
  obtain ys y where sys: "sys = ys @ [y]" using assms(2) by (metis rev_exhaust)
  then have "is_marker y" "list_all is_marker (rev ys)" using assms(1) by (auto simp: list_all_iff)
  then show ?thesis by (simp add: priorHumanDisposition_def sys prior_before_markers)
qed

lemma column_after_markers:
  assumes "list_all is_marker sys" "sys \<noteq> []"
  shows "columnForLiveWithLedger f (es @ sys) now =
    Inr (prior_before (rev es), le_event (last sys) = EvResolved)"
proof -
  obtain d where d: "currentDisposition (es @ sys) (Some now) = Inr d" "cd_event d = le_event (last (es @ sys))"
    using nonempty_folds(1) [of "es @ sys" now] assms(2) by auto
  have "is_marker (last sys)" using assms by (auto simp: list_all_iff)
  then have "le_event (last sys) = EvResolved \<or> le_event (last sys) = EvReopened" by (simp add: is_marker_def)
  then show ?thesis
    using d assms prior_markers [OF assms, of es]
    by (auto simp: columnForLiveWithLedger_def column_of_def)
qed


definition demo_event :: "ledger_event_type \<Rightarrow> ledger_event" where
  "demo_event v = \<lparr>le_finding = ''k'', le_event = v, le_by = ''ann'', le_ptype = PtHuman, le_at = ''2024-01-01'',
     le_rationale = None, le_expiry = None, le_against = ''f'', le_owner = None, le_scheme = ''1'',
     le_descriptor = None\<rparr>"

definition demo_finding :: "string \<Rightarrow> finding" where
  "demo_finding k = \<lparr>fi_key = k, fi_source = SrcLint, fi_check = ''c'', fi_target = LintTarget ''a.md'',
     fi_discriminator = None, fi_fingerprint = ''f'', fi_certainty = ConfLow, fi_evidence = [],
     fi_suggested_action = [], fi_verify_predicate = [], fi_owner = [], fi_first_seen = [], fi_last_seen = [],
     fi_disposition = ColNew, fi_history = []\<rparr>"


section \<open>One run settles the board\<close>

lemma stamped_history: "history_of (map stamped es) k = [] \<longleftrightarrow> k \<notin> le_finding ` set es"
  unfolding history_of_def filter_empty_conv by (auto simp: image_iff)

lemma live_column_stable:
  assumes f: "f \<in> set live"
  shows "live_column (es @ map stamped (emits live es now)) now f = live_column es now f"
proof (cases "fi_key f \<in> le_finding ` set (emits live es now)")
  case False
  then have "history_of (map stamped (emits live es now)) (fi_key f) = []"
    by (simp add: stamped_history)
  then show ?thesis by (simp add: live_column_def history_append)
next
  case True
  let ?h = "history_of es (fi_key f)" and ?n = "history_of (map stamped (emits live es now)) (fi_key f)"
  obtain e where e: "e \<in> set (emits live es now)" "le_finding e = fi_key f" using True by auto
  have kf: "fi_key f \<in> fi_key ` set live" using f by simp
  then have "fi_key f \<notin> set (absent_keys live es)" by (simp add: absent_keys_def)
  then have "\<exists>g \<in> set live. e \<in> set (live_emit es now g) \<and> fi_key g = fi_key f"
    using e emitted_live [of e es now] emitted_absent [of e es now] by (auto simp: emits_def)
  then have h: "?h \<noteq> []" "le_event (last ?h) = EvResolved"
    by (auto simp: live_emit_def Let_def split: if_splits)
  have n: "?n \<noteq> []" using True by (simp add: stamped_history)
  have markers: "list_all is_marker ?n"
    using emitted_facts(2) by (fastforce simp: history_of_def list_all_iff is_marker_def split: if_splits)
  obtain xs where xs: "?h = xs @ [last ?h]" using h(1) by (metis append_butlast_last_id)
  have m: "list_all is_marker [last ?h]" using h(2) by (simp add: is_marker_def)
  have "columnForLiveWithLedger f ?h now = Inr (prior_before (rev xs), True)"
    using column_after_markers [OF m, of f xs now] h(2) xs by simp
  moreover have "list_all is_marker ([last ?h] @ ?n)" using m markers by simp
  then have "\<exists>b. columnForLiveWithLedger f (xs @ [last ?h] @ ?n) now = Inr (prior_before (rev xs), b)"
    using column_after_markers [of "[last ?h] @ ?n" f xs now] by blast
  then have "\<exists>b. columnForLiveWithLedger f (?h @ ?n) now = Inr (prior_before (rev xs), b)"
    by (metis append.assoc xs)
  ultimately show ?thesis by (auto simp: live_column_def history_append Let_def)
qed

lemma absent_shown_stable:
  assumes k: "k \<in> set (absent_keys live es)"
  shows "absent_shown (es @ map stamped (emits live es now)) k = absent_shown es k"
proof (cases "k \<in> le_finding ` set (emits live es now)")
  case False
  then have "history_of (map stamped (emits live es now)) k = []"
    by (simp add: stamped_history)
  then show ?thesis by (simp add: absent_shown_def history_append)
next
  case True
  let ?n = "history_of (map stamped (emits live es now)) k"
  obtain e where e: "e \<in> set (emits live es now)" "le_finding e = k" using True by auto
  have notlive: "k \<notin> fi_key ` set live" using k by (simp add: absent_keys_def)
  have "e \<in> set (absent_emit es now k)"
    using e notlive emitted_live [of e es now] emitted_absent [of e es now] by (auto simp: emits_def)
  then have before: "absent_shown es k" by (auto simp: absent_emit_def absent_shown_def Let_def split: if_splits)
  have n: "?n \<noteq> []" using True by (simp add: stamped_history)
  have "last ?n \<in> set ?n" using n by simp
  then have "le_event (last ?n) = EvResolved"
    using emitted_facts(2) [of _ live es now] notlive by (auto simp: history_of_def)
  then have "absent_shown (es @ map stamped (emits live es now)) k"
    using n by (simp add: absent_shown_def history_append Let_def)
  then show ?thesis using before by simp
qed

lemma card_columns_stable:
  "card_columns live (es @ map stamped (emits live es now)) now = card_columns live es now"
proof -
  let ?es' = "es @ map stamped (emits live es now)"
  have "set (map le_finding (map stamped (emits live es now))) \<subseteq> set (map le_finding es)"
    using emitted_facts(1) by fastforce
  then have keys: "absent_keys live ?es' = absent_keys live es"
    by (simp add: absent_keys_def remdups_first_absorb)
  have "filter (absent_shown ?es') (absent_keys live es) = filter (absent_shown es) (absent_keys live es)"
    by (intro filter_cong refl absent_shown_stable)
  moreover have "map (\<lambda>f. (fi_key f, live_column ?es' now f)) live = map (\<lambda>f. (fi_key f, live_column es now f)) live"
    by (intro map_cong refl arg_cong2 [where f = Pair] live_column_stable)
  ultimately show ?thesis by (simp only: card_columns_def keys)
qed

definition board_cards :: "board_error + board_result \<Rightarrow> (string \<times> board_column) list option" where
  "board_cards r = (case r of Inl _ \<Rightarrow> None | Inr b \<Rightarrow> Some (map (\<lambda>c. (fi_key c, fi_disposition c)) (br_all b)))"

lemma run_cards:
  assumes "good_file led"
  shows "board_cards (snd (listBoard ads False [] None now led)) = Some (card_columns (concat ads) (file_events led) now)"
proof (rule listBoard_data [OF assms, where ads = ads and now = now])
  fix cards
  assume c: "map (\<lambda>c. (fi_key c, fi_disposition c)) cards = card_columns (concat ads) (file_events led) now"
    "\<And>faults flt. listBoard ads False faults flt now led =
      (fst (persist faults led (unseen led (concat ads) now)),
       case snd (persist faults led (unseen led (concat ads) now)) of
         Some e \<Rightarrow> Inl e | None \<Rightarrow> Inr (shown flt now cards))"
  have "snd (persist [] led (unseen led (concat ads) now)) = None"
    using persist_prefix [OF emits_proper, where faults = "[]"] unfolding unseen_def by blast
  then show ?thesis using c(1) by (simp add: c(2) board_cards_def shown_def view_of_def)
qed

lemma second_run_writes_nothing:
  assumes "good_file led"
  shows "fst (listBoard ads False [] flt' now' (fst (listBoard ads False [] flt now led)))
           = fst (listBoard ads False [] flt now led)"
  using unseen_after_run [OF assms, of ads flt now now'] by (simp add: run_file [OF run_good [OF assms]])

lemma second_run_shows_same:
  assumes "good_file led"
  shows "board_cards (snd (listBoard ads False [] None now (fst (listBoard ads False [] flt now led))))
           = board_cards (snd (listBoard ads False [] None now led))"
  by (simp add: run_cards run_good assms run_events_all [OF assms] unseen_def card_columns_stable)

text \<open>
  C11: one run settles the board. When the sources report the same findings again, a second run, at any later time
  and with any filters, writes nothing to the ledger, and at the same time shows every card in the same column.
\<close>

theorem board_settles:
  assumes "good_file led"
  shows "fst (listBoard ads False [] flt' now' (fst (listBoard ads False [] flt now led)))
           = fst (listBoard ads False [] flt now led)
       \<and> board_cards (snd (listBoard ads False [] None now (fst (listBoard ads False [] flt now led))))
           = board_cards (snd (listBoard ads False [] None now led))"
  using second_run_writes_nothing [OF assms] second_run_shows_same [OF assms] by blast

definition demo_ledger :: ledger_file where
  "demo_ledger = Some [event_line (demo_event EvAccept), CorruptLine, event_line (demo_event EvResolved)]"

lemma demo_ledger_good: "good_file demo_ledger"
  by (simp add: demo_ledger_def good_file_def file_lines_def good_line_def event_line_def)

theorem board_settles_witness:
  "fst (listBoard [[demo_finding ''k'']] False [] None 9 (fst (listBoard [[demo_finding ''k'']] False [] None 5 demo_ledger)))
   = fst (listBoard [[demo_finding ''k'']] False [] None 5 demo_ledger)"
  using board_settles [OF demo_ledger_good] by blast

section \<open>A run cut off is completed by the next\<close>

lemma emits_distinct:
  assumes "distinct (map fi_key live)"
  shows "distinct (map le_finding (emits live es now))"
proof -
  let ?P = "\<lambda>f. live_emit es now f \<noteq> []" and ?Q = "\<lambda>k. absent_emit es now k \<noteq> []"
  have "map le_finding (live_emit es now f) = (if ?P f then [fi_key f] else [])" for f
    by (simp add: live_emit_def buildSystemEvent_def Let_def)
  then have l: "map le_finding (concat (map (live_emit es now) live)) = map fi_key (filter ?P live)"
    by (simp only: map_concat map_map comp_def) (induction live; simp)
  have "map le_finding (absent_emit es now k) = (if ?Q k then [k] else [])" for k
    by (simp add: absent_emit_def buildSystemEvent_def Let_def)
  then have r: "map le_finding (concat (map (absent_emit es now) ks)) = filter ?Q ks" for ks
    by (simp only: map_concat map_map comp_def) (induction ks; simp)
  have "distinct (map fi_key (filter ?P live))" using assms by (simp add: distinct_map_filter)
  then show ?thesis by (simp only: emits_def map_append l r) (auto simp: absent_keys_def)
qed

lemma filter_prefix_keys:
  assumes "distinct (map g xs)"
  shows "filter (\<lambda>x. g x \<notin> g ` set (take n xs)) xs = drop n xs"
proof -
  have "distinct (map g (take n xs @ drop n xs))" using assms by simp
  then have "filter (\<lambda>x. g x \<notin> g ` set (take n xs)) (drop n xs) = drop n xs"
    unfolding map_append distinct_append by (intro filter_True) auto
  moreover have "filter (\<lambda>x. g x \<notin> g ` set (take n xs)) (take n xs) = []" by (auto simp: filter_empty_conv)
  ultimately show ?thesis by (metis append_Nil append_take_drop_id filter_append)
qed



section \<open>One card, one column\<close>

lemma groupByColumn_filter:
  "groupByColumn fs = \<lparr>bc_new = filter (\<lambda>f. fi_disposition f = ColNew) fs,
     bc_accepted = filter (\<lambda>f. fi_disposition f = ColAccepted) fs,
     bc_waiting = filter (\<lambda>f. fi_disposition f = ColWaiting) fs,
     bc_resolved = filter (\<lambda>f. fi_disposition f = ColResolved) fs,
     bc_dismissed = filter (\<lambda>f. fi_disposition f = ColDismissed) fs\<rparr>"
proof (induction fs rule: rev_induct)
  case Nil
  then show ?case by (simp add: groupByColumn_def)
next
  case (snoc f fs)
  have "groupByColumn (fs @ [f]) = push_column (groupByColumn fs) f" by (simp add: groupByColumn_def)
  then show ?case unfolding snoc by (cases "fi_disposition f") (simp_all add: push_column_def)
qed

lemma columns_mset:
  "mset fs = mset (bc_new (groupByColumn fs)) + mset (bc_accepted (groupByColumn fs))
     + mset (bc_waiting (groupByColumn fs)) + mset (bc_resolved (groupByColumn fs)) + mset (bc_dismissed (groupByColumn fs))"
proof (induction fs)
  case (Cons f fs)
  then show ?case by (cases "fi_disposition f") (simp_all add: groupByColumn_filter)
qed (simp add: groupByColumn_filter)

lemma run_columns: "snd (listBoard ads rf faults flt now led) = Inr r \<Longrightarrow> br_columns r = groupByColumn (br_all r)"
  by (auto simp: listBoard_def Let_def split: sum.splits prod.splits option.splits)

lemma card_keys_distinct:
  assumes "distinct (map fi_key live)"
  shows "distinct (map fst (card_columns live es now))"
proof -
  have "map fst (card_columns live es now) = map fi_key live @ filter (absent_shown es) (absent_keys live es)"
    by (simp add: card_columns_def comp_def)
  then show ?thesis using assms by (auto simp: absent_keys_def)
qed

text \<open>
  C13: every live finding has exactly one card, no two cards are of the same finding, and each card is in exactly one
  column; a card that is not of a live finding is in the Resolved column.
\<close>

theorem one_card_per_finding:
  assumes "good_file led" "distinct (map fi_key (concat ads))"
    and "snd (listBoard ads False [] None now led) = Inr r"
  shows "distinct (map fi_key (br_all r)) \<and> fi_key ` set (concat ads) \<subseteq> fi_key ` set (br_all r)
    \<and> mset (br_all r) = mset (bc_new (br_columns r)) + mset (bc_accepted (br_columns r))
        + mset (bc_waiting (br_columns r)) + mset (bc_resolved (br_columns r)) + mset (bc_dismissed (br_columns r))
    \<and> fi_key ` set (bc_new (br_columns r) @ bc_accepted (br_columns r) @ bc_waiting (br_columns r)
        @ bc_dismissed (br_columns r)) \<subseteq> fi_key ` set (concat ads)"
proof -
  let ?kd = "\<lambda>c. (fi_key c, fi_disposition c)" and ?es = "file_events led"
  have cols: "br_columns r = groupByColumn (br_all r)" by (rule run_columns [OF assms(3)])
  have cards: "map ?kd (br_all r) = card_columns (concat ads) ?es now"
    using run_cards [OF assms(1), of ads now] assms(3) by (simp add: board_cards_def)
  have keys: "map fi_key (br_all r) = map fst (card_columns (concat ads) ?es now)"
    using arg_cong [OF cards, of "map fst"] by (simp add: comp_def)
  then have "distinct (map fi_key (br_all r))" using card_keys_distinct [OF assms(2)] by simp
  moreover have "set (map fi_key (concat ads)) \<subseteq> set (map fi_key (br_all r))"
    unfolding keys by (force simp: card_columns_def)
  moreover note columns_mset [of "br_all r", folded cols]
  moreover have "fi_key c \<in> fi_key ` set (concat ads)" if "c \<in> set (br_all r)" "fi_disposition c \<noteq> ColResolved" for c
  proof -
    have "?kd c \<in> set (map ?kd (br_all r))" using that(1) by simp
    then have "?kd c \<in> set (card_columns (concat ads) ?es now)" unfolding cards .
    then show ?thesis using that(2) by (auto simp: card_columns_def)
  qed
  then have "fi_key ` set (bc_new (br_columns r) @ bc_accepted (br_columns r) @ bc_waiting (br_columns r)
        @ bc_dismissed (br_columns r)) \<subseteq> fi_key ` set (concat ads)"
    unfolding cols groupByColumn_filter by auto
  ultimately show ?thesis by simp
qed

lemma run_returns:
  assumes "good_file led"
  obtains r where "snd (listBoard ads False [] None now led) = Inr r"
    "map (\<lambda>c. (fi_key c, fi_disposition c)) (br_all r) = card_columns (concat ads) (file_events led) now"
  using run_cards [OF assms, of ads now]
  by (cases "snd (listBoard ads False [] None now led)") (auto simp: board_cards_def)

theorem one_card_per_finding_witness:
  "\<exists>r. snd (listBoard [[demo_finding ''k'']] False [] None 5 demo_ledger) = Inr r
     \<and> ''k'' \<in> fi_key ` set (br_all r) \<and> distinct (map fi_key (br_all r))"
proof -
  obtain r where r: "snd (listBoard [[demo_finding ''k'']] False [] None 5 demo_ledger) = Inr r"
    by (rule run_returns [OF demo_ledger_good])
  have "distinct (map fi_key (concat [[demo_finding ''k'']]))" "fi_key (demo_finding ''k'') = ''k''"
    by (simp_all add: demo_finding_def)
  then show ?thesis using one_card_per_finding [OF demo_ledger_good _ r] r by auto
qed

section \<open>What a caller does not see counts as gone\<close>

text \<open>
  Absence is judged on the findings the sources report to this caller. An accepted finding that they leave out, for
  whatever reason (the sources also leave out what the caller may not read), is put in the Resolved column
  of the board the caller gets, and the ledger records it as resolved for everyone.
\<close>

theorem unreported_finding_resolved:
  assumes "good_file led" and "history_of (file_events led) k \<noteq> []"
    and "le_event (last (history_of (file_events led) k)) = EvAccept" and "k \<notin> fi_key ` set (concat ads)"
  shows "\<exists>r. snd (listBoard ads False [] None now led) = Inr r \<and> k \<in> fi_key ` set (bc_resolved (br_columns r))
     \<and> le_event (last (history_of (file_events (fst (listBoard ads False [] None now led))) k)) = EvResolved"
proof -
  let ?es = "file_events led" and ?E = "unseen led (concat ads) now"
  obtain r where r: "snd (listBoard ads False [] None now led) = Inr r"
    and cards: "map (\<lambda>c. (fi_key c, fi_disposition c)) (br_all r) = card_columns (concat ads) ?es now"
    by (rule run_returns [OF assms(1)])
  have key: "k \<in> set (absent_keys (concat ads) ?es)"
    using assms(2,4) history_nonempty [of k ?es] by (simp add: absent_keys_def)
  have "absent_shown ?es k" using assms(2,3) by (simp add: absent_shown_def Let_def)
  then have "(k, ColResolved) \<in> set (card_columns (concat ads) ?es now)" using key by (simp add: card_columns_def)
  then obtain c where "c \<in> set (br_all r)" "fi_key c = k" "fi_disposition c = ColResolved"
    unfolding cards [symmetric] by auto
  then have card: "k \<in> fi_key ` set (bc_resolved (br_columns r))"
    unfolding run_columns [OF r] groupByColumn_filter by auto
  have "absent_emit ?es now k \<noteq> []" using assms(2,3) by (simp add: absent_emit_def Let_def)
  then have "k \<in> le_finding ` set ?E"
    using key emitted_absent [of _ ?es now k] unfolding unseen_def emits_def
    by (metis (no_types, lifting) Un_iff hd_in_set image_eqI image_set set_append set_concat UN_I)
  then have n: "history_of (map stamped ?E) k \<noteq> []" by (simp add: stamped_history)
  then have "last (history_of (map stamped ?E) k) \<in> set (history_of (map stamped ?E) k)" by simp
  then have "le_event (last (history_of (map stamped ?E) k)) = EvResolved"
    using emitted_facts(2) [of _ "concat ads" ?es now] assms(4) by (auto simp: history_of_def unseen_def)
  then show ?thesis using r card n by (simp add: run_events_all [OF assms(1)] history_append)
qed

theorem unreported_finding_resolved_witness:
  "\<exists>r. snd (listBoard [] False [] None 5 (Some [event_line (demo_event EvAccept)])) = Inr r
     \<and> ''k'' \<in> fi_key ` set (bc_resolved (br_columns r))"
proof -
  let ?led = "Some [event_line (demo_event EvAccept)]"
  have "event_of ''accept'' = EvAccept" by code_simp
  then have "file_events ?led = [demo_event EvAccept]"
    by (simp add: file_events_def file_lines_def line_event_def event_line_def guarded_event_def demo_event_def
        event_name_def map_filter_def)
  moreover have "good_file ?led" by (simp add: good_file_def file_lines_def good_line_def event_line_def)
  ultimately show ?thesis
    using unreported_finding_resolved [of ?led "''k''" "[]" 5] by (auto simp: history_of_def demo_event_def)
qed

end
