(* ===== verification/IntegrationQueue.thy ===== *)
theory IntegrationQueue
  imports BoardLedger
begin

text \<open>
  The durable queue of integration events: \<^verbatim>\<open>src/src/integrations/queue.ts\<close>. The queue file is
  absent, text that is no JSON, or a JSON value; \<^verbatim>\<open>JSON.stringify\<close> and \<^verbatim>\<open>JSON.parse\<close> are the identity on
  the values this module writes, and members an item has beyond those of its type are not kept. A write
  replaces the file by a rename and may fail before it or after it. Every reading of the clock is an
  argument of its own. Draining awaits its worker, so it is a start and one settling step per batch,
  between which other operations run.
\<close>

section \<open>The stored queue\<close>

datatype provider = Google | Notion | M365

definition provider_name :: "provider \<Rightarrow> string" where
  "provider_name p = (case p of Google \<Rightarrow> ''google'' | Notion \<Rightarrow> ''notion'' | M365 \<Rightarrow> ''m365'')"

definition PROVIDER_NAMES :: "provider list" where
  "PROVIDER_NAMES = [Google, Notion, M365]"

datatype lifecycle_action = Reauthorize | Recreate | ReconcileAction

datatype refresh_hint = ReconcileHint | SourcesHint "string list" bool | LifecycleHint lifecycle_action

record queue_input =
  qi_provider :: provider
  qi_eventId :: string
  qi_hint :: refresh_hint

record queue_item = queue_input +
  qi_enqueuedAt :: string
  qi_attempts :: nat

record queue_batch =
  qb_provider :: provider
  qb_items :: "queue_item list"
  qb_hint :: refresh_hint

record processed_event =
  pe_key :: string
  pe_processedAt :: string

record queue_state =
  qs_pending :: "queue_item list"
  qs_processed :: "processed_event list"

datatype queue_error = InvalidItem | Malformed | ReadFailed | WriteFailed | BatchesFailed

definition QUEUE_VERSION :: nat where "QUEUE_VERSION = 2"
definition REPLAY_HORIZON_MS :: int where "REPLAY_HORIZON_MS = 30 * 24 * 60 * 60 * 1000"
definition MAX_PROCESSED_EVENTS :: nat where "MAX_PROCESSED_EVENTS = 20000"
definition MAX_DELIVERY_ATTEMPTS :: nat where "MAX_DELIVERY_ATTEMPTS = 5"

definition emptyQueue :: queue_state where
  "emptyQueue = \<lparr>qs_pending = [], qs_processed = []\<rparr>"

definition itemKey :: "provider \<Rightarrow> string \<Rightarrow> string" where
  "itemKey p eventId = provider_name p @ '':'' @ eventId"

definition keyOf :: "queue_item \<Rightarrow> string" where
  "keyOf i = itemKey (qi_provider i) (qi_eventId i)"

section \<open>Validation and parsing\<close>

definition member :: "string \<Rightarrow> json \<Rightarrow> json option" where
  "member k v = (case v of JObj kvs \<Rightarrow> map_of kvs k | _ \<Rightarrow> None)"

fun all_some :: "'a option list \<Rightarrow> 'a list option" where
  "all_some [] = Some []"
| "all_some (x # xs) = (case x of None \<Rightarrow> None | Some y \<Rightarrow> map_option (\<lambda>ys. y # ys) (all_some xs))"

definition as_array :: "json option \<Rightarrow> json list option" where
  "as_array v = (case v of Some (JArr xs) \<Rightarrow> Some xs | _ \<Rightarrow> None)"

definition nonempty_string :: "json \<Rightarrow> string option" where
  "nonempty_string v = (case v of JStr s \<Rightarrow> if s = [] then None else Some s | _ \<Rightarrow> None)"

definition action_name :: "lifecycle_action \<Rightarrow> string" where
  "action_name a = (case a of Reauthorize \<Rightarrow> ''reauthorize'' | Recreate \<Rightarrow> ''recreate'' | ReconcileAction \<Rightarrow> ''reconcile'')"

definition parse_action :: "json option \<Rightarrow> lifecycle_action option" where
  "parse_action v = List.find (\<lambda>a. v = Some (JStr (action_name a))) [Reauthorize, Recreate, ReconcileAction]"

text \<open>\<open>parse_hint\<close> is \<^verbatim>\<open>validHint\<close>: the hint a value is, or \<open>None\<close> when it is none.\<close>

definition parse_hint :: "json \<Rightarrow> refresh_hint option" where
  "parse_hint v =
     (if member ''kind'' v = Some (JStr ''reconcile'') then Some ReconcileHint
      else if member ''kind'' v = Some (JStr ''lifecycle'')
      then map_option LifecycleHint (parse_action (member ''action'' v))
      else if member ''kind'' v = Some (JStr ''sources'')
      then (case (Option.bind (as_array (member ''sourceIds'' v)) (\<lambda>xs. all_some (map nonempty_string xs)),
                  member ''rediscover'' v) of
              (Some ids, Some (JBool b)) \<Rightarrow> Some (SourcesHint ids b)
            | _ \<Rightarrow> None)
      else None)"

definition valid_hint :: "refresh_hint \<Rightarrow> bool" where
  "valid_hint h = (case h of SourcesHint ids _ \<Rightarrow> list_all (\<lambda>i. i \<noteq> []) ids | _ \<Rightarrow> True)"

definition parse_provider :: "json option \<Rightarrow> provider option" where
  "parse_provider v = List.find (\<lambda>p. v = Some (JStr (provider_name p))) PROVIDER_NAMES"

definition parse_count :: "json option \<Rightarrow> nat option" where
  "parse_count v =
     (case v of
        Some (JNum r) \<Rightarrow> (case quotient_of r of (n, d) \<Rightarrow> if d = 1 \<and> n \<ge> 0 then Some (nat n) else None)
      | _ \<Rightarrow> None)"

definition parse_item :: "json \<Rightarrow> queue_item option" where
  "parse_item v =
     (case (parse_provider (member ''provider'' v), Option.bind (member ''eventId'' v) nonempty_string,
            Option.bind (member ''hint'' v) parse_hint, member ''enqueuedAt'' v, parse_count (member ''attempts'' v)) of
        (Some p, Some e, Some h, Some (JStr t), Some n) \<Rightarrow>
          Some \<lparr>qi_provider = p, qi_eventId = e, qi_hint = h, qi_enqueuedAt = t, qi_attempts = n\<rparr>
      | _ \<Rightarrow> None)"

definition parse_processed :: "json \<Rightarrow> processed_event option" where
  "parse_processed v =
     (case (Option.bind (member ''key'' v) nonempty_string, member ''processedAt'' v) of
        (Some k, Some (JStr t)) \<Rightarrow>
          if date_parse t = None then None else Some \<lparr>pe_key = k, pe_processedAt = t\<rparr>
      | _ \<Rightarrow> None)"

section \<open>Pruning, merging, batching\<close>

definition recent_event :: "int \<Rightarrow> processed_event \<Rightarrow> bool" where
  "recent_event cutoff e = (case date_parse (pe_processedAt e) of None \<Rightarrow> False | Some t \<Rightarrow> t \<ge> cutoff)"

definition pruneProcessedEvents :: "queue_state \<Rightarrow> int \<Rightarrow> queue_state" where
  "pruneProcessedEvents st now =
     (let retained = filter (recent_event (now - REPLAY_HORIZON_MS)) (qs_processed st)
      in st\<lparr>qs_processed := (if length retained > MAX_PROCESSED_EVENTS
                              then drop (length retained - MAX_PROCESSED_EVENTS) retained else retained)\<rparr>)"

definition LIFECYCLE_ACTION_PRIORITY :: "lifecycle_action \<Rightarrow> nat" where
  "LIFECYCLE_ACTION_PRIORITY a = (case a of Reauthorize \<Rightarrow> 2 | Recreate \<Rightarrow> 1 | ReconcileAction \<Rightarrow> 0)"

definition strongest :: "lifecycle_action \<Rightarrow> lifecycle_action \<Rightarrow> lifecycle_action" where
  "strongest best c = (if LIFECYCLE_ACTION_PRIORITY c > LIFECYCLE_ACTION_PRIORITY best then c else best)"

definition hint_actions :: "queue_item list \<Rightarrow> lifecycle_action list" where
  "hint_actions items = List.map_filter (\<lambda>i. case qi_hint i of LifecycleHint a \<Rightarrow> Some a | _ \<Rightarrow> None) items"

definition merge_step :: "string list \<times> bool \<Rightarrow> queue_item \<Rightarrow> string list \<times> bool" where
  "merge_step acc i =
     (case qi_hint i of
        SourcesHint ids r \<Rightarrow>
          (foldl (\<lambda>s x. if x \<in> set s then s else s @ [x]) (fst acc) ids, snd acc \<or> r)
      | _ \<Rightarrow> acc)"

definition mergeHints :: "queue_item list \<Rightarrow> refresh_hint" where
  "mergeHints items =
     (case hint_actions items of
        a # as \<Rightarrow> LifecycleHint (foldl strongest a as)
      | [] \<Rightarrow>
          if list_ex (\<lambda>i. qi_hint i = ReconcileHint) items then ReconcileHint
          else (case foldl merge_step ([], False) items of
                  (ids, rediscover) \<Rightarrow> SourcesHint (js_sort (cmp_key (\<lambda>s. s)) ids) rediscover))"

definition group_item :: "(provider, queue_item list) jmap \<Rightarrow> queue_item \<Rightarrow> (provider, queue_item list) jmap" where
  "group_item m i =
     AList.update (qi_provider i) ((case map_of m (qi_provider i) of None \<Rightarrow> [] | Some is \<Rightarrow> is) @ [i]) m"

definition snapshotBatches :: "queue_item list \<Rightarrow> queue_batch list" where
  "snapshotBatches items =
     map (\<lambda>(p, is). \<lparr>qb_provider = p, qb_items = is, qb_hint = mergeHints is\<rparr>) (foldl group_item [] items)"

section \<open>Reading and writing\<close>

datatype queue_file = NoFile | Garbage | Stored json

definition readQueue :: "queue_file \<Rightarrow> int \<Rightarrow> queue_error + queue_state" where
  "readQueue f now =
     (case f of
        NoFile \<Rightarrow> Inr emptyQueue
      | Garbage \<Rightarrow> Inl ReadFailed
      | Stored v \<Rightarrow>
          if v = JNull then Inl ReadFailed
          else case Option.bind (as_array (member ''pending'' v)) (\<lambda>xs. all_some (map parse_item xs)) of
            None \<Rightarrow> Inl Malformed
          | Some pending \<Rightarrow>
              (case (if member ''version'' v = Some (JNum (of_nat QUEUE_VERSION))
                     then Option.bind (as_array (member ''processedEvents'' v)) (\<lambda>xs. all_some (map parse_processed xs))
                     else None) of
                 Some processed \<Rightarrow> Inr (pruneProcessedEvents \<lparr>qs_pending = pending, qs_processed = processed\<rparr> now)
               | None \<Rightarrow>
                   (case (if member ''version'' v = Some (JNum 1)
                          then Option.bind (as_array (member ''processedEventIds'' v)) (\<lambda>xs. all_some (map nonempty_string xs))
                          else None) of
                      Some ids \<Rightarrow>
                        Inr \<lparr>qs_pending = pending,
                             qs_processed = map (\<lambda>k. \<lparr>pe_key = k, pe_processedAt = to_iso now\<rparr>) ids\<rparr>
                    | None \<Rightarrow> Inl Malformed)))"

definition hint_json :: "refresh_hint \<Rightarrow> json" where
  "hint_json h =
     (case h of
        ReconcileHint \<Rightarrow> JObj [(''kind'', JStr ''reconcile'')]
      | SourcesHint ids r \<Rightarrow> JObj [(''kind'', JStr ''sources''), (''sourceIds'', JArr (map JStr ids)), (''rediscover'', JBool r)]
      | LifecycleHint a \<Rightarrow> JObj [(''kind'', JStr ''lifecycle''), (''action'', JStr (action_name a))])"

definition item_json :: "queue_item \<Rightarrow> json" where
  "item_json i = JObj [(''provider'', JStr (provider_name (qi_provider i))), (''eventId'', JStr (qi_eventId i)),
     (''hint'', hint_json (qi_hint i)), (''enqueuedAt'', JStr (qi_enqueuedAt i)), (''attempts'', JNum (of_nat (qi_attempts i)))]"

definition state_json :: "queue_state \<Rightarrow> json" where
  "state_json st = JObj [(''version'', JNum (of_nat QUEUE_VERSION)), (''pending'', JArr (map item_json (qs_pending st))),
     (''processedEvents'', JArr (map (\<lambda>e. JObj [(''key'', JStr (pe_key e)), (''processedAt'', JStr (pe_processedAt e))]) (qs_processed st)))]"

text \<open>A write succeeds, fails before the rename, or fails after it, in the sync of the directory.\<close>

datatype write_outcome = Written | FailedBefore | FailedAfter

definition writeQueue :: "write_outcome \<Rightarrow> queue_file \<Rightarrow> queue_state \<Rightarrow> queue_file \<times> (queue_error + unit)" where
  "writeQueue w f st =
     (case w of
        Written \<Rightarrow> (Stored (state_json st), Inr ())
      | FailedBefore \<Rightarrow> (f, Inl WriteFailed)
      | FailedAfter \<Rightarrow> (Stored (state_json st), Inl WriteFailed))"

section \<open>The operations\<close>

definition duplicate_event :: "queue_state \<Rightarrow> string \<Rightarrow> bool" where
  "duplicate_event st key \<longleftrightarrow> list_ex (\<lambda>e. pe_key e = key) (qs_processed st) \<or> list_ex (\<lambda>i. keyOf i = key) (qs_pending st)"

definition enqueue :: "write_outcome \<Rightarrow> queue_file \<Rightarrow> queue_input \<Rightarrow> int \<Rightarrow> int \<Rightarrow> queue_file \<times> (queue_error + bool)" where
  "enqueue w f inp t1 t2 =
     (if qi_eventId inp = [] \<or> \<not> valid_hint (qi_hint inp) then (f, Inl InvalidItem)
      else case readQueue f t1 of
        Inl e \<Rightarrow> (f, Inl e)
      | Inr st \<Rightarrow>
          if duplicate_event st (itemKey (qi_provider inp) (qi_eventId inp)) then (f, Inr False)
          else let st' = st\<lparr>qs_pending := qs_pending st @
                      [queue_input.extend (queue_input.truncate inp) \<lparr>qi_enqueuedAt = to_iso t2, qi_attempts = 0\<rparr>]\<rparr>
               in case writeQueue w f st' of
                    (f', Inl e) \<Rightarrow> (f', Inl e)
                  | (f', Inr _) \<Rightarrow> (f', Inr True))"

definition pending :: "queue_file \<Rightarrow> int \<Rightarrow> queue_error + queue_item list" where
  "pending f t = (case readQueue f t of Inl e \<Rightarrow> Inl e | Inr st \<Rightarrow> Inr (qs_pending st))"

text \<open>A drain in progress: the batches left, whether one failed, and how many events are done.\<close>

record drain_state =
  dr_batches :: "queue_batch list"
  dr_failed :: bool
  dr_processed :: nat

text \<open>A call while a drain runs is skipped, which is \<open>Inr None\<close>.\<close>

definition drain_begin :: "bool \<Rightarrow> queue_file \<Rightarrow> int \<Rightarrow> queue_error + drain_state option" where
  "drain_begin draining f t =
     (if draining then Inr None
      else case readQueue f t of
        Inl e \<Rightarrow> Inl e
      | Inr st \<Rightarrow> Inr (Some \<lparr>dr_batches = snapshotBatches (qs_pending st), dr_failed = False, dr_processed = 0\<rparr>))"

definition batch_keys :: "queue_batch \<Rightarrow> string list" where
  "batch_keys b = remdups_first (map keyOf (qb_items b))"

text \<open>
  A failed batch: each pending item of the batch has one more attempt, and the items that reach
  the bound are dropped and recorded as processed.
\<close>

definition bump_item :: "string list \<Rightarrow> queue_item \<Rightarrow> queue_item" where
  "bump_item keys i = (if keyOf i \<in> set keys then i\<lparr>qi_attempts := qi_attempts i + 1\<rparr> else i)"

definition exhausted_keys :: "string list \<Rightarrow> queue_item list \<Rightarrow> string list" where
  "exhausted_keys keys items =
     remdups_first (map keyOf (filter (\<lambda>i. keyOf i \<in> set keys \<and> qi_attempts i + 1 \<ge> MAX_DELIVERY_ATTEMPTS) items))"

definition mark_processed :: "string list \<Rightarrow> int \<Rightarrow> processed_event list" where
  "mark_processed keys t = map (\<lambda>k. \<lparr>pe_key = k, pe_processedAt = to_iso t\<rparr>) keys"

definition settle_failed :: "queue_state \<Rightarrow> string list \<Rightarrow> int \<Rightarrow> queue_state" where
  "settle_failed st keys t =
     (let gone = exhausted_keys keys (qs_pending st)
      in \<lparr>qs_pending = filter (\<lambda>i. keyOf i \<notin> set gone) (map (bump_item keys) (qs_pending st)),
          qs_processed = qs_processed st @ mark_processed gone t\<rparr>)"

definition present_keys :: "queue_state \<Rightarrow> string list \<Rightarrow> string list" where
  "present_keys st keys = remdups_first (filter (\<lambda>k. k \<in> set keys) (map keyOf (qs_pending st)))"

definition settle_ok :: "queue_state \<Rightarrow> string list \<Rightarrow> int \<Rightarrow> queue_state" where
  "settle_ok st keys t =
     (let present = present_keys st keys
      in \<lparr>qs_pending = filter (\<lambda>i. keyOf i \<notin> set present) (qs_pending st),
          qs_processed = qs_processed st @ mark_processed present t\<rparr>)"

text \<open>
  One turn of the loop, after the worker returned: \<open>ok\<close> is its outcome, a throw counting as a
  failure. The three clock readings are those of the read, of the mark and of the pruning.
\<close>

definition settle_batch ::
    "write_outcome \<Rightarrow> queue_file \<Rightarrow> queue_batch \<Rightarrow> bool \<Rightarrow> int \<times> int \<times> int \<Rightarrow> drain_state
     \<Rightarrow> queue_file \<times> (queue_error + drain_state)" where
  "settle_batch w f b ok ts d =
     (case ts of (t1, t2, t3) \<Rightarrow>
        (case readQueue f t1 of
           Inl e \<Rightarrow> (f, Inl e)
         | Inr st \<Rightarrow>
             (let keys = batch_keys b;
                  st' = (if ok then settle_ok st keys t2 else settle_failed st keys t2)
              in case writeQueue w f (pruneProcessedEvents st' t3) of
                   (f', Inl e) \<Rightarrow> (f', Inl e)
                 | (f', Inr _) \<Rightarrow>
                     (f', Inr (d\<lparr>dr_failed := dr_failed d \<or> \<not> ok,
                                 dr_processed := dr_processed d + (if ok then length (present_keys st keys) else 0)\<rparr>)))))"

definition drain_result :: "drain_state \<Rightarrow> queue_error + nat" where
  "drain_result d = (if dr_failed d then Inl BatchesFailed else Inr (dr_processed d))"

section \<open>What was written reads back\<close>

definition wf_queue :: "queue_state \<Rightarrow> bool" where
  "wf_queue st \<longleftrightarrow>
     (\<forall>i \<in> set (qs_pending st). qi_eventId i \<noteq> [] \<and> valid_hint (qi_hint i))
     \<and> (\<forall>e \<in> set (qs_processed st). pe_key e \<noteq> [] \<and> date_parse (pe_processedAt e) \<noteq> None)
     \<and> distinct (map keyOf (qs_pending st)) \<and> keyOf ` set (qs_pending st) \<inter> pe_key ` set (qs_processed st) = {}"

lemma all_some_map: "(\<And>x. x \<in> set xs \<Longrightarrow> f (g x) = Some (h x)) \<Longrightarrow> all_some (map (f \<circ> g) xs) = Some (map h xs)"
  by (induction xs) auto

lemma parse_item_json:
  assumes "qi_eventId i \<noteq> []" and "valid_hint (qi_hint i)"
  shows "parse_item (item_json i) = Some i"
proof -
  have p: "parse_provider (Some (JStr (provider_name (qi_provider i)))) = Some (qi_provider i)"
    by (cases "qi_provider i") (simp_all add: parse_provider_def PROVIDER_NAMES_def provider_name_def)
  have a: "parse_action (Some (JStr (action_name a))) = Some a" for a
    by (cases a) (simp_all add: parse_action_def action_name_def)
  have ids: "list_all (\<lambda>i. i \<noteq> []) ids \<Longrightarrow> all_some (map (nonempty_string \<circ> JStr) ids) = Some ids" for ids
    using all_some_map [of ids nonempty_string JStr "\<lambda>x. x"] by (simp add: list_all_iff nonempty_string_def)
  have h: "parse_hint (hint_json (qi_hint i)) = Some (qi_hint i)"
    using assms(2) ids a by (cases "qi_hint i") (simp_all add: parse_hint_def hint_json_def member_def as_array_def valid_hint_def)
  have c: "parse_count (Some (JNum (of_nat n))) = Some n" for n
    using quotient_of_int [of "int n"] by (simp add: parse_count_def)
  show ?thesis
    using assms(1) p h c by (simp add: parse_item_def item_json_def member_def nonempty_string_def)
qed

lemma parse_processed_json:
  "pe_key e \<noteq> [] \<Longrightarrow> date_parse (pe_processedAt e) \<noteq> None \<Longrightarrow>
   parse_processed (JObj [(''key'', JStr (pe_key e)), (''processedAt'', JStr (pe_processedAt e))]) = Some e"
  by (simp add: parse_processed_def member_def nonempty_string_def)

lemma read_written:
  assumes "wf_queue st"
  shows "readQueue (Stored (state_json st)) t = Inr (pruneProcessedEvents st t)"
proof -
  have "all_some (map (parse_item \<circ> item_json) (qs_pending st)) = Some (qs_pending st)"
    using assms all_some_map [of _ parse_item item_json "\<lambda>x. x"] parse_item_json by (simp add: wf_queue_def)
  moreover have "all_some (map (parse_processed \<circ> (\<lambda>e. JObj [(''key'', JStr (pe_key e)), (''processedAt'', JStr (pe_processedAt e))]))
      (qs_processed st)) = Some (qs_processed st)"
    using assms all_some_map [of _ parse_processed _ "\<lambda>x. x"] parse_processed_json by (simp add: wf_queue_def)
  ultimately show ?thesis
    by (simp add: readQueue_def state_json_def member_def as_array_def comp_def)
      (metis queue_state.surjective old.unit.exhaust)
qed

section \<open>The queue as a map from keys to their status\<close>

datatype ev_status = Waiting nat | Settled

definition waits :: "queue_state \<Rightarrow> (string, nat) jmap" where
  "waits st = map (\<lambda>i. (keyOf i, qi_attempts i)) (qs_pending st)"

definition status :: "queue_state \<Rightarrow> string \<Rightarrow> ev_status option" where
  "status st k =
     (case map_of (waits st) k of
        Some n \<Rightarrow> Some (Waiting n)
      | None \<Rightarrow> if k \<in> pe_key ` set (qs_processed st) then Some Settled else None)"

definition abs_enqueue :: "string \<Rightarrow> (string \<Rightarrow> ev_status option) \<Rightarrow> string \<Rightarrow> ev_status option" where
  "abs_enqueue k m = (if m k = None then m(k \<mapsto> Waiting 0) else m)"

definition abs_settle :: "bool \<Rightarrow> string set \<Rightarrow> (string \<Rightarrow> ev_status option) \<Rightarrow> string \<Rightarrow> ev_status option" where
  "abs_settle ok K m k =
     (case m k of
        Some (Waiting n) \<Rightarrow>
          if k \<notin> K then m k else if ok \<or> n + 1 \<ge> MAX_DELIVERY_ATTEMPTS then Some Settled else Some (Waiting (n + 1))
      | _ \<Rightarrow> m k)"

definition forgets :: "(string \<Rightarrow> ev_status option) \<Rightarrow> (string \<Rightarrow> ev_status option) \<Rightarrow> bool" where
  "forgets m m' \<longleftrightarrow> (\<forall>k. m' k = m k \<or> m k = Some Settled \<and> m' k = None)"

lemma waits_keys [simp]: "jkeys (waits st) = map keyOf (qs_pending st)" "fst ` set (waits st) = keyOf ` set (qs_pending st)"
  by (auto simp: waits_def image_comp comp_def)

lemma waits_none: "map_of (waits st) k = None \<longleftrightarrow> k \<notin> keyOf ` set (qs_pending st)"
  by (simp add: map_of_eq_None_iff)

lemma waits_some:
  "wf_queue st \<Longrightarrow> map_of (waits st) k = Some n \<longleftrightarrow> (\<exists>i \<in> set (qs_pending st). keyOf i = k \<and> qi_attempts i = n)"
proof -
  assume "wf_queue st"
  then have "distinct (jkeys (waits st))" by (simp add: wf_queue_def)
  from map_of_eq_Some_iff [OF this] show ?thesis by (auto simp: waits_def)
qed

lemma status_waiting:
  "wf_queue st \<Longrightarrow> status st k = Some (Waiting n) \<longleftrightarrow> (\<exists>i \<in> set (qs_pending st). keyOf i = k \<and> qi_attempts i = n)"
  unfolding waits_some [symmetric] by (simp add: status_def split: option.splits)

lemma status_settled: "status st k = Some Settled \<longleftrightarrow> k \<notin> keyOf ` set (qs_pending st) \<and> k \<in> pe_key ` set (qs_processed st)"
  unfolding waits_none [symmetric] by (simp add: status_def split: option.splits)

lemma status_none: "status st k = None \<longleftrightarrow> \<not> duplicate_event st k"
proof -
  have "duplicate_event st k \<longleftrightarrow> k \<in> pe_key ` set (qs_processed st) \<or> k \<in> keyOf ` set (qs_pending st)"
    by (auto simp: duplicate_event_def list_ex_iff)
  then show ?thesis using waits_none [of st k] by (auto simp: status_def split: option.split)
qed

lemma prune_fields [simp]:
  "qs_pending (pruneProcessedEvents st t) = qs_pending st"
  "set (qs_processed (pruneProcessedEvents st t)) \<subseteq> set (qs_processed st)"
  by (auto simp: pruneProcessedEvents_def Let_def dest: in_set_dropD)

lemma wf_prune: "wf_queue st \<Longrightarrow> wf_queue (pruneProcessedEvents st t)"
  using prune_fields(2) [of st t] unfolding wf_queue_def prune_fields(1) by blast

lemma prune_forgets: "forgets (status st) (status (pruneProcessedEvents st t))"
proof -
  have "waits (pruneProcessedEvents st t) = waits st" by (simp add: waits_def)
  moreover have "pe_key ` set (qs_processed (pruneProcessedEvents st t)) \<subseteq> pe_key ` set (qs_processed st)"
    using prune_fields(2) by (rule image_mono)
  ultimately show ?thesis
    unfolding forgets_def status_def by (auto split: option.split)
qed

text \<open>The three state changes keep the queue well formed and act on the status as specified.\<close>

definition new_item :: "queue_input \<Rightarrow> int \<Rightarrow> queue_item" where
  "new_item inp t = queue_input.extend (queue_input.truncate inp) \<lparr>qi_enqueuedAt = to_iso t, qi_attempts = 0\<rparr>"

lemma new_item_fields [simp]:
  "qi_eventId (new_item inp t) = qi_eventId inp" "qi_hint (new_item inp t) = qi_hint inp"
  "keyOf (new_item inp t) = itemKey (qi_provider inp) (qi_eventId inp)" "qi_attempts (new_item inp t) = 0"
  by (simp_all add: new_item_def queue_input.defs keyOf_def)

lemma enqueue_state:
  fixes t :: int
  assumes "wf_queue st" and "qi_eventId inp \<noteq> []" "valid_hint (qi_hint inp)"
    and "\<not> duplicate_event st (itemKey (qi_provider inp) (qi_eventId inp))"
  defines "st' \<equiv> st\<lparr>qs_pending := qs_pending st @ [new_item inp t]\<rparr>"
  shows "wf_queue st'" and "status st' = abs_enqueue (itemKey (qi_provider inp) (qi_eventId inp)) (status st)"
proof -
  let ?k = "itemKey (qi_provider inp) (qi_eventId inp)"
  have k: "?k \<notin> keyOf ` set (qs_pending st)" "?k \<notin> pe_key ` set (qs_processed st)"
    using assms(4) by (auto simp: duplicate_event_def list_ex_iff)
  then show "wf_queue st'" using assms by (auto simp: wf_queue_def)
  have none: "map_of (waits st) ?k = None" using k(1) waits_none by blast
  moreover have "waits st' = waits st @ [(?k, 0)]" by (simp add: waits_def st'_def)
  ultimately have "map_of (waits st') = (map_of (waits st))(?k \<mapsto> 0)"
    by (auto simp: map_add_def fun_eq_iff split: option.split)
  then show "status st' = abs_enqueue ?k (status st)"
    using k none by (auto simp: status_def abs_enqueue_def st'_def fun_eq_iff split: option.split)
qed

lemma keys_mark [simp]: "pe_key ` set (mark_processed ks t) = set ks"
  by (auto simp: mark_processed_def image_comp comp_def)

lemma mark_parses:
  "in_calendar t \<Longrightarrow> e \<in> set (mark_processed ks t) \<Longrightarrow> date_parse (pe_processedAt e) \<noteq> None \<and> pe_key e \<in> set ks"
  by (auto simp: mark_processed_def date_parse_to_iso)

lemma key_nonempty [simp]: "keyOf i \<noteq> []"
  by (simp add: keyOf_def itemKey_def)

lemma wf_settled:
  assumes "wf_queue st" and "in_calendar t" and "set ks \<subseteq> keyOf ` set (qs_pending st)"
    and "\<And>i. keyOf (f i) = keyOf i \<and> qi_eventId (f i) = qi_eventId i \<and> qi_hint (f i) = qi_hint i"
  shows "wf_queue \<lparr>qs_pending = filter (\<lambda>i. keyOf i \<notin> set ks) (map f (qs_pending st)),
    qs_processed = qs_processed st @ mark_processed ks t\<rparr>"
proof -
  have "map keyOf (map f is) = map keyOf is" for "is" using assms(4) by simp
  then have "distinct (map keyOf (filter (\<lambda>i. keyOf i \<notin> set ks) (map f (qs_pending st))))"
    using assms(1) by (intro distinct_map_filter) (simp only: wf_queue_def)
  moreover have "pe_key e \<noteq> [] \<and> date_parse (pe_processedAt e) \<noteq> None" if m: "e \<in> set (mark_processed ks t)" for e
  proof -
    obtain i where "pe_key e = keyOf i" using mark_parses [OF assms(2) m] assms(3) by blast
    then show ?thesis using mark_parses [OF assms(2) m] by simp
  qed
  moreover have "keyOf ` set (filter (\<lambda>i. keyOf i \<notin> set ks) (map f (qs_pending st)))
      \<inter> pe_key ` set (qs_processed st @ mark_processed ks t) = {}"
    using assms(1,4) by (auto simp: wf_queue_def image_Un)
  ultimately show ?thesis
    using assms(1,4) by (auto simp: wf_queue_def)
qed

lemma settled_status:
  assumes "wf_queue st" and "in_calendar t" and "set ks \<subseteq> keyOf ` set (qs_pending st)"
    and f: "\<And>i. keyOf (f i) = keyOf i \<and> qi_eventId (f i) = qi_eventId i \<and> qi_hint (f i) = qi_hint i"
    and g: "\<And>i. qi_attempts (f i) = g (keyOf i) (qi_attempts i)"
  defines "st' \<equiv> \<lparr>qs_pending = filter (\<lambda>i. keyOf i \<notin> set ks) (map f (qs_pending st)),
    qs_processed = qs_processed st @ mark_processed ks t\<rparr>"
  shows "status st' k = (case status st k of
      Some (Waiting n) \<Rightarrow> if k \<in> set ks then Some Settled else Some (Waiting (g k n)) | x \<Rightarrow> x)"
proof -
  have wf: "wf_queue st'" using wf_settled [OF assms(1-3) f] by (simp add: st'_def)
  have "map keyOf (filter (\<lambda>i. keyOf i \<notin> set ks) (map f is)) = filter (\<lambda>k. k \<notin> set ks) (map keyOf is)" for "is"
    using f by (induction "is") auto
  from arg_cong [OF this [of "qs_pending st"], of set] have
    keys: "keyOf ` set (qs_pending st') = keyOf ` set (qs_pending st) - set ks"
      "pe_key ` set (qs_processed st') = pe_key ` set (qs_processed st) \<union> set ks"
    by (auto simp: st'_def image_Un)
  show ?thesis
  proof (cases "map_of (waits st) k")
    case None
    then have "k \<notin> keyOf ` set (qs_pending st)" by (simp add: waits_none)
    then have "map_of (waits st') k = None" "k \<notin> set ks" using keys(1) assms(3) by (auto simp: waits_none)
    then show ?thesis using None keys(2) by (auto simp: status_def)
  next
    case (Some n)
    then obtain i where i: "i \<in> set (qs_pending st)" "keyOf i = k" "qi_attempts i = n"
      using waits_some [OF assms(1)] by blast
    show ?thesis
    proof (cases "k \<in> set ks")
      case True
      then have "map_of (waits st') k = None" using keys(1) by (auto simp: waits_none)
      then show ?thesis using True Some keys(2) by (simp add: status_def)
    next
      case False
      then have "f i \<in> set (qs_pending st')" using i f by (simp add: st'_def)
      then have "status st' k = Some (Waiting (g k n))" using status_waiting [OF wf] f g i by blast
      then show ?thesis using Some False by (simp add: status_def)
    qed
  qed
qed

lemma settle_ok_state:
  assumes "wf_queue st" and "in_calendar t"
  shows "wf_queue (settle_ok st ks t)" and "status (settle_ok st ks t) = abs_settle True (set ks) (status st)"
proof -
  have sub: "set (present_keys st ks) \<subseteq> keyOf ` set (qs_pending st)"
    and pres: "set (present_keys st ks) = set ks \<inter> keyOf ` set (qs_pending st)"
    by (auto simp: present_keys_def)
  show "wf_queue (settle_ok st ks t)"
    using wf_settled [OF assms sub, of "\<lambda>i. i"] by (simp add: settle_ok_def Let_def)
  have "status st k = Some (Waiting n) \<Longrightarrow> k \<in> set (present_keys st ks) \<longleftrightarrow> k \<in> set ks" for k n
    using pres status_waiting [OF assms(1)] by auto
  then show "status (settle_ok st ks t) = abs_settle True (set ks) (status st)"
    using settled_status [OF assms sub, of "\<lambda>i. i" "\<lambda>k n. n"]
    by (auto simp: fun_eq_iff settle_ok_def Let_def abs_settle_def split: option.splits ev_status.splits)
qed

lemma settle_failed_state:
  assumes "wf_queue st" and "in_calendar t"
  shows "wf_queue (settle_failed st ks t)" and "status (settle_failed st ks t) = abs_settle False (set ks) (status st)"
proof -
  let ?gone = "exhausted_keys ks (qs_pending st)"
  have sub: "set ?gone \<subseteq> keyOf ` set (qs_pending st)" by (auto simp: exhausted_keys_def)
  have bump: "keyOf (bump_item ks i) = keyOf i \<and> qi_eventId (bump_item ks i) = qi_eventId i
      \<and> qi_hint (bump_item ks i) = qi_hint i" for i
    by (simp add: bump_item_def keyOf_def)
  show "wf_queue (settle_failed st ks t)"
    using wf_settled [OF assms sub bump] by (simp add: settle_failed_def Let_def)
  let ?g = "\<lambda>k n. if k \<in> set ks then n + 1 else n"
  have g: "qi_attempts (bump_item ks i) = ?g (keyOf i) (qi_attempts i)" for i by (simp add: bump_item_def)
  have gone: "status st k = Some (Waiting n) \<Longrightarrow> k \<in> set ?gone \<longleftrightarrow> k \<in> set ks \<and> n + 1 \<ge> MAX_DELIVERY_ATTEMPTS" for k n
  proof -
    assume w: "status st k = Some (Waiting n)"
    then have "qi_attempts i = n" if "i \<in> set (qs_pending st)" "keyOf i = k" for i
      using that status_waiting [OF assms(1), of k "qi_attempts i"] by auto
    moreover obtain i where "i \<in> set (qs_pending st)" "keyOf i = k" using w status_waiting [OF assms(1)] by blast
    ultimately show ?thesis by (auto simp: exhausted_keys_def)
  qed
  have "status (settle_failed st ks t) k = abs_settle False (set ks) (status st) k" for k
    using settled_status [OF assms sub bump g, of k] gone [of k]
    by (auto simp: settle_failed_def Let_def abs_settle_def split: option.splits ev_status.splits)
  then show "status (settle_failed st ks t) = abs_settle False (set ks) (status st)" by blast
qed

section \<open>Refinement\<close>

text \<open>A file this module writes: none, or a well-formed state.\<close>

definition own_file :: "queue_file \<Rightarrow> queue_state \<Rightarrow> bool" where
  "own_file f st \<longleftrightarrow> wf_queue st \<and> (f = NoFile \<and> st = emptyQueue \<or> f = Stored (state_json st))"

lemma own_read: "own_file f st \<Longrightarrow> readQueue f t = Inr (pruneProcessedEvents st t)"
  using read_written by (auto simp: own_file_def readQueue_def pruneProcessedEvents_def emptyQueue_def)

lemma own_empty: "own_file NoFile emptyQueue"
  by (simp add: own_file_def wf_queue_def emptyQueue_def)

lemma own_stored: "wf_queue st \<Longrightarrow> own_file (Stored (state_json st)) st"
  by (simp add: own_file_def)

lemma enqueue_cases:
  assumes "own_file f st" and "enqueue w f inp t1 t2 = (f', r)"
  defines "k \<equiv> itemKey (qi_provider inp) (qi_eventId inp)" and "st1 \<equiv> pruneProcessedEvents st t1"
  shows "f' = f \<and> r \<noteq> Inr True \<and> (r = Inr False \<longrightarrow> duplicate_event st1 k)
    \<or> qi_eventId inp \<noteq> [] \<and> valid_hint (qi_hint inp) \<and> \<not> duplicate_event st1 k
      \<and> f' = Stored (state_json (st1\<lparr>qs_pending := qs_pending st1 @ [new_item inp t2]\<rparr>)) \<and> r \<noteq> Inr False"
  using assms(2) own_read [OF assms(1), of t1] unfolding k_def st1_def
  by (auto simp: enqueue_def Let_def writeQueue_def new_item_def split: if_splits write_outcome.splits)

text \<open>
  C22: the queue refines a map from event keys to their status. Reading the file gives a state whose
  status is the stored one less some settled keys (those past the replay horizon or the bound on their
  number). An event is accepted exactly when its key has no status, and then waits with no attempt. A
  settled batch moves each waiting key of the batch to settled when the worker succeeded or its fifth
  attempt failed, and otherwise counts one attempt; no other key changes.
\<close>

theorem queue_refines_status:
  assumes "own_file f st" and "in_calendar t2" and "qi_eventId inp \<noteq> []" and "valid_hint (qi_hint inp)"
  shows "\<exists>st1. readQueue f t1 = Inr st1 \<and> forgets (status st) (status st1)
    \<and> (let k = itemKey (qi_provider inp) (qi_eventId inp) in
        \<exists>f' st2. enqueue Written f inp t1 t2 = (f', Inr (status st1 k = None))
          \<and> (if status st1 k = None then own_file f' st2 \<and> status st2 = abs_enqueue k (status st1) else f' = f))
    \<and> (\<exists>f' st2 st3 d'. settle_batch Written f b ok (t1, t2, t3) d = (f', Inr d') \<and> own_file f' st3
          \<and> status st2 = abs_settle ok (keyOf ` set (qb_items b)) (status st1) \<and> forgets (status st2) (status st3))"
proof -
  let ?st1 = "pruneProcessedEvents st t1" and ?k = "itemKey (qi_provider inp) (qi_eventId inp)"
  have read: "readQueue f t1 = Inr ?st1" by (rule own_read [OF assms(1)])
  have wf: "wf_queue ?st1" using assms(1) wf_prune by (simp add: own_file_def)
  have one: "\<exists>f' st2. enqueue Written f inp t1 t2 = (f', Inr (status ?st1 ?k = None))
      \<and> (if status ?st1 ?k = None then own_file f' st2 \<and> status st2 = abs_enqueue ?k (status ?st1) else f' = f)"
  proof (cases "duplicate_event ?st1 ?k")
    case True
    then have "status ?st1 ?k \<noteq> None" by (simp only: status_none not_not)
    then obtain y where "status ?st1 ?k = Some y" by blast
    then show ?thesis using True read assms(3,4) by (simp add: enqueue_def)
  next
    case False
    then have "status ?st1 ?k = None" by (simp only: status_none not_False_eq_True)
    then show ?thesis
      using False read assms(3,4) enqueue_state [OF wf assms(3,4) False, of t2]
      by (intro exI conjI) (auto simp: enqueue_def writeQueue_def new_item_def [symmetric] Let_def intro: own_stored)
  qed
  define st2 where "st2 = (if ok then settle_ok ?st1 (batch_keys b) t2 else settle_failed ?st1 (batch_keys b) t2)"
  have st2: "wf_queue st2" "status st2 = abs_settle ok (keyOf ` set (qb_items b)) (status ?st1)"
    using settle_ok_state [OF wf assms(2)] settle_failed_state [OF wf assms(2)]
    by (auto simp: st2_def batch_keys_def)
  have "\<exists>d'. settle_batch Written f b ok (t1, t2, t3) d = (Stored (state_json (pruneProcessedEvents st2 t3)), Inr d')"
    using read by (simp add: settle_batch_def writeQueue_def Let_def st2_def)
  then have two: "\<exists>f' st2 st3 d'. settle_batch Written f b ok (t1, t2, t3) d = (f', Inr d') \<and> own_file f' st3
      \<and> status st2 = abs_settle ok (keyOf ` set (qb_items b)) (status ?st1) \<and> forgets (status st2) (status st3)"
    using st2 own_stored [OF wf_prune [OF st2(1)]] prune_forgets by blast
  show ?thesis using read prune_forgets [of st t1] one two unfolding Let_def by blast
qed

text \<open>A stored queue with one waiting event, for the applications of the theorems.\<close>

definition demo_input :: "string \<Rightarrow> queue_input" where
  "demo_input e = \<lparr>qi_provider = Notion, qi_eventId = e, qi_hint = ReconcileHint\<rparr>"

theorem queue_refines_status_witness:
  "\<exists>f' st2. enqueue Written NoFile (demo_input ''e1'') 0 0 = (f', Inr True)
     \<and> own_file f' st2 \<and> status st2 ''notion:e1'' = Some (Waiting 0)"
proof -
  have cal: "in_calendar 0" by code_simp
  have none: "readQueue NoFile 0 = Inr emptyQueue" by (simp add: readQueue_def)
  have inp: "qi_eventId (demo_input ''e1'') \<noteq> []" "valid_hint (qi_hint (demo_input ''e1''))"
    "itemKey (qi_provider (demo_input ''e1'')) (qi_eventId (demo_input ''e1'')) = ''notion:e1''"
    by (simp_all add: demo_input_def valid_hint_def itemKey_def provider_name_def)
  have st: "status emptyQueue ''notion:e1'' = None" by (simp add: status_def waits_def emptyQueue_def)
  show ?thesis
  proof -
    obtain f' st2 where "enqueue Written NoFile (demo_input ''e1'') 0 0 = (f', Inr True)" "own_file f' st2"
      "status st2 = abs_enqueue ''notion:e1'' (status emptyQueue)"
      using queue_refines_status [OF own_empty cal inp(1,2), of 0
        "\<lparr>qb_provider = Notion, qb_items = [], qb_hint = ReconcileHint\<rparr>" True 0
        "\<lparr>dr_batches = [], dr_failed = False, dr_processed = 0\<rparr>"]
      unfolding none inp(3) Let_def by (auto simp: st)
    moreover from this(3) have "status st2 ''notion:e1'' = Some (Waiting 0)" by (simp add: abs_enqueue_def st)
    ultimately show ?thesis by blast
  qed
qed

section \<open>Nothing accepted is lost\<close>

text \<open>
  The queue in operation: the file, the drain in progress, and, as a record of what happened, the keys
  whose enqueuing was acknowledged, the keys handed to a worker that succeeded, and how often each key
  was in a batch that failed. Enqueuing runs at any moment, any write may fail, and a crash ends a drain.
\<close>

record queue_system =
  sy_file :: queue_file
  sy_drain :: "drain_state option"
  sy_accepted :: "string set"
  sy_delivered :: "string set"
  sy_failures :: "string \<Rightarrow> nat"

definition queue_init :: queue_system where
  "queue_init = \<lparr>sy_file = NoFile, sy_drain = None, sy_accepted = {}, sy_delivered = {}, sy_failures = (\<lambda>_. 0)\<rparr>"

definition count_failures :: "bool \<Rightarrow> string set \<Rightarrow> (string \<Rightarrow> nat) \<Rightarrow> string \<Rightarrow> nat" where
  "count_failures ok K c k = (if \<not> ok \<and> k \<in> K then c k + 1 else c k)"

inductive queue_step :: "queue_system \<Rightarrow> queue_system \<Rightarrow> bool" where
  step_enqueue:
    "in_calendar t2 \<Longrightarrow> enqueue w (sy_file s) inp t1 t2 = (f', r) \<Longrightarrow>
     queue_step s (s\<lparr>sy_file := f', sy_accepted := (if r = Inr True
       then insert (itemKey (qi_provider inp) (qi_eventId inp)) (sy_accepted s) else sy_accepted s)\<rparr>)"
| step_begin:
    "drain_begin (sy_drain s \<noteq> None) (sy_file s) t = Inr (Some d) \<Longrightarrow> queue_step s (s\<lparr>sy_drain := Some d\<rparr>)"
| step_settle:
    "sy_drain s = Some d \<Longrightarrow> dr_batches d = b # bs \<Longrightarrow> in_calendar t2 \<Longrightarrow>
     settle_batch w (sy_file s) b ok (t1, t2, t3) (d\<lparr>dr_batches := bs\<rparr>) = (f', r) \<Longrightarrow>
     queue_step s (s\<lparr>sy_file := f', sy_drain := (case r of Inl _ \<Rightarrow> None | Inr d' \<Rightarrow> Some d'),
       sy_delivered := (if ok then sy_delivered s \<union> keyOf ` set (qb_items b) else sy_delivered s),
       sy_failures := count_failures ok (keyOf ` set (qb_items b)) (sy_failures s)\<rparr>)"
| step_finish:
    "sy_drain s = Some d \<Longrightarrow> dr_batches d = [] \<Longrightarrow> queue_step s (s\<lparr>sy_drain := None\<rparr>)"
| step_crash:
    "queue_step s (s\<lparr>sy_drain := None\<rparr>)"

inductive queue_reach :: "queue_system \<Rightarrow> bool" where
  reach_init: "queue_reach queue_init"
| reach_step: "queue_reach s \<Longrightarrow> queue_step s s' \<Longrightarrow> queue_reach s'"

text \<open>The invariant, over the status of the stored state.\<close>

definition accounted :: "queue_system \<Rightarrow> string \<Rightarrow> bool" where
  "accounted s k \<longleftrightarrow> k \<in> sy_delivered s \<or> sy_failures s k \<ge> MAX_DELIVERY_ATTEMPTS"

definition queue_inv :: "queue_system \<Rightarrow> queue_state \<Rightarrow> bool" where
  "queue_inv s st \<longleftrightarrow> own_file (sy_file s) st
     \<and> (\<forall>k n. status st k = Some (Waiting n) \<longrightarrow> n \<le> sy_failures s k)
     \<and> (\<forall>k \<in> sy_accepted s. (\<exists>n. status st k = Some (Waiting n)) \<or> accounted s k)"

lemma prune_waiting: "status (pruneProcessedEvents st t) k = Some (Waiting n) \<longleftrightarrow> status st k = Some (Waiting n)"
proof -
  have "waits (pruneProcessedEvents st t) = waits st" by (simp add: waits_def)
  then show ?thesis by (auto simp: status_def split: option.splits)
qed

lemma inv_enqueue:
  assumes "queue_inv s st" and "in_calendar t2" and "enqueue w (sy_file s) inp t1 t2 = (f', r)"
  shows "\<exists>st'. queue_inv (s\<lparr>sy_file := f', sy_accepted := (if r = Inr True
       then insert (itemKey (qi_provider inp) (qi_eventId inp)) (sy_accepted s) else sy_accepted s)\<rparr>) st'"
proof -
  let ?k = "itemKey (qi_provider inp) (qi_eventId inp)" and ?st1 = "pruneProcessedEvents st t1"
  have own: "own_file (sy_file s) st" using assms(1) by (simp add: queue_inv_def)
  then have wf: "wf_queue ?st1" by (simp add: own_file_def wf_prune)
  from enqueue_cases [OF own assms(3)] show ?thesis
  proof (elim disjE conjE)
    assume "f' = sy_file s" "r \<noteq> Inr True"
    then show ?thesis using assms(1) by (intro exI [of _ st]) (simp add: queue_inv_def accounted_def)
  next
    let ?st2 = "?st1\<lparr>qs_pending := qs_pending ?st1 @ [new_item inp t2]\<rparr>"
    assume new: "qi_eventId inp \<noteq> []" "valid_hint (qi_hint inp)" "\<not> duplicate_event ?st1 ?k"
      "f' = Stored (state_json ?st2)"
    note st2 = enqueue_state [OF wf new(1-3), of t2]
    have none: "status ?st1 ?k = None" using new(3) by (simp only: status_none not_False_eq_True)
    have waiting: "status ?st2 k = Some (Waiting n) \<longleftrightarrow> (if k = ?k then n = 0 else status st k = Some (Waiting n))" for k n
      unfolding st2(2) abs_enqueue_def using none prune_waiting [of st t1 k n] by auto
    have "(\<exists>n. status ?st2 k = Some (Waiting n)) \<or> accounted s k" if "k = ?k \<or> k \<in> sy_accepted s" for k
      using that assms(1) unfolding queue_inv_def waiting by (cases "k = ?k") auto
    moreover have "n \<le> sy_failures s k" if "status ?st2 k = Some (Waiting n)" for k n
      using that assms(1) unfolding queue_inv_def waiting by (auto split: if_splits)
    ultimately show ?thesis
      using new(4) own_stored [OF st2(1)] by (intro exI [of _ ?st2]) (simp add: queue_inv_def accounted_def)
  qed
qed

lemma inv_settle:
  assumes "queue_inv s st" and "in_calendar t2" and "settle_batch w (sy_file s) b ok (t1, t2, t3) d = (f', r)"
  shows "\<exists>st'. queue_inv (s\<lparr>sy_file := f', sy_drain := dr,
       sy_delivered := (if ok then sy_delivered s \<union> keyOf ` set (qb_items b) else sy_delivered s),
       sy_failures := count_failures ok (keyOf ` set (qb_items b)) (sy_failures s)\<rparr>) st'"
    (is "\<exists>st'. queue_inv ?s' st'")
proof -
  let ?st1 = "pruneProcessedEvents st t1" and ?K = "keyOf ` set (qb_items b)"
  have own: "own_file (sy_file s) st" using assms(1) by (simp add: queue_inv_def)
  then have wf: "wf_queue ?st1" by (simp add: own_file_def wf_prune)
  have old: "status st k = Some (Waiting n) \<Longrightarrow> n \<le> sy_failures s k" "k \<in> sy_accepted s \<Longrightarrow> (\<exists>n. status st k = Some (Waiting n)) \<or> accounted s k" for k n
    using assms(1) by (auto simp: queue_inv_def)
  have kept: "accounted s k \<Longrightarrow> accounted ?s' k" for k
    by (auto simp: accounted_def count_failures_def)
  have mono: "sy_failures s k \<le> sy_failures ?s' k" for k by (simp add: count_failures_def)
  define st2 where "st2 = (if ok then settle_ok ?st1 (batch_keys b) t2 else settle_failed ?st1 (batch_keys b) t2)"
  have st2: "wf_queue st2" "status st2 = abs_settle ok ?K (status ?st1)"
    using settle_ok_state [OF wf assms(2)] settle_failed_state [OF wf assms(2)]
    by (auto simp: st2_def batch_keys_def)
  have "f' = sy_file s \<or> f' = Stored (state_json (pruneProcessedEvents st2 t3))"
    using assms(3) own_read [OF own, of t1]
    by (auto simp: settle_batch_def writeQueue_def Let_def st2_def split: write_outcome.splits if_splits)
  then show ?thesis
  proof
    assume "f' = sy_file s"
    have "n \<le> sy_failures ?s' k" if "status st k = Some (Waiting n)" for k n
      using old(1) [OF that] mono [of k] by (rule le_trans)
    moreover have "(\<exists>n. status st k = Some (Waiting n)) \<or> accounted ?s' k" if "k \<in> sy_accepted s" for k
      using old(2) [OF that] kept by blast
    ultimately have "queue_inv ?s' st" using own \<open>f' = sy_file s\<close> by (simp add: queue_inv_def)
    then show ?thesis ..
  next
    assume f': "f' = Stored (state_json (pruneProcessedEvents st2 t3))"
    have new: "status (pruneProcessedEvents st2 t3) k = Some (Waiting n) \<longleftrightarrow>
        (\<exists>m. status st k = Some (Waiting m) \<and> (if k \<in> ?K then \<not> ok \<and> n = m + 1 \<and> n < MAX_DELIVERY_ATTEMPTS else n = m))" for k n
      using prune_forgets [of st t1] unfolding prune_waiting st2(2) abs_settle_def forgets_def
      by (cases "status ?st1 k = status st k") (auto split: option.splits ev_status.splits if_splits)
    have "n \<le> sy_failures ?s' k" if "status (pruneProcessedEvents st2 t3) k = Some (Waiting n)" for k n
      using that old(1) [of k] unfolding new by (auto simp: count_failures_def split: if_splits)
    moreover have "(\<exists>n. status (pruneProcessedEvents st2 t3) k = Some (Waiting n)) \<or> accounted ?s' k" if acc: "k \<in> sy_accepted s" for k
    proof (cases "accounted s k")
      case True
      then show ?thesis using kept by blast
    next
      case False
      then obtain m where m: "status st k = Some (Waiting m)" using old(2) [OF acc] by blast
      then show ?thesis
        using old(1) [OF m] unfolding new by (auto simp: accounted_def count_failures_def)
    qed
    ultimately have "queue_inv ?s' (pruneProcessedEvents st2 t3)"
      using f' own_stored [OF wf_prune [OF st2(1)]] by (simp add: queue_inv_def)
    then show ?thesis ..
  qed
qed

lemma inv_drain: "queue_inv s st \<Longrightarrow> queue_inv (s\<lparr>sy_drain := d\<rparr>) st"
  by (simp add: queue_inv_def accounted_def)

lemma queue_reach_inv: "queue_reach s \<Longrightarrow> \<exists>st. queue_inv s st"
proof (induction rule: queue_reach.induct)
  case reach_init
  have "queue_inv queue_init emptyQueue"
    using own_empty by (simp add: queue_inv_def queue_init_def status_def waits_def emptyQueue_def)
  then show ?case ..
next
  case (reach_step s s')
  from reach_step.IH obtain st where "queue_inv s st" ..
  with reach_step(2) show ?case
    by (cases rule: queue_step.cases) (blast intro: inv_enqueue inv_settle inv_drain)+
qed

text \<open>
  C23: nothing accepted is lost. In every reachable state of the queue in operation, with enqueuing
  between the turns of a drain, failing workers, writes that fail before or after the replacement of
  the file, and crashes, the file is readable and an event whose enqueuing was acknowledged is still
  pending, was handed to a worker that succeeded, or was in five batches that failed.
\<close>

theorem accepted_event_accounted:
  assumes "queue_reach s" and "k \<in> sy_accepted s"
  shows "\<exists>is. pending (sy_file s) t = Inr is
    \<and> (k \<in> keyOf ` set is \<or> k \<in> sy_delivered s \<or> sy_failures s k \<ge> 5)"
proof -
  from queue_reach_inv [OF assms(1)] obtain st where inv: "queue_inv s st" ..
  then have own: "own_file (sy_file s) st" by (simp add: queue_inv_def)
  from inv assms(2) consider n where "status st k = Some (Waiting n)" | "accounted s k"
    by (auto simp: queue_inv_def)
  then have "k \<in> keyOf ` set (qs_pending st) \<or> accounted s k"
  proof cases
    case 1
    then show ?thesis using own status_waiting [of st k] by (auto simp: own_file_def)
  qed simp
  then show ?thesis
    using own_read [OF own, of t] by (auto simp: pending_def accounted_def MAX_DELIVERY_ATTEMPTS_def)
qed

text \<open>An event is enqueued and the process crashes.\<close>

theorem accepted_event_accounted_witness:
  "\<exists>s is. queue_reach s \<and> ''notion:e1'' \<in> sy_accepted s \<and> pending (sy_file s) 0 = Inr is
    \<and> (''notion:e1'' \<in> keyOf ` set is \<or> ''notion:e1'' \<in> sy_delivered s \<or> sy_failures s ''notion:e1'' \<ge> 5)"
proof -
  have cal: "in_calendar 0" by code_simp
  obtain f' where e: "enqueue Written NoFile (demo_input ''e1'') 0 0 = (f', Inr True)"
    by (simp add: enqueue_def readQueue_def demo_input_def valid_hint_def duplicate_event_def emptyQueue_def
        writeQueue_def Let_def)
  let ?s = "queue_init\<lparr>sy_file := f', sy_accepted := insert ''notion:e1'' {}\<rparr>"
  have "queue_step queue_init ?s"
    using step_enqueue [OF cal, of Written queue_init "demo_input ''e1''" 0 f' "Inr True"] e
    by (simp add: queue_init_def demo_input_def itemKey_def provider_name_def)
  with reach_init have "queue_reach ?s" by (rule reach_step)
  moreover from this have "queue_reach (?s\<lparr>sy_drain := None\<rparr>)" by (rule reach_step) (rule step_crash)
  moreover have "''notion:e1'' \<in> sy_accepted (?s\<lparr>sy_drain := None\<rparr>)" by simp
  ultimately show ?thesis using accepted_event_accounted [of "?s\<lparr>sy_drain := None\<rparr>" "''notion:e1''" 0] by blast
qed

end
