(* ===== verification/ServeLimits.thy ===== *)
theory ServeLimits
  imports Daftari_Base
begin

text \<open>
  The limits of \<^verbatim>\<open>daftari serve\<close>: \<^verbatim>\<open>src/src/serve/limits.ts\<close>. Token buckets refill with the clock;
  a registry bounds the buckets by age and number, a penalty box counts failed authentications per
  address, and a gate bounds the requests in flight. Times are milliseconds as \<open>int\<close>; tokens, capacities and
  rates are rationals, so the rounding of doubles is left out. A wait that never ends (a rate of 0) is \<open>None\<close>.
\<close>

section \<open>Buckets\<close>

record bucket =
  bk_tokens :: rat
  bk_capacity :: rat
  bk_rate :: rat
  bk_last :: int

record take_result =
  tk_allowed :: bool
  tk_retry_after :: "int option"

definition makeBucket :: "rat \<Rightarrow> rat \<Rightarrow> int \<Rightarrow> bucket" where
  "makeBucket capacity rate now = \<lparr>bk_tokens = capacity, bk_capacity = capacity, bk_rate = rate, bk_last = now\<rparr>"

definition refill :: "bucket \<Rightarrow> int \<Rightarrow> bucket" where
  "refill b now =
     (let elapsed = max 0 (now - bk_last b)
      in b\<lparr>bk_tokens := min (bk_capacity b) (bk_tokens b + of_int elapsed / 60000 * bk_rate b), bk_last := now\<rparr>)"

definition secondsUntilOneToken :: "bucket \<Rightarrow> int option" where
  "secondsUntilOneToken b =
     (let needed = max 0 (1 - bk_tokens b)
      in if bk_rate b = 0 then (if needed = 0 then Some 1 else None)
         else Some (max 1 \<lceil>needed * 60000 / bk_rate b / 1000\<rceil>))"

definition tryTake :: "bucket \<Rightarrow> int \<Rightarrow> bucket \<times> take_result" where
  "tryTake b now =
     (let b' = refill b now
      in if bk_tokens b' \<ge> 1 then (b'\<lparr>bk_tokens := bk_tokens b' - 1\<rparr>, \<lparr>tk_allowed = True, tk_retry_after = Some 0\<rparr>)
         else (b', \<lparr>tk_allowed = False, tk_retry_after = secondsUntilOneToken b'\<rparr>))"

section \<open>The registry of buckets\<close>

record tracked =
  tr_bucket :: bucket
  tr_lastSeen :: int

record registry =
  rg_buckets :: "(string, tracked) jmap"
  rg_capacity :: rat
  rg_rate :: rat
  rg_maxEntries :: int
  rg_idleTtl :: int

definition makeBucketRegistry :: "rat \<Rightarrow> rat \<Rightarrow> int option \<Rightarrow> int option \<Rightarrow> registry" where
  "makeBucketRegistry capacity rate maxEntries idleTtl =
     \<lparr>rg_buckets = [], rg_capacity = capacity, rg_rate = rate,
      rg_maxEntries = (case maxEntries of None \<Rightarrow> 10000 | Some n \<Rightarrow> n),
      rg_idleTtl = (case idleTtl of None \<Rightarrow> 10 * 60000 | Some n \<Rightarrow> n)\<rparr>"

text \<open>The loop that deletes the oldest entry while the map is full.\<close>

fun evict :: "int \<Rightarrow> ('k, 'v) jmap \<Rightarrow> ('k, 'v) jmap" where
  "evict maxEntries [] = []"
| "evict maxEntries (e # m) = (if int (length (e # m)) \<ge> maxEntries then evict maxEntries m else e # m)"

definition takeFromRegistry :: "registry \<Rightarrow> string \<Rightarrow> int \<Rightarrow> registry \<times> take_result" where
  "takeFromRegistry r key now =
     (let (m, t) =
        (case map_of (rg_buckets r) key of
           None \<Rightarrow>
             (evict (rg_maxEntries r) (filter (\<lambda>(k, e). \<not> now - tr_lastSeen e \<ge> rg_idleTtl r) (rg_buckets r)),
              \<lparr>tr_bucket = makeBucket (rg_capacity r) (rg_rate r) now, tr_lastSeen = now\<rparr>)
         | Some t \<Rightarrow> (AList.delete key (rg_buckets r), t\<lparr>tr_lastSeen := now\<rparr>));
          (b, res) = tryTake (tr_bucket t) now
      in (r\<lparr>rg_buckets := AList.update key (t\<lparr>tr_bucket := b\<rparr>) m\<rparr>, res))"

section \<open>The penalty box\<close>

record penalty_box =
  pb_buckets :: "(string, bucket) jmap"
  pb_failureBurst :: rat
  pb_failuresPerMinute :: rat
  pb_maxEntries :: int

definition makePenaltyBox :: "rat \<Rightarrow> rat \<Rightarrow> int option \<Rightarrow> penalty_box" where
  "makePenaltyBox burst rate maxEntries =
     \<lparr>pb_buckets = [], pb_failureBurst = burst, pb_failuresPerMinute = rate,
      pb_maxEntries = (case maxEntries of None \<Rightarrow> 10000 | Some n \<Rightarrow> n)\<rparr>"

definition penaltyAllows :: "penalty_box \<Rightarrow> string \<Rightarrow> int \<Rightarrow> penalty_box \<times> take_result" where
  "penaltyAllows box key now =
     (case map_of (pb_buckets box) key of
        None \<Rightarrow> (box, \<lparr>tk_allowed = True, tk_retry_after = Some 0\<rparr>)
      | Some b \<Rightarrow>
          (let b' = refill b now
           in (box\<lparr>pb_buckets := AList.update key b' (pb_buckets box)\<rparr>,
               if bk_tokens b' \<ge> 1 then \<lparr>tk_allowed = True, tk_retry_after = Some 0\<rparr>
               else \<lparr>tk_allowed = False, tk_retry_after = secondsUntilOneToken b'\<rparr>)))"

text \<open>The sweep refills every bucket in place and deletes those that are full.\<close>

definition sweep_full :: "(string, bucket) jmap \<Rightarrow> int \<Rightarrow> (string, bucket) jmap" where
  "sweep_full m now =
     filter (\<lambda>(k, b). \<not> bk_tokens b \<ge> bk_capacity b) (map (\<lambda>(k, b). (k, refill b now)) m)"

definition chargePenalty :: "penalty_box \<Rightarrow> string \<Rightarrow> int \<Rightarrow> penalty_box" where
  "chargePenalty box key now =
     (let (m, b) =
        (case map_of (pb_buckets box) key of
           Some b \<Rightarrow> (pb_buckets box, b)
         | None \<Rightarrow>
             (if int (length (pb_buckets box)) \<ge> pb_maxEntries box
              then evict (pb_maxEntries box) (sweep_full (pb_buckets box) now) else pb_buckets box,
              makeBucket (pb_failureBurst box) (pb_failuresPerMinute box) now));
          b' = refill b now
      in box\<lparr>pb_buckets := AList.update key (b'\<lparr>bk_tokens := max 0 (bk_tokens b' - 1)\<rparr>) m\<rparr>)"

section \<open>Requests in flight\<close>

record slot_gate =
  sg_inFlight :: int
  sg_max :: int

definition makeSlotGate :: "int \<Rightarrow> slot_gate" where
  "makeSlotGate n = \<lparr>sg_inFlight = 0, sg_max = n\<rparr>"

definition tryAcquireSlot :: "slot_gate \<Rightarrow> slot_gate \<times> bool" where
  "tryAcquireSlot g = (if sg_inFlight g \<ge> sg_max g then (g, False) else (g\<lparr>sg_inFlight := sg_inFlight g + 1\<rparr>, True))"

definition releaseSlot :: "slot_gate \<Rightarrow> slot_gate" where
  "releaseSlot g = g\<lparr>sg_inFlight := max 0 (sg_inFlight g - 1)\<rparr>"

section \<open>The rate is bounded\<close>

text \<open>The takes at the given times, one after another: the bucket and the number allowed.\<close>

fun takes :: "bucket \<Rightarrow> int list \<Rightarrow> bucket \<times> nat" where
  "takes b [] = (b, 0)"
| "takes b (t # ts) =
     (case tryTake b t of
        (b', r) \<Rightarrow> (case takes b' ts of (b'', n) \<Rightarrow> (b'', (if tk_allowed r then 1 else 0) + n)))"

definition credit :: "bucket \<Rightarrow> int \<Rightarrow> rat" where
  "credit b t = bk_tokens b + of_int (t - bk_last b) / 60000 * bk_rate b"

lemma refill_fields [simp]:
  "bk_capacity (refill b t) = bk_capacity b" "bk_rate (refill b t) = bk_rate b" "bk_last (refill b t) = t"
  by (simp_all add: refill_def Let_def)

lemma refill_tokens:
  "t \<ge> bk_last b \<Longrightarrow> bk_tokens (refill b t) = min (bk_capacity b) (credit b t)"
  by (simp add: refill_def credit_def Let_def max_def)

lemma tryTake_fields:
  "tryTake b t = (b', r) \<Longrightarrow> bk_capacity b' = bk_capacity b \<and> bk_rate b' = bk_rate b \<and> bk_last b' = t
    \<and> tk_allowed r = (bk_tokens (refill b t) \<ge> 1)
    \<and> bk_tokens b' = bk_tokens (refill b t) - (if tk_allowed r then 1 else 0)"
  by (auto simp: tryTake_def Let_def split: if_splits)

lemma credit_shift:
  "credit b t = credit b s + of_int (t - s) / 60000 * bk_rate b"
  by (simp add: credit_def field_simps)

lemma takes_bound:
  assumes "sorted (bk_last b # ts)" and "0 \<le> bk_rate b" and "0 \<le> bk_capacity b" and "0 \<le> bk_tokens b"
    and "takes b ts = (b', n)"
  shows "of_nat n \<le> credit b (last (bk_last b # ts))"
  using assms
proof (induction ts arbitrary: b b' n)
  case Nil
  then show ?case by (simp add: credit_def)
next
  case (Cons t ts)
  obtain b1 r where take: "tryTake b t = (b1, r)" by fastforce
  obtain b2 m where rest: "takes b1 ts = (b2, m)" by fastforce
  let ?d = "(if tk_allowed r then 1 else 0) :: rat"
  note f = tryTake_fields [OF take]
  have t: "t \<ge> bk_last b" using Cons.prems(1) by simp
  have tok: "bk_tokens (refill b t) = min (bk_capacity b) (credit b t)" by (rule refill_tokens [OF t])
  have "0 \<le> credit b t" using t Cons.prems(2,4) by (simp add: credit_def)
  then have "0 \<le> bk_tokens b1" using f tok Cons.prems(3) by auto
  then have "of_nat m \<le> credit b1 (last (t # ts))"
    using Cons.IH [of b1 b2 m] Cons.prems f rest by simp
  also have "\<dots> = bk_tokens b1 + (credit b (last (t # ts)) - credit b t)"
    using f credit_shift [of b "last (t # ts)" t] by (simp add: credit_def [of b1])
  also have "\<dots> \<le> credit b (last (t # ts)) - ?d" using f tok by auto
  finally show ?case using Cons.prems(5) take rest by auto
qed

text \<open>
  C24: a bucket bounds the rate. Of the takes at any times in order, at most the capacity plus what
  flows in between the bucket's making and the last take are allowed.
\<close>

theorem rate_bounded:
  assumes "sorted (t0 # ts)" and "0 \<le> rate" and "0 \<le> capacity"
  shows "of_nat (snd (takes (makeBucket capacity rate t0) ts)) \<le> capacity + of_int (last (t0 # ts) - t0) / 60000 * rate"
proof -
  obtain b n where run: "takes (makeBucket capacity rate t0) ts = (b, n)" by fastforce
  have "of_nat n \<le> credit (makeBucket capacity rate t0) (last (t0 # ts))"
    using takes_bound [OF _ _ _ _ run] assms by (simp add: makeBucket_def)
  then show ?thesis using run by (simp add: credit_def makeBucket_def)
qed

theorem rate_bounded_witness:
  "of_nat (snd (takes (makeBucket 2 60 0) [0, 0, 10, 1000])) \<le> (3 :: rat)
    \<and> snd (takes (makeBucket 2 60 0) [0, 0, 10, 1000]) = 3"
  using rate_bounded [of 0 "[0, 0, 10, 1000]" 60 2]
  by (simp add: takes.simps tryTake_def refill_def makeBucket_def Let_def)

text \<open>
  The advice of a refusal is honest. A take that comes the advised number of seconds after a
  refusal, with no other take between, is allowed.
\<close>

theorem retry_after_honest:
  assumes "tryTake b t = (b', r)" and "\<not> tk_allowed r" and "1 \<le> bk_capacity b" and "0 < bk_rate b"
  shows "\<exists>s. tk_retry_after r = Some s \<and> 1 \<le> s \<and> (\<forall>d \<ge> 1000 * s. tk_allowed (snd (tryTake b' (t + d))))"
proof -
  note f = tryTake_fields [OF assms(1)]
  let ?T = "bk_tokens b'" and ?s = "max 1 \<lceil>(1 - bk_tokens b') * 60000 / bk_rate b / 1000\<rceil>"
  have low: "?T < 1" and b': "b' = refill b t" "r = \<lparr>tk_allowed = False, tk_retry_after = secondsUntilOneToken b'\<rparr>"
    using assms(1,2) by (auto simp: tryTake_def Let_def split: if_splits)
  have rate: "bk_rate b' = bk_rate b" "(bk_rate b = 0) = False" and needed: "max 0 (1 - ?T) = 1 - ?T"
    using f low assms(4) by simp_all
  have "secondsUntilOneToken b' = Some ?s"
    by (simp only: secondsUntilOneToken_def Let_def needed rate if_False)
  then have s: "tk_retry_after r = Some ?s" using b'(2) by (simp only: take_result.simps)
  have "tk_allowed (snd (tryTake b' (t + d)))" if d: "d \<ge> 1000 * ?s" for d
  proof -
    have scale: "x / 1000 \<le> y \<Longrightarrow> x \<le> 1000 * y" for x y :: rat by simp
    have "(1 - ?T) * 60000 / bk_rate b / 1000 \<le> of_int \<lceil>(1 - ?T) * 60000 / bk_rate b / 1000\<rceil>" by (rule le_of_int_ceiling)
    also have "\<dots> \<le> of_int ?s" by (simp only: of_int_le_iff max.cobounded2)
    finally have "(1 - ?T) * 60000 / bk_rate b / 1000 \<le> of_int ?s" .
    then have "(1 - ?T) * 60000 / bk_rate b \<le> 1000 * of_int ?s" by (rule scale)
    also have "\<dots> = of_int (1000 * ?s)" by (simp only: of_int_mult of_int_numeral)
    also have "\<dots> \<le> of_int d" using d by (simp only: of_int_le_iff)
    finally have "(1 - ?T) * 60000 \<le> of_int d * bk_rate b" by (simp only: pos_divide_le_eq [OF assms(4)])
    then have "1 - ?T \<le> of_int d / 60000 * bk_rate b" by simp
    moreover have "0 \<le> d" using d by linarith
    ultimately have "1 \<le> bk_tokens (refill b' (t + d))"
      using refill_tokens [of b' "t + d"] f assms(3) by (simp add: credit_def)
    then show ?thesis by (simp add: tryTake_def Let_def)
  qed
  then show ?thesis using s by (intro exI [of _ ?s]) auto
qed

theorem retry_after_honest_witness:
  "\<exists>s. tk_retry_after (snd (tryTake (makeBucket 1 6 0 \<lparr>bk_tokens := 0\<rparr>) 10)) = Some s
    \<and> tk_allowed (snd (tryTake (fst (tryTake (makeBucket 1 6 0 \<lparr>bk_tokens := 0\<rparr>) 10)) (10 + 1000 * s)))"
proof -
  let ?b = "makeBucket 1 6 0 \<lparr>bk_tokens := 0\<rparr>"
  obtain b' r where take: "tryTake ?b 10 = (b', r)" by fastforce
  then have "\<not> tk_allowed r" using tryTake_fields [OF take] by (simp add: refill_def makeBucket_def Let_def)
  moreover have "1 \<le> bk_capacity ?b" "0 < bk_rate ?b" by (simp_all add: makeBucket_def)
  ultimately obtain s where "tk_retry_after r = Some s" "\<forall>d \<ge> 1000 * s. tk_allowed (snd (tryTake b' (10 + d)))"
    using retry_after_honest [OF take] by blast
  then show ?thesis unfolding take fst_conv snd_conv by blast
qed

section \<open>The maps are bounded\<close>

lemma length_evict: "1 \<le> n \<Longrightarrow> int (length (evict n m)) < n"
  by (induction m) auto

lemma evict_suffix: "\<exists>p. m = p @ evict n m"
proof (induction m)
  case (Cons e m)
  then obtain p where "m = p @ evict n m" ..
  then have "e # m = (e # p) @ evict n m" by simp
  then show ?case by (cases "int (length (e # m)) \<ge> n") (auto intro: exI [of _ "e # p"])
qed simp

lemma distinct_evict: "distinct (jkeys m) \<Longrightarrow> distinct (jkeys (evict n m))"
  using evict_suffix [of m n] by (metis distinct_append map_append)

lemma length_update: "length (AList.update k v m) = (if k \<in> set (jkeys m) then length m else length m + 1)"
  using arg_cong [OF jkeys_update [of k v m], of length] by (auto split: if_splits)

lemma length_update_le: "length (AList.update k v m) \<le> length m + 1"
  using length_update [of k v m] by (cases "k \<in> set (jkeys m)") (simp_all only: if_True if_False)

lemma length_delete: "k \<in> set (jkeys m) \<Longrightarrow> length (AList.delete k m) < length m"
proof (induction m)
  case (Cons e m)
  have "length (AList.delete k m) \<le> length m" by (rule length_delete_le)
  then show ?case using Cons by (cases e) auto
qed simp

lemma registry_step_bounded:
  assumes "1 \<le> rg_maxEntries r" and "int (length (rg_buckets r)) \<le> rg_maxEntries r"
  shows "int (length (rg_buckets (fst (takeFromRegistry r key now)))) \<le> rg_maxEntries r
    \<and> rg_maxEntries (fst (takeFromRegistry r key now)) = rg_maxEntries r"
proof (cases "map_of (rg_buckets r) key")
  case None
  let ?m = "evict (rg_maxEntries r) (filter (\<lambda>(k, e). \<not> now - tr_lastSeen e \<ge> rg_idleTtl r) (rg_buckets r))"
  have "int (length ?m) < rg_maxEntries r" by (rule length_evict [OF assms(1)])
  then show ?thesis using None by (simp add: takeFromRegistry_def Let_def length_update split: prod.split)
next
  case (Some t)
  then have "key \<in> set (jkeys (rg_buckets r))" by (metis map_of_eq_None_iff option.distinct(1) set_map)
  from length_delete [OF this] show ?thesis
    using Some assms(2) by (simp add: takeFromRegistry_def Let_def length_update split: prod.split)
qed

lemma box_step_bounded:
  assumes "1 \<le> pb_maxEntries box" and "int (length (pb_buckets box)) \<le> pb_maxEntries box"
  shows "int (length (pb_buckets (chargePenalty box key now))) \<le> pb_maxEntries box"
proof (cases "map_of (pb_buckets box) key")
  case None
  let ?m = "if int (length (pb_buckets box)) \<ge> pb_maxEntries box
    then evict (pb_maxEntries box) (sweep_full (pb_buckets box) now) else pb_buckets box"
  have "int (length ?m) < pb_maxEntries box" by (simp add: length_evict [OF assms(1)])
  moreover have "\<exists>v. pb_buckets (chargePenalty box key now) = AList.update key v ?m"
    using None by (auto simp: chargePenalty_def Let_def)
  ultimately obtain v where "pb_buckets (chargePenalty box key now) = AList.update key v ?m" "int (length ?m) < pb_maxEntries box"
    by blast
  then show ?thesis using length_update_le [of key v ?m] by (simp only:)
next
  case (Some b)
  then have "key \<in> set (jkeys (pb_buckets box))" by (metis map_of_eq_None_iff option.distinct(1) set_map)
  then show ?thesis using Some assms(2) by (simp add: chargePenalty_def Let_def length_update)
qed

lemma gate_bounded:
  "0 \<le> sg_inFlight g \<and> sg_inFlight g \<le> sg_max g \<Longrightarrow>
   sg_inFlight (fst (tryAcquireSlot g)) \<le> sg_max g \<and> 0 \<le> sg_inFlight (releaseSlot g) \<and> sg_inFlight (releaseSlot g) \<le> sg_max g"
  by (auto simp: tryAcquireSlot_def releaseSlot_def)

end
