(* ===== verification/ProcessLock.thy ===== *)
theory ProcessLock
  imports Daftari_Base
begin

text \<open>
  The lock of a vault by a process: \<^verbatim>\<open>src/src/lifecycle/lock.ts\<close>. The lock file is absent, text that
  is no lock, or a lock; each file operation of \<^verbatim>\<open>acquireLock\<close> is a step of its own, so that two
  processes interleave. Which processes are alive and serve the vault, the answer of
  \<^verbatim>\<open>ps\<close>, is a part of the state; the test of the command line itself is \<open>commandLineTargetsVault\<close>.
\<close>

section \<open>The command line of a holder\<close>

definition boundary :: "string \<Rightarrow> bool" where
  "boundary tail \<longleftrightarrow> tail = [] \<or> strip_one js_spaces tail \<noteq> None
     \<or> take 1 tail = ''/'' \<and> (drop 1 tail = [] \<or> strip_one js_spaces (drop 1 tail) \<noteq> None)"

text \<open>\<open>indexOf pat s from\<close> is the first occurrence at or after \<open>from\<close>.\<close>

fun index_from :: "string \<Rightarrow> string \<Rightarrow> nat option" where
  "index_from pat [] = (if pat = [] then Some 0 else None)"
| "index_from pat (c # s) =
     (if take (length pat) (c # s) = pat then Some 0 else map_option Suc (index_from pat s))"

definition js_indexOf :: "string \<Rightarrow> string \<Rightarrow> nat \<Rightarrow> nat option" where
  "js_indexOf pat s i = (if i > length s then None else map_option (\<lambda>j. i + j) (index_from pat (drop i s)))"

lemma index_from_Some:
  "index_from pat s = Some i \<Longrightarrow>
   i \<le> length s \<and> take (length pat) (drop i s) = pat \<and> (\<forall>j < i. take (length pat) (drop j s) \<noteq> pat)"
proof (induction pat s arbitrary: i rule: index_from.induct)
  case (2 pat c s)
  show ?case
  proof (cases "take (length pat) (c # s) = pat")
    case True
    then show ?thesis using 2(2) by simp
  next
    case False
    then obtain i' where i': "index_from pat s = Some i'" "i = Suc i'" using 2(2) by auto
    have "take (length pat) (drop j (c # s)) \<noteq> pat" if "j < i" for j
      using 2(1) [OF False i'(1)] False that i'(2) by (cases j) auto
    then show ?thesis using 2(1) [OF False i'(1)] i'(2) by auto
  qed
qed (auto split: if_splits)

lemma index_from_None: "index_from pat s = None \<Longrightarrow> i \<le> length s \<Longrightarrow> take (length pat) (drop i s) \<noteq> pat"
proof (induction pat s arbitrary: i rule: index_from.induct)
  case (2 pat c s)
  then show ?case by (cases i) (auto split: if_splits)
qed (auto split: if_splits)

function targets_from :: "string \<Rightarrow> string \<Rightarrow> nat \<Rightarrow> bool" where
  "targets_from commandLine vaultRoot i =
     (case js_indexOf vaultRoot commandLine i of
        None \<Rightarrow> False
      | Some k \<Rightarrow> if boundary (drop (k + length vaultRoot) commandLine) then True
                 else targets_from commandLine vaultRoot (k + 1))"
  by pat_completeness auto
termination
  by (relation "measure (\<lambda>(c, v, i). Suc (length c) - i)")
    (auto simp: js_indexOf_def split: if_splits dest: index_from_Some)

declare targets_from.simps [simp del]

definition commandLineTargetsVault :: "string \<Rightarrow> string \<Rightarrow> bool" where
  "commandLineTargetsVault commandLine vaultRoot =
     (if vaultRoot = [] then False else targets_from commandLine vaultRoot 0)"

definition occurs_at :: "string \<Rightarrow> string \<Rightarrow> nat \<Rightarrow> bool" where
  "occurs_at v c k \<longleftrightarrow> k \<le> length c \<and> take (length v) (drop k c) = v"

lemma indexOf_first:
  "js_indexOf v c i = Some k \<Longrightarrow> i \<le> k \<and> occurs_at v c k \<and> (\<forall>j. i \<le> j \<and> j < k \<longrightarrow> \<not> occurs_at v c j)"
proof -
  assume "js_indexOf v c i = Some k"
  then obtain m where m: "i \<le> length c" "index_from v (drop i c) = Some m" "k = i + m"
    by (auto simp: js_indexOf_def split: if_splits)
  note f = index_from_Some [OF m(2)]
  have "take (length v) (drop j c) \<noteq> v" if "i \<le> j" "j < k" for j
    using f m(3) that by (auto simp: dest!: spec [of _ "j - i"])
  then show ?thesis using f m by (auto simp: occurs_at_def add.commute)
qed

lemma indexOf_none: "js_indexOf v c i = None \<Longrightarrow> i \<le> j \<Longrightarrow> \<not> occurs_at v c j"
proof
  assume none: "js_indexOf v c i = None" and j: "i \<le> j" "occurs_at v c j"
  then have "index_from v (drop i c) = None" by (auto simp: js_indexOf_def occurs_at_def split: if_splits)
  from index_from_None [OF this, of "j - i"] j show False by (auto simp: occurs_at_def diff_le_mono)
qed

lemma targets_from_iff:
  "targets_from c v i \<longleftrightarrow> (\<exists>k \<ge> i. occurs_at v c k \<and> boundary (drop (k + length v) c))"
proof (induction c v i rule: targets_from.induct)
  case (1 c v i)
  show ?case
  proof (cases "js_indexOf v c i")
    case None
    then show ?thesis using indexOf_none [OF None] by (subst targets_from.simps) auto
  next
    case (Some k)
    note f = indexOf_first [OF Some]
    show ?thesis
    proof (cases "boundary (drop (k + length v) c)")
      case True
      then show ?thesis using Some f by (subst targets_from.simps) auto
    next
      case False
      have "(\<exists>k' \<ge> k + 1. occurs_at v c k' \<and> boundary (drop (k' + length v) c))
          \<longleftrightarrow> (\<exists>k' \<ge> i. occurs_at v c k' \<and> boundary (drop (k' + length v) c))"
      proof -
        have "k + 1 \<le> k'" if "i \<le> k'" "occurs_at v c k'" "boundary (drop (k' + length v) c)" for k'
        proof -
          have "\<not> k' < k" using f that by blast
          moreover have "k' \<noteq> k" using False that by blast
          ultimately show ?thesis by simp
        qed
        moreover have "i \<le> k'" if "k + 1 \<le> k'" for k' using f that by simp
        ultimately show ?thesis by blast
      qed
      then show ?thesis using 1 [OF Some False] Some False by (subst targets_from.simps) simp
    qed
  qed
qed

text \<open>
  The command line names the vault exactly when the root occurs in it before the end, before white space,
  or before one slash and then one of these.
\<close>

lemma command_line_exact:
  assumes "vaultRoot \<noteq> []"
  shows "commandLineTargetsVault commandLine vaultRoot \<longleftrightarrow>
    (\<exists>pre tail. commandLine = pre @ vaultRoot @ tail \<and> boundary tail)"
proof -
  have "(\<exists>k. occurs_at vaultRoot commandLine k \<and> boundary (drop (k + length vaultRoot) commandLine))
      \<longleftrightarrow> (\<exists>pre tail. commandLine = pre @ vaultRoot @ tail \<and> boundary tail)"
  proof
    assume "\<exists>k. occurs_at vaultRoot commandLine k \<and> boundary (drop (k + length vaultRoot) commandLine)"
    then obtain k where k: "take (length vaultRoot) (drop k commandLine) = vaultRoot"
      "boundary (drop (k + length vaultRoot) commandLine)" by (auto simp: occurs_at_def)
    have "commandLine = take k commandLine @ vaultRoot @ drop (k + length vaultRoot) commandLine"
      using k(1) by (metis add.commute append_take_drop_id drop_drop)
    then show "\<exists>pre tail. commandLine = pre @ vaultRoot @ tail \<and> boundary tail" using k(2) by blast
  next
    assume "\<exists>pre tail. commandLine = pre @ vaultRoot @ tail \<and> boundary tail"
    then obtain pre tail where "commandLine = pre @ vaultRoot @ tail" "boundary tail" by blast
    then show "\<exists>k. occurs_at vaultRoot commandLine k \<and> boundary (drop (k + length vaultRoot) commandLine)"
      by (intro exI [of _ "length pre"]) (simp add: occurs_at_def)
  qed
  then show ?thesis using assms by (simp add: commandLineTargetsVault_def targets_from_iff)
qed

section \<open>Locks\<close>

datatype lock_mode = Stdio | Serve

record lock_data =
  lk_pid :: nat
  lk_vaultRoot :: string
  lk_startedAt :: string
  lk_version :: string
  lk_mode :: "lock_mode option"
  lk_bind :: "string option"

datatype lock_file = NoLock | NotALock | LockHeld lock_data

text \<open>Absent files and text that is no lock both read as \<^verbatim>\<open>null\<close>.\<close>

definition readLockfile :: "lock_file \<Rightarrow> lock_data option" where
  "readLockfile f = (case f of LockHeld d \<Rightarrow> Some d | _ \<Rightarrow> None)"

definition tryCreateExclusive :: "lock_file \<Rightarrow> lock_data \<Rightarrow> lock_file \<times> bool" where
  "tryCreateExclusive f our = (case f of NoLock \<Rightarrow> (LockHeld our, True) | _ \<Rightarrow> (f, False))"

text \<open>\<open>removeLockIfUnchanged\<close> reads and compares, and then, in a step of its own, unlinks.\<close>

definition lock_unchanged :: "lock_file \<Rightarrow> lock_data \<Rightarrow> bool" where
  "lock_unchanged f expected =
     (case readLockfile f of
        None \<Rightarrow> False
      | Some current \<Rightarrow> lk_pid current = lk_pid expected \<and> lk_startedAt current = lk_startedAt expected)"

definition unlink :: "lock_file \<Rightarrow> lock_file" where
  "unlink f = NoLock"

definition releaseProcessLock :: "lock_file \<Rightarrow> nat \<Rightarrow> lock_file" where
  "releaseProcessLock f pid = (case readLockfile f of None \<Rightarrow> f | Some d \<Rightarrow> if lk_pid d \<noteq> pid then f else unlink f)"

definition MAX_ACQUIRE_ATTEMPTS :: nat where "MAX_ACQUIRE_ATTEMPTS = 5"

text \<open>What \<^verbatim>\<open>acquireLock\<close> does about a lock it found, given whether its holder looks alive.\<close>

datatype verdict = RefuseServer | RefuseNoTakeover | SignalHolder | RemoveOwnPid | RemoveStale

definition resolve_existing :: "nat \<Rightarrow> lock_mode \<Rightarrow> bool \<Rightarrow> lock_data \<Rightarrow> bool \<Rightarrow> verdict" where
  "resolve_existing self mode takeover prior alive =
     (if lk_pid prior \<noteq> self \<and> alive
      then (let priorMode = (case lk_mode prior of None \<Rightarrow> Stdio | Some m \<Rightarrow> m)
            in if mode = Stdio \<and> priorMode = Serve then RefuseServer
               else if mode = Serve \<and> \<not> takeover then RefuseNoTakeover
               else SignalHolder)
      else if lk_pid prior = self then RemoveOwnPid
      else RemoveStale)"

text \<open>
  A process in \<^verbatim>\<open>acquireLock\<close>: about to claim, to look, waiting for a signalled holder, to compare
  and to unlink, each with the number of its attempt; or done. Its own data and options are its
  configuration.
\<close>

datatype acquirer =
    Claim nat
  | Look nat
  | WaitExit nat lock_data
  | Compare nat lock_data
  | Unlink nat
  | Acquired
  | Refused verdict
  | GaveUp

record lock_config =
  lc_data :: lock_data
  lc_takeover :: bool

definition config_mode :: "lock_config \<Rightarrow> lock_mode" where
  "config_mode c = (case lk_mode (lc_data c) of None \<Rightarrow> Stdio | Some m \<Rightarrow> m)"

text \<open>
  One step of a process: the file and its position after it, and the holder it signals.
  \<open>alive\<close> answers \<^verbatim>\<open>isDaftariProcess\<close>. Waiting ends with the grace period whether or not the holder
  exited.
\<close>

definition acquire_step ::
    "(nat \<Rightarrow> bool) \<Rightarrow> lock_config \<Rightarrow> lock_file \<Rightarrow> acquirer \<Rightarrow> lock_file \<times> acquirer \<times> lock_data option" where
  "acquire_step alive c f pc =
     (case pc of
        Claim n \<Rightarrow>
          if n \<ge> MAX_ACQUIRE_ATTEMPTS then (f, GaveUp, None)
          else (case tryCreateExclusive f (lc_data c) of
                  (f', created) \<Rightarrow> if created then (f', Acquired, None) else (f', Look n, None))
      | Look n \<Rightarrow>
          (case readLockfile f of
             None \<Rightarrow> (f, Claim (n + 1), None)
           | Some prior \<Rightarrow>
               (case resolve_existing (lk_pid (lc_data c)) (config_mode c) (lc_takeover c) prior (alive (lk_pid prior)) of
                  SignalHolder \<Rightarrow> (f, WaitExit n prior, Some prior)
                | RemoveOwnPid \<Rightarrow> (f, Compare n prior, None)
                | RemoveStale \<Rightarrow> (f, Compare n prior, None)
                | v \<Rightarrow> (f, Refused v, None)))
      | WaitExit n prior \<Rightarrow> (f, Compare n prior, None)
      | Compare n prior \<Rightarrow> (f, if lock_unchanged f prior then Unlink n else Claim (n + 1), None)
      | Unlink n \<Rightarrow> (unlink f, Claim (n + 1), None)
      | Acquired \<Rightarrow> (f, Acquired, None)
      | Refused v \<Rightarrow> (f, Refused v, None)
      | GaveUp \<Rightarrow> (f, GaveUp, None))"

section \<open>Several processes\<close>

text \<open>
  The configurations and positions of the processes by pid, the live processes, and the signals
  sent, sender first. A process may die at any time, its lock staying behind, and a holder may release.
\<close>

record lock_system =
  ls_file :: lock_file
  ls_config :: "nat \<Rightarrow> lock_config"
  ls_pc :: "nat \<Rightarrow> acquirer"
  ls_live :: "nat set"
  ls_signals :: "(nat \<times> lock_data) list"

definition advance :: "lock_system \<Rightarrow> nat \<Rightarrow> lock_system" where
  "advance s p =
     (case acquire_step (\<lambda>q. q \<in> ls_live s) (ls_config s p) (ls_file s) (ls_pc s p) of
        (f, pc, sig) \<Rightarrow> s\<lparr>ls_file := f, ls_pc := (ls_pc s)(p := pc),
          ls_signals := ls_signals s @ (case sig of None \<Rightarrow> [] | Some d \<Rightarrow> [(p, d)])\<rparr>)"

inductive lock_step :: "lock_system \<Rightarrow> lock_system \<Rightarrow> bool" where
  step_advance: "p \<in> ls_live s \<Longrightarrow> lock_step s (advance s p)"
| step_die: "lock_step s (s\<lparr>ls_live := ls_live s - {p}\<rparr>)"
| step_release: "p \<in> ls_live s \<Longrightarrow> ls_pc s p = Acquired \<Longrightarrow>
    lock_step s (s\<lparr>ls_file := releaseProcessLock (ls_file s) p, ls_live := ls_live s - {p}\<rparr>)"

inductive lock_reach :: "lock_system \<Rightarrow> lock_system \<Rightarrow> bool" where
  lock_start: "lock_reach s s"
| lock_next: "lock_reach s s' \<Longrightarrow> lock_step s' s'' \<Longrightarrow> lock_reach s s''"

text \<open>A start: each process is about to claim under its own pid, and nothing was signalled.\<close>

definition lock_init :: "lock_system \<Rightarrow> bool" where
  "lock_init s \<longleftrightarrow> (\<forall>p. ls_pc s p = Claim 0 \<and> lk_pid (lc_data (ls_config s p)) = p) \<and> ls_signals s = []"

definition permitted :: "lock_config \<Rightarrow> lock_data \<Rightarrow> bool" where
  "permitted c prior \<longleftrightarrow> lk_pid prior \<noteq> lk_pid (lc_data c)
     \<and> (config_mode c = Stdio \<and> lk_mode prior \<noteq> Some Serve \<or> config_mode c = Serve \<and> lc_takeover c)"

lemma advance_config: "ls_config (advance s p) = ls_config s" "ls_live (advance s p) = ls_live s"
  by (auto simp: advance_def split: prod.splits)

lemma step_signal:
  "acquire_step alive c f pc = (f', pc', Some d) \<Longrightarrow> permitted c d \<and> alive (lk_pid d)"
  by (cases "config_mode c") (auto simp: acquire_step_def tryCreateExclusive_def resolve_existing_def permitted_def Let_def readLockfile_def
      split: acquirer.splits lock_file.splits option.splits if_splits verdict.splits lock_mode.splits)

lemma signals_permitted:
  "lock_reach s s' \<Longrightarrow> lock_init s \<Longrightarrow>
   ls_config s' = ls_config s \<and> (\<forall>(p, d) \<in> set (ls_signals s'). permitted (ls_config s p) d)"
proof (induction rule: lock_reach.induct)
  case (lock_start s)
  then show ?case by (simp add: lock_init_def)
next
  case (lock_next s s' s'')
  from lock_next(2) show ?case
  proof (cases rule: lock_step.cases)
    case (step_advance p)
    obtain f pc sig where st: "acquire_step (\<lambda>q. q \<in> ls_live s') (ls_config s' p) (ls_file s') (ls_pc s' p) = (f, pc, sig)"
      by (metis prod_cases3)
    then show ?thesis
      using step_advance lock_next step_signal [of _ "ls_config s' p" _ _ f pc]
      by (auto simp: advance_def split: option.splits)
  qed (use lock_next in auto)
qed

text \<open>
  C25: who may signal whom. In every run, a process signals only a holder other than itself, and only
  when it starts for a desktop session and the lock is not a server's, or when it starts as a server
  that was told to take over: no session ever signals a server.
\<close>

theorem signal_precedence:
  assumes "lock_init s" and "lock_reach s s'" and "(p, d) \<in> set (ls_signals s')"
  shows "lk_pid d \<noteq> p
    \<and> (config_mode (ls_config s p) = Stdio \<and> lk_mode d \<noteq> Some Serve
       \<or> config_mode (ls_config s p) = Serve \<and> lc_takeover (ls_config s p))"
proof -
  have "permitted (ls_config s p) d" using signals_permitted [OF assms(2,1)] assms(3) by fastforce
  then show ?thesis using assms(1) by (auto simp: permitted_def lock_init_def)
qed

text \<open>Two desktop sessions over a vault, with what is in the lock file and which processes live.\<close>

definition session_lock :: "nat \<Rightarrow> lock_data" where
  "session_lock p = \<lparr>lk_pid = p, lk_vaultRoot = ''/v'', lk_startedAt = ''t'' @ dec p, lk_version = ''1'',
     lk_mode = Some Stdio, lk_bind = None\<rparr>"

definition two_sessions :: "lock_file \<Rightarrow> nat set \<Rightarrow> lock_system" where
  "two_sessions f live = \<lparr>ls_file = f, ls_config = (\<lambda>p. \<lparr>lc_data = session_lock p, lc_takeover = False\<rparr>),
     ls_pc = (\<lambda>_. Claim 0), ls_live = live, ls_signals = []\<rparr>"

lemma two_sessions_init: "lock_init (two_sessions f live)"
  by (simp add: lock_init_def two_sessions_def session_lock_def)

text \<open>A schedule: the processes that advance, in order.\<close>

lemma reach_schedule:
  assumes "list_all (\<lambda>p. p \<in> ls_live s) ps"
  shows "lock_reach s (foldl advance s ps)"
  using assms
proof (induction ps rule: rev_induct)
  case Nil
  then show ?case by (simp add: lock_start)
next
  case (snoc p ps)
  have "ls_live (foldl advance s ps) = ls_live s" for ps
    by (induction ps rule: rev_induct) (auto simp: advance_config)
  with snoc show ?case by (auto intro: lock_next step_advance)
qed

lemmas advance_eval = advance_def acquire_step_def tryCreateExclusive_def readLockfile_def resolve_existing_def
  lock_unchanged_def unlink_def MAX_ACQUIRE_ATTEMPTS_def two_sessions_def session_lock_def config_mode_def

theorem signal_precedence_witness:
  "\<exists>s'. lock_reach (two_sessions (LockHeld (session_lock 2)) {1, 2}) s' \<and> ls_signals s' = [(1, session_lock 2)]
    \<and> lk_pid (session_lock 2) \<noteq> 1 \<and> lk_mode (session_lock 2) \<noteq> Some Serve"
proof -
  let ?s = "two_sessions (LockHeld (session_lock 2)) {1, 2}"
  let ?s' = "foldl advance ?s [1, 1]"
  have "lock_reach ?s ?s'" by (rule reach_schedule) (simp add: two_sessions_def)
  moreover have sig: "ls_signals ?s' = [(1, session_lock 2)]" by (simp add: advance_eval)
  moreover from calculation have "(1, session_lock 2) \<in> set (ls_signals ?s')" by simp
  ultimately show ?thesis
    using signal_precedence [OF two_sessions_init, of _ _ ?s' 1 "session_lock 2"]
    by (auto simp: two_sessions_def config_mode_def session_lock_def)
qed


text \<open>
  A lock file that holds no lock, as a crash between creating and writing it leaves it, is never
  removed: the process that finds it gives up after its attempts.
\<close>

lemma unreadable_lock_never_acquired:
  "list_all (\<lambda>q. q = p) ps \<Longrightarrow> length ps \<ge> 11 \<Longrightarrow>
   ls_pc (foldl advance (two_sessions NotALock {p}) ps) p = GaveUp \<and> ls_file (foldl advance (two_sessions NotALock {p}) ps) = NotALock"
proof -
  let ?s = "two_sessions NotALock {p}"
  assume ps: "list_all (\<lambda>q. q = p) ps" "length ps \<ge> 11"
  have "replicate (length ps) p = ps" by (rule replicate_length_same) (use ps(1) in \<open>auto simp: list_all_iff\<close>)
  moreover have "length ps = 11 + (length ps - 11)" using ps(2) by simp
  ultimately have "ps = replicate 11 p @ replicate (length ps - 11) p" using replicate_add by metis
  moreover have "ls_pc (foldl advance ?s (replicate 11 p)) p = GaveUp \<and> ls_file (foldl advance ?s (replicate 11 p)) = NotALock"
    by (simp add: numeral_eq_Suc advance_eval)
  moreover have "ls_pc s p = GaveUp \<and> ls_file s = NotALock \<Longrightarrow>
      ls_pc (foldl advance s (replicate n p)) p = GaveUp \<and> ls_file (foldl advance s (replicate n p)) = NotALock" for s n
    by (induction n arbitrary: s) (auto simp: advance_def acquire_step_def)
  ultimately show ?thesis by (metis foldl_append)
qed

end
