(* ===== verification/JsonLines.thy ===== *)
theory JsonLines
  imports Daftari_Base
begin

text \<open>
  The append-only JSON-lines files of the program (the staged actions, the edges, the logs under
  \<^verbatim>\<open>.daftari/\<close>), as the code reads and appends to them: the text is split at newlines, blank lines are
  skipped, and so is a line that \<^verbatim>\<open>JSON.parse\<close> rejects. A file is the list of its lines, each blank, no
  record, or a record, and a flag telling that the last line has no newline yet (what a write that was cut off
  leaves). \<open>None\<close> is a file that does not exist. How an append ends is an input.
\<close>

datatype 'r jsonl_line = Blank | Junk | Rec 'r

type_synonym 'r jsonl_file = "'r jsonl_line list \<times> bool"

text \<open>How an append ends: \<open>Torn all_out\<close> throws after writing a part of the line, \<open>all_out\<close> if only the newline is missing.\<close>

datatype append_outcome = Written | NotWritten | Torn bool

definition file_lines :: "'r jsonl_file option \<Rightarrow> 'r jsonl_line list" where
  "file_lines f = (case f of None \<Rightarrow> [] | Some (ls, _) \<Rightarrow> ls)"

definition jsonl_records :: "'r jsonl_file option \<Rightarrow> 'r list" where
  "jsonl_records f = List.map_filter (\<lambda>l. case l of Rec r \<Rightarrow> Some r | _ \<Rightarrow> None) (file_lines f)"

text \<open>
  Text that starts on an open line continues it: behind blanks it is a line of its own, behind anything else the
  line is no JSON.
\<close>

definition put_line :: "'r jsonl_line \<Rightarrow> bool \<Rightarrow> 'r jsonl_file option \<Rightarrow> 'r jsonl_file option" where
  "put_line l still_open f =
     (case f of
        None \<Rightarrow> Some ([l], still_open)
      | Some (ls, False) \<Rightarrow> Some (ls @ [l], still_open)
      | Some (ls, True) \<Rightarrow>
          Some (if ls = [] then [l] else butlast ls @ [case last ls of Blank \<Rightarrow> l | _ \<Rightarrow> Junk], still_open))"

definition appendRecord ::
    "append_outcome \<Rightarrow> 'r \<Rightarrow> 'r jsonl_file option \<Rightarrow> 'r jsonl_file option \<times> bool" where
  "appendRecord outcome r f =
     (case outcome of
        Written \<Rightarrow> (put_line (Rec r) False f, True)
      | NotWritten \<Rightarrow> (f, False)
      | Torn all_out \<Rightarrow> (put_line (if all_out then Rec r else Junk) True f, False))"

text \<open>A file whose next append starts a line of its own.\<close>

definition settled :: "'r jsonl_file option \<Rightarrow> bool" where
  "settled f \<longleftrightarrow> (case f of Some (ls, True) \<Rightarrow> ls = [] \<or> last ls = Blank | _ \<Rightarrow> True)"

lemma map_filter_snoc: "List.map_filter f (xs @ [x]) = List.map_filter f xs @ (case f x of None \<Rightarrow> [] | Some y \<Rightarrow> [y])"
  by (simp add: map_filter_def split: option.splits)

lemma butlast_blank: "xs \<noteq> [] \<Longrightarrow> last xs = Blank \<Longrightarrow> xs = butlast xs @ [Blank]"
  by (metis append_butlast_last_id)

lemma records_put:
  assumes "settled f"
  shows "jsonl_records (put_line l b f) = jsonl_records f @ (case l of Rec r \<Rightarrow> [r] | _ \<Rightarrow> [])"
proof (cases "\<exists>xs. f = Some (xs, True) \<and> xs \<noteq> []")
  case True
  then obtain xs where f: "f = Some (xs, True)" "xs \<noteq> []" by blast
  then have l: "last xs = Blank" using assms by (simp add: settled_def)
  then have "jsonl_records (Some (xs, True)) = jsonl_records (Some (butlast xs @ [Blank], True))"
    using butlast_blank [OF f(2)] by simp
  then show ?thesis using f l
    by (simp add: put_line_def jsonl_records_def file_lines_def map_filter_snoc split: jsonl_line.split)
next
  case False
  then show ?thesis
    by (auto simp: put_line_def jsonl_records_def file_lines_def map_filter_snoc map_filter_def
        split: option.splits bool.splits jsonl_line.splits)
qed

lemma append_written:
  assumes "settled f" "appendRecord outcome r f = (f', True)"
  shows "jsonl_records f' = jsonl_records f @ [r]" "settled f'"
proof -
  have f': "f' = put_line (Rec r) False f" using assms(2) by (auto simp: appendRecord_def split: append_outcome.splits)
  show "jsonl_records f' = jsonl_records f @ [r]" using records_put [OF assms(1), of "Rec r" False] f' by simp
  show "settled f'" by (auto simp: f' settled_def put_line_def split: option.splits bool.splits)
qed

lemma append_not_written:
  assumes "settled f" "appendRecord outcome r f = (f', False)"
  shows "jsonl_records f' = jsonl_records f \<or> jsonl_records f' = jsonl_records f @ [r]"
  using assms records_put [OF assms(1), of "Rec r" True] records_put [OF assms(1), of Junk True]
  by (auto simp: appendRecord_def split: append_outcome.splits if_splits)

text \<open>Behind a line that was cut off, nothing that is appended next is read.\<close>

lemma torn_append:
  assumes "appendRecord (Torn False) r f = (f1, False)" "\<not> (\<exists>ls. f = Some (ls, True))"
  shows "jsonl_records f1 = jsonl_records f" "jsonl_records (put_line l b f1) = jsonl_records f1"
proof -
  have s: "settled f" using assms(2) by (auto simp: settled_def split: option.splits bool.splits)
  have f1: "f1 = put_line Junk True f" using assms(1) by (simp add: appendRecord_def)
  show "jsonl_records f1 = jsonl_records f" using records_put [OF s, of Junk True] f1 by simp
  obtain ls where "f1 = Some (ls @ [Junk], True)"
    using assms(2) f1 by (cases f) (auto simp: put_line_def split: bool.splits prod.splits)
  then show "jsonl_records (put_line l b f1) = jsonl_records f1"
    by (simp add: put_line_def jsonl_records_def file_lines_def map_filter_snoc)
qed

end
