(* ===== verification/StagedActions.thy ===== *)
theory StagedActions
  imports TensionLog BoardLedger JsonLines
begin

text \<open>
  The staged-action queue, \<^verbatim>\<open>src/src/curation/staged-actions.ts\<close>: proposals and decisions are lines of an
  append-only file (\<open>JsonLines\<close>), and the current state of an action is the fold of the lines with its id. A record
  has the fields the code reads at their declared types. The text \<^verbatim>\<open>JSON.stringify\<close> makes of a diff is
  kept as the value it was made of. Whether a file operation fails, and how far a failing append got, is an
  input. The lemmas show that staging adds one pending action and names its competitors, that a
  decision's answer is what the file then says, that a sweep leaves nothing expired pending, and what a
  cut-off append does to the next one.
\<close>

section \<open>Data\<close>

definition STAGED_ACTION_TYPES :: "string list" where
  "STAGED_ACTION_TYPES = [''promote'', ''deprecate'', ''supersede'', ''unsupersede'', ''merge'',
     ''confidence-up'', ''write'', ''repin'']"

definition DEFAULT_TTL_DAYS :: rat where "DEFAULT_TTL_DAYS = 14"

definition SWEEP_PRINCIPAL :: string where "SWEEP_PRINCIPAL = ''system:lint-sweep''"

datatype encoded_diff = Encoded json | NotJson string

record raw_record =
  rr_id :: string
  rr_action_type :: "string option"
  rr_target_path :: "string option"
  rr_proposed_by :: "string option"
  rr_proposed_at :: "string option"
  rr_expires_at :: "string option"
  rr_status :: "string option"
  rr_rationale :: "string option"
  rr_proposed_diff :: "encoded_diff option"
  rr_ratified_at :: "string option"
  rr_ratified_by :: "string option"
  rr_ratification_reason :: "string option"
  rr_decided_by_principal :: "string option"
  rr_run_id :: "string option"
  rr_base_version :: "string option"

record staged_row =
  sr_id :: string
  sr_action_type :: string
  sr_target_path :: string
  sr_proposed_by :: string
  sr_proposed_at :: string
  sr_expires_at :: string
  sr_status :: string
  sr_rationale :: string
  sr_proposed_diff :: encoded_diff
  sr_ratified_at :: "string option"
  sr_ratified_by :: "string option"
  sr_ratification_reason :: "string option"
  sr_decided_by_principal :: "string option"
  sr_run_id :: "string option"
  sr_base_version :: "string option"

record staged_action =
  sa_id :: string
  sa_actionType :: string
  sa_targetPath :: string
  sa_proposedBy :: string
  sa_proposedAt :: string
  sa_expiresAt :: string
  sa_status :: string
  sa_rationale :: string
  sa_proposedDiff :: json
  sa_ratifiedAt :: "string option"
  sa_ratifiedBy :: "string option"
  sa_ratificationReason :: "string option"
  sa_decidedByPrincipal :: "string option"
  sa_runId :: "string option"
  sa_baseVersion :: "string option"

text \<open>A number of days that a caller passes may be infinite or not a number.\<close>

datatype ttl_days = Days rat | NotFinite

record stage_input =
  si_actionType :: string
  si_targetPath :: string
  si_proposedBy :: string
  si_rationale :: string
  si_proposedDiff :: "json option"
  si_ttlDays :: "ttl_days option"
  si_runId :: "string option"
  si_proposedAt :: "string option"
  si_baseVersion :: "string option"

record decision_input =
  di_status :: string
  di_ratifiedAt :: string
  di_ratifiedBy :: string
  di_reason :: "string option"
  di_decidedByPrincipal :: "string option"

datatype staged_error =
    BadActionType
  | EmptyInput string
  | NoProposedDiff
  | BadTtl
  | CannotStage
  | ActionNotFound string
  | CannotRecord
  | CannotReadActions
  | CannotSweep
  | CannotRebuild

section \<open>The file\<close>

type_synonym staged_file = "raw_record jsonl_file"

definition readRawRecords :: "staged_file option \<Rightarrow> raw_record list" where
  "readRawRecords f = jsonl_records f"

section \<open>Collapsing the log\<close>

definition or_empty :: "string option \<Rightarrow> string" where
  "or_empty v = (case v of None \<Rightarrow> [] | Some s \<Rightarrow> s)"

definition proposal_row :: "raw_record \<Rightarrow> string \<Rightarrow> staged_row" where
  "proposal_row rec action_type =
     \<lparr>sr_id = rr_id rec, sr_action_type = action_type, sr_target_path = or_empty (rr_target_path rec),
      sr_proposed_by = or_empty (rr_proposed_by rec), sr_proposed_at = or_empty (rr_proposed_at rec),
      sr_expires_at = or_empty (rr_expires_at rec),
      sr_status = (case rr_status rec of None \<Rightarrow> ''pending'' | Some s \<Rightarrow> s),
      sr_rationale = or_empty (rr_rationale rec),
      sr_proposed_diff = (case rr_proposed_diff rec of None \<Rightarrow> Encoded JNull | Some d \<Rightarrow> d),
      sr_ratified_at = None, sr_ratified_by = None, sr_ratification_reason = None,
      sr_decided_by_principal = None, sr_run_id = rr_run_id rec, sr_base_version = rr_base_version rec\<rparr>"

definition decided_row :: "raw_record \<Rightarrow> staged_row \<Rightarrow> staged_row" where
  "decided_row rec existing =
     existing\<lparr>sr_status := (case rr_status rec of None \<Rightarrow> sr_status existing | Some s \<Rightarrow> s),
       sr_ratified_at := rr_ratified_at rec, sr_ratified_by := rr_ratified_by rec,
       sr_ratification_reason := rr_ratification_reason rec,
       sr_decided_by_principal := rr_decided_by_principal rec\<rparr>"

definition collapse_step :: "(string, staged_row) jmap \<Rightarrow> raw_record \<Rightarrow> (string, staged_row) jmap" where
  "collapse_step byId rec =
     (case rr_action_type rec of
        Some a \<Rightarrow> AList.update (rr_id rec) (proposal_row rec a) byId
      | None \<Rightarrow>
          (case map_of byId (rr_id rec) of
             None \<Rightarrow> byId
           | Some existing \<Rightarrow> AList.update (rr_id rec) (decided_row rec existing) byId))"

definition collapse :: "raw_record list \<Rightarrow> (string, staged_row) jmap" where
  "collapse records = foldl collapse_step [] records"

definition rowToStagedAction :: "staged_row \<Rightarrow> staged_action" where
  "rowToStagedAction row =
     \<lparr>sa_id = sr_id row, sa_actionType = sr_action_type row, sa_targetPath = sr_target_path row,
      sa_proposedBy = sr_proposed_by row, sa_proposedAt = sr_proposed_at row, sa_expiresAt = sr_expires_at row,
      sa_status = sr_status row, sa_rationale = sr_rationale row,
      sa_proposedDiff = (case sr_proposed_diff row of Encoded j \<Rightarrow> j | NotJson s \<Rightarrow> JStr s),
      sa_ratifiedAt = sr_ratified_at row, sa_ratifiedBy = sr_ratified_by row,
      sa_ratificationReason = sr_ratification_reason row, sa_decidedByPrincipal = sr_decided_by_principal row,
      sa_runId = sr_run_id row, sa_baseVersion = sr_base_version row\<rparr>"

definition currentRows :: "staged_file option \<Rightarrow> staged_row list" where
  "currentRows f = js_sort (cmp_key sr_id) (map snd (collapse (readRawRecords f)))"

section \<open>Staging\<close>

text \<open>
  \<^verbatim>\<open>setUTCDate\<close> drops the fraction of a day; an instant beyond the range of \<^verbatim>\<open>Date\<close> is invalid, and printing it
  throws.
\<close>

definition MAX_DATE_MS :: int where "MAX_DATE_MS = 8640000000000000"

definition addDaysISO :: "string \<Rightarrow> rat \<Rightarrow> string option" where
  "addDaysISO stamp days =
     (case date_parse stamp of
        None \<Rightarrow> None
      | Some t \<Rightarrow>
          (let t' = t + \<lfloor>days\<rfloor> * MS_PER_DAY in if \<bar>t'\<bar> \<le> MAX_DATE_MS then Some (toSecondISO t') else None))"

definition daysSince :: "string \<Rightarrow> int \<Rightarrow> int option" where
  "daysSince stamp now = map_option (\<lambda>t. (now - t) div MS_PER_DAY) (date_parse stamp)"

definition daysUntil :: "string \<Rightarrow> int \<Rightarrow> int option" where
  "daysUntil stamp now = map_option (\<lambda>t. (t - now) div MS_PER_DAY) (date_parse stamp)"

definition nextStagedId :: "raw_record list \<Rightarrow> string" where
  "nextStagedId records = seq_render ''stage-'' (js_int (max_suffix ''stage-'' (map rr_id records) 0 + 1))"

definition validateStageInput :: "stage_input \<Rightarrow> staged_error + rat" where
  "validateStageInput input =
     (if si_actionType input \<notin> set STAGED_ACTION_TYPES then Inl BadActionType
      else case List.find (\<lambda>(name, v). blank v)
             [(''targetPath'', si_targetPath input), (''proposedBy'', si_proposedBy input),
              (''rationale'', si_rationale input)] of
        Some (name, _) \<Rightarrow> Inl (EmptyInput name)
      | None \<Rightarrow>
          if si_proposedDiff input = None \<or> si_proposedDiff input = Some JNull then Inl NoProposedDiff
          else (case si_ttlDays input of
                  None \<Rightarrow> Inr DEFAULT_TTL_DAYS
                | Some NotFinite \<Rightarrow> Inl BadTtl
                | Some (Days d) \<Rightarrow> if d \<le> 0 then Inl BadTtl else Inr d))"

definition proposal_record :: "stage_input \<Rightarrow> string \<Rightarrow> string \<Rightarrow> string \<Rightarrow> raw_record" where
  "proposal_record input i proposedAt expiresAt =
     \<lparr>rr_id = i, rr_action_type = Some (si_actionType input), rr_target_path = Some (js_trim (si_targetPath input)),
      rr_proposed_by = Some (js_trim (si_proposedBy input)), rr_proposed_at = Some proposedAt,
      rr_expires_at = Some expiresAt, rr_status = Some ''pending'',
      rr_rationale = Some (js_trim (si_rationale input)),
      rr_proposed_diff = map_option Encoded (si_proposedDiff input),
      rr_ratified_at = None, rr_ratified_by = None, rr_ratification_reason = None,
      rr_decided_by_principal = None, rr_run_id = trimmed_option (si_runId input),
      rr_base_version = (case si_baseVersion input of None \<Rightarrow> None | Some v \<Rightarrow> if v = [] then None else Some v)\<rparr>"

text \<open>The id and the expiry, or \<open>None\<close> for an exception.\<close>

definition appendProposalRecord ::
    "append_outcome \<Rightarrow> int \<Rightarrow> stage_input \<Rightarrow> raw_record list \<Rightarrow> rat \<Rightarrow> staged_file option
     \<Rightarrow> staged_file option \<times> (string \<times> string) option" where
  "appendProposalRecord outcome now input records ttlDays f =
     (let proposedAt = (case si_proposedAt input of None \<Rightarrow> toSecondISO now | Some s \<Rightarrow> s) in
      case addDaysISO proposedAt ttlDays of
        None \<Rightarrow> (f, None)
      | Some expiresAt \<Rightarrow>
          (let i = nextStagedId records;
               (f', written) = appendRecord outcome (proposal_record input i proposedAt expiresAt) f
           in (f', if written then Some (i, expiresAt) else None)))"

definition stageAction ::
    "bool \<Rightarrow> append_outcome \<Rightarrow> int \<Rightarrow> stage_input \<Rightarrow> staged_file option
     \<Rightarrow> staged_file option \<times> (staged_error + string \<times> string)" where
  "stageAction read_fault outcome now input f =
     (case validateStageInput input of
        Inl e \<Rightarrow> (f, Inl e)
      | Inr ttlDays \<Rightarrow>
          if read_fault then (f, Inl CannotStage)
          else (case appendProposalRecord outcome now input (readRawRecords f) ttlDays f of
                  (f', None) \<Rightarrow> (f', Inl CannotStage)
                | (f', Some r) \<Rightarrow> (f', Inr r)))"

text \<open>
  The first sentence: the expression is lazy, so it stops at the first full stop, exclamation or question mark
  before white space or the end; its dot matches no line terminator.
\<close>

fun sentence_prefix :: "string \<Rightarrow> string option" where
  "sentence_prefix [] = None"
| "sentence_prefix (c # cs) =
     (if c \<in> set ''.!?'' \<and> (cs = [] \<or> strip_one js_spaces cs \<noteq> None) then Some [c]
      else if line_term (c # cs) \<noteq> 0 then None
      else map_option (\<lambda>p. c # p) (sentence_prefix cs))"

definition firstSentence :: "string \<Rightarrow> string" where
  "firstSentence text1 =
     (let trimmed = js_trim text1 in case sentence_prefix trimmed of None \<Rightarrow> trimmed | Some p \<Rightarrow> p)"

record stage_outcome =
  so_id :: string
  so_expires_at :: string
  so_conflicts_with :: "string list"
  so_tension_id :: "string option"
  so_tension_error :: "tension_error option"

definition contenders_of :: "raw_record list \<Rightarrow> string \<Rightarrow> staged_row list" where
  "contenders_of records target =
     filter (\<lambda>r. sr_status r = ''pending'' \<and> sr_target_path r = js_trim target) (map snd (collapse records))"

definition competing_tension :: "stage_input \<Rightarrow> staged_row list \<Rightarrow> string \<Rightarrow> tension_input" where
  "competing_tension input contenders i =
     (let target = js_trim (si_targetPath input) in
      \<lparr>ti_date = None, ti_title = ''Competing proposals on '' @ target, ti_kind = InterProposal,
       ti_sourceA = target,
       ti_claimA = join_with '' | '' (map (\<lambda>r. ''pending '' @ sr_id r @ '' ('' @ sr_action_type r @ ''): ''
          @ firstSentence (sr_rationale r)) contenders),
       ti_sourceB = target,
       ti_claimB = ''new '' @ i @ '' ('' @ si_actionType input @ ''): '' @ firstSentence (si_rationale input),
       ti_status = None, ti_logged_by = js_trim (si_proposedBy input), ti_decided_by = None,
       ti_positionA = None, ti_positionB = None, ti_readerA = None, ti_readerB = None\<rparr>)"

text \<open>
  The tension is written after the proposal, by \<open>addTension\<close> with the faults, the lease holder and the clock
  it meets.
\<close>

definition stageActionWithConflictCheck ::
    "bool \<Rightarrow> append_outcome \<Rightarrow> int \<Rightarrow> log_faults \<Rightarrow> string \<Rightarrow> int \<Rightarrow> stage_input \<Rightarrow> staged_file option \<times> log_store
     \<Rightarrow> (staged_file option \<times> log_store) \<times> (staged_error + stage_outcome)" where
  "stageActionWithConflictCheck read_fault outcome now faults holder later input st =
     (case validateStageInput input of
        Inl e \<Rightarrow> (st, Inl e)
      | Inr ttlDays \<Rightarrow>
          if read_fault then (st, Inl CannotStage)
          else
            (let records = readRawRecords (fst st);
                 contenders = contenders_of records (si_targetPath input)
             in case appendProposalRecord outcome now input records ttlDays (fst st) of
                  (f', None) \<Rightarrow> ((f', snd st), Inl CannotStage)
                | (f', Some (i, expires)) \<Rightarrow>
                    if contenders = []
                    then ((f', snd st), Inr \<lparr>so_id = i, so_expires_at = expires, so_conflicts_with = [],
                           so_tension_id = None, so_tension_error = None\<rparr>)
                    else
                      (case addTension faults holder later (competing_tension input contenders i) (snd st) of
                         (log', Inl e) \<Rightarrow> ((f', log'), Inr \<lparr>so_id = i, so_expires_at = expires,
                            so_conflicts_with = map sr_id contenders, so_tension_id = None, so_tension_error = Some e\<rparr>)
                       | (log', Inr t) \<Rightarrow> ((f', log'), Inr \<lparr>so_id = i, so_expires_at = expires,
                            so_conflicts_with = map sr_id contenders, so_tension_id = te_id t,
                            so_tension_error = None\<rparr>))))"

section \<open>Deciding, listing and sweeping\<close>

definition decision_record :: "string \<Rightarrow> decision_input \<Rightarrow> raw_record" where
  "decision_record i d =
     \<lparr>rr_id = i, rr_action_type = None, rr_target_path = None, rr_proposed_by = None, rr_proposed_at = None,
      rr_expires_at = None, rr_status = Some (di_status d), rr_rationale = None, rr_proposed_diff = None,
      rr_ratified_at = Some (di_ratifiedAt d), rr_ratified_by = Some (di_ratifiedBy d),
      rr_ratification_reason = (case di_reason d of None \<Rightarrow> None | Some r \<Rightarrow> if r = [] then None else Some r),
      rr_decided_by_principal = di_decidedByPrincipal d, rr_run_id = None, rr_base_version = None\<rparr>"

definition recordDecision ::
    "bool \<Rightarrow> append_outcome \<Rightarrow> string \<Rightarrow> decision_input \<Rightarrow> staged_file option
     \<Rightarrow> staged_file option \<times> (staged_error + staged_action)" where
  "recordDecision read_fault outcome i decision f =
     (if read_fault then (f, Inl CannotRecord)
      else case map_of (collapse (readRawRecords f)) i of
        None \<Rightarrow> (f, Inl (ActionNotFound i))
      | Some existing \<Rightarrow>
          (let rec = decision_record i decision; (f', written) = appendRecord outcome rec f in
           (f', if written then Inr (rowToStagedAction (decided_row rec existing)) else Inl CannotRecord)))"

definition listStagedActions :: "bool \<Rightarrow> string option \<Rightarrow> staged_file option \<Rightarrow> staged_error + staged_action list" where
  "listStagedActions read_fault status f =
     (if read_fault then Inl CannotReadActions
      else (let actions = map rowToStagedAction (currentRows f) in
            Inr (case status of None \<Rightarrow> actions
                 | Some s \<Rightarrow> if s = [] then actions else filter (\<lambda>a. sa_status a = s) actions)))"

definition getStagedActionById :: "bool \<Rightarrow> string \<Rightarrow> staged_file option \<Rightarrow> staged_error + staged_action option" where
  "getStagedActionById read_fault i f =
     (if read_fault then Inl CannotReadActions
      else Inr (map_option rowToStagedAction (map_of (collapse (readRawRecords f)) i)))"

text \<open>An age of \<open>None\<close> is \<^verbatim>\<open>NaN\<close>.\<close>

record lint_item =
  li_id :: string
  li_actionType :: string
  li_targetPath :: string
  li_ageDays :: "int option"
  li_expiresInDays :: "int option"
  li_rationale :: string

definition pendingLintItems :: "staged_action list \<Rightarrow> int \<Rightarrow> lint_item list" where
  "pendingLintItems actions now =
     map (\<lambda>a. \<lparr>li_id = sa_id a, li_actionType = sa_actionType a, li_targetPath = sa_targetPath a,
                li_ageDays = daysSince (sa_proposedAt a) now, li_expiresInDays = daysUntil (sa_expiresAt a) now,
                li_rationale = firstSentence (sa_rationale a)\<rparr>)
       (js_sort (cmp_key sa_expiresAt) (filter (\<lambda>a. sa_status a = ''pending'') actions))"

definition listPendingForLint :: "bool \<Rightarrow> int \<Rightarrow> staged_file option \<Rightarrow> staged_error + lint_item list" where
  "listPendingForLint read_fault now f =
     (case listStagedActions read_fault None f of Inl e \<Rightarrow> Inl e | Inr actions \<Rightarrow> Inr (pendingLintItems actions now))"

definition is_stale :: "int \<Rightarrow> staged_row \<Rightarrow> bool" where
  "is_stale now r \<longleftrightarrow> sr_status r = ''pending''
     \<and> (case date_parse (sr_expires_at r) of None \<Rightarrow> False | Some t \<Rightarrow> t < now)"

definition expiry_record :: "int \<Rightarrow> string \<Rightarrow> raw_record" where
  "expiry_record now i = decision_record i \<lparr>di_status = ''expired'', di_ratifiedAt = toSecondISO now,
     di_ratifiedBy = SWEEP_PRINCIPAL, di_reason = None, di_decidedByPrincipal = None\<rparr>"

text \<open>The appends of a sweep; a failing one ends it. \<open>outcomes\<close> has one outcome per action.\<close>

fun sweep_rows ::
    "int \<Rightarrow> append_outcome list \<Rightarrow> staged_row list \<Rightarrow> string list \<Rightarrow> staged_file option
     \<Rightarrow> staged_file option \<times> (staged_error + string list)" where
  "sweep_rows now outcomes [] expired f = (f, Inr expired)"
| "sweep_rows now outcomes (row # rows) expired f =
     (case appendRecord (case outcomes of [] \<Rightarrow> Written | x # _ \<Rightarrow> x) (expiry_record now (sr_id row)) f of
        (f', True) \<Rightarrow> sweep_rows now (drop 1 outcomes) rows (expired @ [sr_id row]) f'
      | (f', False) \<Rightarrow> (f', Inl CannotSweep))"

definition sweepExpiredActions ::
    "bool \<Rightarrow> append_outcome list \<Rightarrow> int \<Rightarrow> staged_file option
     \<Rightarrow> staged_file option \<times> (staged_error + string list)" where
  "sweepExpiredActions read_fault outcomes now f =
     (if read_fault then (f, Inl CannotSweep)
      else sweep_rows now outcomes (js_sort (cmp_key sr_expires_at) (filter (is_stale now) (currentRows f))) [] f)"

section \<open>The table\<close>

text \<open>
  The table of the index has the id as its key; it stores neither the deciding principal nor the
  run and the base version. The transaction is one step: a failure leaves the table as it was.
\<close>

type_synonym staged_table = "(string, staged_row) jmap"

definition stored_row :: "staged_row \<Rightarrow> staged_row" where
  "stored_row r = r\<lparr>sr_decided_by_principal := None, sr_run_id := None, sr_base_version := None\<rparr>"

definition upsertStagedAction :: "staged_table \<Rightarrow> staged_row \<Rightarrow> staged_table" where
  "upsertStagedAction db row = AList.update (sr_id row) (stored_row row) db"

definition clearStagedActions :: "staged_table \<Rightarrow> staged_table" where
  "clearStagedActions db = []"

definition getStagedAction :: "staged_table \<Rightarrow> string \<Rightarrow> staged_row option" where
  "getStagedAction db i = map_of db i"

definition getAllStagedActions :: "staged_table \<Rightarrow> staged_row list" where
  "getAllStagedActions db = js_sort (cmp_key sr_id) (map snd db)"

definition getStagedActionsByStatus :: "staged_table \<Rightarrow> string \<Rightarrow> staged_row list" where
  "getStagedActionsByStatus db status =
     js_sort (cmp_key sr_expires_at) (filter (\<lambda>r. sr_status r = status) (map snd db))"

definition rebuildStagedActionsIndex ::
    "bool \<Rightarrow> bool \<Rightarrow> staged_table \<Rightarrow> staged_file option \<Rightarrow> staged_table \<times> (staged_error + nat)" where
  "rebuildStagedActionsIndex read_fault db_fault db f =
     (if read_fault \<or> db_fault then (db, Inl CannotRebuild)
      else (let rows = currentRows f in (foldl upsertStagedAction (clearStagedActions db) rows, Inr (length rows))))"

section \<open>The state of an action\<close>

definition staged_map :: "staged_file option \<Rightarrow> string \<Rightarrow> staged_row option" where
  "staged_map f i = map_of (collapse (readRawRecords f)) i"

lemma collapse_snoc: "collapse (rs @ [r]) = collapse_step (collapse rs) r"
  by (simp add: collapse_def)

lemma append_effect:
  assumes "settled f" "appendRecord outcome r f = (f', True)"
  shows "readRawRecords f' = readRawRecords f @ [r]" "settled f'"
  using append_written [OF assms] by (simp_all add: readRawRecords_def)

text \<open>The collapsed log is a map from ids to rows of that id.\<close>

lemma collapse_rows:
  "distinct (jkeys (collapse rs)) \<and> (\<forall>(k, v) \<in> set (collapse rs). sr_id v = k) \<and> set (jkeys (collapse rs)) \<subseteq> rr_id ` set rs"
proof (induction rs rule: rev_induct)
  case Nil
  then show ?case by (simp add: collapse_def)
next
  case (snoc r rs)
  let ?m = "collapse rs"
  have upd: "distinct (jkeys (AList.update (rr_id r) v ?m))
      \<and> (\<forall>(k, v) \<in> set (AList.update (rr_id r) v ?m). sr_id v = k)
      \<and> set (jkeys (AList.update (rr_id r) v ?m)) \<subseteq> rr_id ` set (rs @ [r])" if "sr_id v = rr_id r" for v
    using snoc.IH update_entries [of ?m "\<lambda>k v. sr_id v = k" "rr_id r" v] that
    by (auto simp: distinct_jkeys_update)
  show ?case
  proof (cases "rr_action_type r")
    case (Some a)
    then show ?thesis using upd [of "proposal_row r a"] by (simp add: collapse_snoc collapse_step_def proposal_row_def)
  next
    case None
    show ?thesis
    proof (cases "map_of ?m (rr_id r)")
      case (Some e)
      then have "sr_id e = rr_id r" using snoc.IH map_of_SomeD by fastforce
      then show ?thesis
        using upd [of "decided_row r e"] None Some by (simp add: collapse_snoc collapse_step_def decided_row_def)
    qed (use None snoc.IH in \<open>auto simp: collapse_snoc collapse_step_def\<close>)
  qed
qed

lemma collapse_keys: "distinct (jkeys (collapse rs))" "(i, r) \<in> set (collapse rs) \<Longrightarrow> sr_id r = i"
    "i \<in> set (jkeys (collapse rs)) \<Longrightarrow> i \<in> rr_id ` set rs"
proof -
  note rows = collapse_rows [of rs]
  show "distinct (jkeys (collapse rs))" using rows by (elim conjE)
  show "sr_id r = i" if "(i, r) \<in> set (collapse rs)" using bspec [OF conjunct1 [OF conjunct2 [OF rows]] that] by simp
  show "i \<in> rr_id ` set rs" if "i \<in> set (jkeys (collapse rs))" using conjunct2 [OF conjunct2 [OF rows]] that by (rule subsetD)
qed

lemma collapse_lookup: "map_of (collapse rs) i = Some r \<longleftrightarrow> r \<in> snd ` set (collapse rs) \<and> sr_id r = i"
proof
  assume "map_of (collapse rs) i = Some r"
  then have "(i, r) \<in> set (collapse rs)" by (rule map_of_SomeD)
  then show "r \<in> snd ` set (collapse rs) \<and> sr_id r = i" using collapse_keys(2) by force
next
  assume "r \<in> snd ` set (collapse rs) \<and> sr_id r = i"
  then obtain k where k: "(k, r) \<in> set (collapse rs)" "sr_id r = i" by auto
  then have "k = i" using collapse_keys(2) [OF k(1)] by simp
  then show "map_of (collapse rs) i = Some r" using map_of_is_SomeI [OF collapse_keys(1) k(1)] by simp
qed

lemma row_lookup: "r \<in> set (currentRows f) \<longleftrightarrow> staged_map f (sr_id r) = Some r"
  by (simp add: currentRows_def staged_map_def collapse_lookup)

lemma row_ids: "map sr_id (map snd (collapse rs)) = jkeys (collapse rs)"
  unfolding map_map by (rule map_cong [OF refl]) (auto simp: collapse_keys(2))

lemma rows_distinct: "distinct (map sr_id (currentRows f))"
proof -
  have "distinct (map sr_id (map snd (collapse (readRawRecords f))))" unfolding row_ids by (rule collapse_keys(1))
  then show ?thesis by (simp only: currentRows_def distinct_map distinct_js_sort set_js_sort)
qed

lemma proposal_effect:
  assumes "settled f" "appendRecord outcome r f = (f', True)" "rr_action_type r = Some a"
  shows "staged_map f' = (staged_map f)(rr_id r \<mapsto> proposal_row r a)"
  using append_effect [OF assms(1,2)] assms(3) by (auto simp: staged_map_def collapse_snoc collapse_step_def)

lemma decision_effect:
  assumes "settled f" "appendRecord outcome r f = (f', True)" "rr_action_type r = None" "staged_map f (rr_id r) = Some e"
  shows "staged_map f' = (staged_map f)(rr_id r \<mapsto> decided_row r e)"
  using append_effect [OF assms(1,2)] assms(3,4) by (auto simp: staged_map_def collapse_snoc collapse_step_def)

interpretation staged_ids: id_allocator "''stage-''" "map rr_id" nextStagedId
  by unfold_locales (simp add: nextStagedId_def)

lemma staged_id_fresh:
  assumes "max_suffix ''stage-'' (map rr_id (readRawRecords f)) 0 < 2 ^ 53 - 1"
  shows "staged_map f (nextStagedId (readRawRecords f)) = None"
  using staged_ids.fresh [OF assms] collapse_keys(3) by (fastforce simp: staged_map_def map_of_eq_None_iff)

lemma appendProposal_effect:
  assumes "settled f" "appendProposalRecord outcome now input (readRawRecords f) ttl f = (f', Some (i, ex))"
    and "max_suffix ''stage-'' (map rr_id (readRawRecords f)) 0 < 2 ^ 53 - 1"
  obtains row where "staged_map f' = (staged_map f)(i \<mapsto> row)" "staged_map f i = None" "sr_status row = ''pending''"
    "sr_target_path row = js_trim (si_targetPath input)" "sr_action_type row = si_actionType input"
    "sr_expires_at row = ex"
proof -
  let ?i = "nextStagedId (readRawRecords f)"
  define at1 where "at1 = (case si_proposedAt input of None \<Rightarrow> toSecondISO now | Some s \<Rightarrow> s)"
  obtain e where e: "addDaysISO at1 ttl = Some e"
    using assms(2) unfolding appendProposalRecord_def Let_def at1_def [symmetric] by (cases "addDaysISO at1 ttl") simp_all
  obtain f1 w where w: "appendRecord outcome (proposal_record input ?i at1 e) f = (f1, w)" by (rule prod.exhaust)
  have "(f', Some (i, ex)) = (f1, if w then Some (?i, e) else None)"
    using assms(2) unfolding appendProposalRecord_def Let_def at1_def [symmetric] by (simp add: e w)
  then have i: "i = ?i" "f' = f1" "ex = e" and "w" by (simp_all split: if_splits)
  then have a: "appendRecord outcome (proposal_record input ?i at1 ex) f = (f', True)" using w by simp
  have "staged_map f' = (staged_map f)(i \<mapsto> proposal_row (proposal_record input ?i at1 ex) (si_actionType input))"
    using proposal_effect [OF assms(1) a] i by (simp add: proposal_record_def)
  moreover have "staged_map f i = None" using staged_id_fresh [OF assms(3)] i by simp
  ultimately show ?thesis
    by (rule that) (simp_all add: proposal_row_def proposal_record_def or_empty_def)
qed

text \<open>\<open>stage_effect\<close>: what a proposal that was accepted did, with its competitors.\<close>

lemma stage_effect:
  assumes "stageActionWithConflictCheck rf oc now lf h later input st = (st', Inr out)"
  obtains ttl where "appendProposalRecord oc now input (readRawRecords (fst st)) ttl (fst st)
      = (fst st', Some (so_id out, so_expires_at out))"
    "so_conflicts_with out = map sr_id (contenders_of (readRawRecords (fst st)) (si_targetPath input))"
    "so_conflicts_with out = [] \<longrightarrow> snd st' = snd st"
proof -
  let ?rs = "readRawRecords (fst st)"
  let ?c = "contenders_of ?rs (si_targetPath input)"
  note run = assms [unfolded stageActionWithConflictCheck_def Let_def]
  obtain ttl where v: "validateStageInput input = Inr ttl" using run by (cases "validateStageInput input") simp_all
  have rf: "\<not> rf" using run v by (cases rf) simp_all
  obtain f' r where p: "appendProposalRecord oc now input ?rs ttl (fst st) = (f', r)" by (rule prod.exhaust)
  obtain i e where r: "r = Some (i, e)" using run v rf p by (cases r) auto
  obtain log' t where t: "addTension lf h later (competing_tension input ?c i) (snd st) = (log', t)" by (rule prod.exhaust)
  have "fst st' = f' \<and> so_id out = i \<and> so_expires_at out = e \<and> so_conflicts_with out = map sr_id ?c
      \<and> (?c = [] \<longrightarrow> snd st' = snd st)"
    using run v rf p r t by (cases "?c = []"; cases t) auto
  then show ?thesis using that p r by simp
qed

lemma contender_ids:
  "set (map sr_id (contenders_of (readRawRecords f) target)) =
     {i. \<exists>row. staged_map f i = Some row \<and> sr_status row = ''pending'' \<and> sr_target_path row = js_trim target}"
  unfolding contenders_of_def staged_map_def collapse_lookup by (auto simp: image_iff)

text \<open>
  C27: a proposal lands, and its competitors are named. When staging succeeds, exactly one action is added,
  pending, on the trimmed target, under an id no action had; every other action is as before; the
  answer names the ids of the actions that were pending on that target, no more and no fewer, whether or
  not the tension about them could be written; without competitors the tension log is not touched.
\<close>

theorem staged_proposal_lands:
  assumes "stageActionWithConflictCheck rf oc now lf h later input st = (st', Inr out)" "settled (fst st)"
    and "max_suffix ''stage-'' (map rr_id (readRawRecords (fst st))) 0 < 2 ^ 53 - 1"
  shows "(\<exists>row. staged_map (fst st') = (staged_map (fst st))(so_id out \<mapsto> row)
           \<and> sr_status row = ''pending'' \<and> sr_target_path row = js_trim (si_targetPath input))
    \<and> staged_map (fst st) (so_id out) = None
    \<and> set (so_conflicts_with out) = {i. \<exists>row. staged_map (fst st) i = Some row \<and> sr_status row = ''pending''
         \<and> sr_target_path row = js_trim (si_targetPath input)}
    \<and> (so_conflicts_with out = [] \<longrightarrow> snd st' = snd st)"
proof -
  obtain ttl where app: "appendProposalRecord oc now input (readRawRecords (fst st)) ttl (fst st)
      = (fst st', Some (so_id out, so_expires_at out))"
    and c: "so_conflicts_with out = map sr_id (contenders_of (readRawRecords (fst st)) (si_targetPath input))"
    and log: "so_conflicts_with out = [] \<longrightarrow> snd st' = snd st"
    using assms(1) by (rule stage_effect)
  obtain row where row: "staged_map (fst st') = (staged_map (fst st))(so_id out \<mapsto> row)"
    "staged_map (fst st) (so_id out) = None" "sr_status row = ''pending''"
    "sr_target_path row = js_trim (si_targetPath input)"
    using assms(2) app assms(3) by (rule appendProposal_effect)
  show ?thesis using row contender_ids [of "fst st" "si_targetPath input"] c log by auto
qed

section \<open>Decisions\<close>

text \<open>
  C28: the answer of a decision is what the file then says. When a decision is recorded, reading the action
  back gives the very action that was returned, with the status of the decision, and every other action is
  as before; an id that was never proposed is refused and changes nothing.
\<close>

theorem decision_answer_is_reread:
  assumes "recordDecision rf oc i d f = (f', r)" "settled f" "\<not> rf" "r \<noteq> Inl CannotRecord"
  shows "(case r of
       Inl _ \<Rightarrow> staged_map f i = None \<and> f' = f
     | Inr a \<Rightarrow> getStagedActionById False i f' = Inr (Some a) \<and> sa_status a = di_status d
         \<and> (\<forall>j. j \<noteq> i \<longrightarrow> staged_map f' j = staged_map f j))"
proof (cases "staged_map f i")
  case None
  then have "f' = f" "r = Inl (ActionNotFound i)" using assms(1,3) by (auto simp: recordDecision_def staged_map_def)
  then show ?thesis using None by simp
next
  case (Some e)
  obtain f1 w where w: "appendRecord oc (decision_record i d) f = (f1, w)" by (rule prod.exhaust)
  have r: "f' = f1" "r = (if w then Inr (rowToStagedAction (decided_row (decision_record i d) e)) else Inl CannotRecord)"
    using assms(1,3) Some w by (auto simp: recordDecision_def staged_map_def Let_def)
  then have t: "w" using assms(4) by (auto split: if_splits)
  have "staged_map f' = (staged_map f)(i \<mapsto> decided_row (decision_record i d) e)"
    using decision_effect [OF assms(2), of oc "decision_record i d" f' e] w t r(1) Some by (simp add: decision_record_def)
  then have m: "map_of (collapse (readRawRecords f')) = (staged_map f)(i \<mapsto> decided_row (decision_record i d) e)"
    by (simp add: staged_map_def fun_eq_iff)
  have "sa_status (rowToStagedAction (decided_row (decision_record i d) e)) = di_status d"
    by (simp add: rowToStagedAction_def decided_row_def decision_record_def)
  then show ?thesis using r(2) t m by (simp add: getStagedActionById_def staged_map_def)
qed

section \<open>Sweeping\<close>

lemma append_failed:
  "settled f \<Longrightarrow> appendRecord oc r f = (f', False) \<Longrightarrow>
   readRawRecords f' = readRawRecords f \<or> readRawRecords f' = readRawRecords f @ [r]"
  unfolding readRawRecords_def by (rule append_not_written)

definition expired_row :: "int \<Rightarrow> staged_row \<Rightarrow> staged_row" where
  "expired_row now row = decided_row (expiry_record now (sr_id row)) row"

lemma expired_row_simps: "sr_id (expired_row now row) = sr_id row" "sr_status (expired_row now row) = ''expired''"
  by (simp_all add: expired_row_def decided_row_def expiry_record_def decision_record_def)

lemma expiry_record_simps: "rr_action_type (expiry_record now i) = None" "rr_id (expiry_record now i) = i"
  by (simp_all add: expiry_record_def decision_record_def)

text \<open>Each action is as it was or has expired; when the sweep ends well all of its actions have.\<close>

lemma sweep_rows_effect:
  assumes "sweep_rows now ocs rows acc f = (f', r)" "settled f" "distinct (map sr_id rows)"
    and "\<forall>row \<in> set rows. staged_map f (sr_id row) = Some row"
  shows "(\<forall>i. staged_map f' i = staged_map f i \<or>
            (\<exists>row \<in> set rows. sr_id row = i \<and> staged_map f' i = Some (expired_row now row)))
    \<and> (\<forall>ids. r = Inr ids \<longrightarrow> settled f' \<and> ids = acc @ map sr_id rows
         \<and> (\<forall>row \<in> set rows. staged_map f' (sr_id row) = Some (expired_row now row)))"
  using assms
proof (induction rows arbitrary: ocs acc f)
  case Nil
  then show ?case by auto
next
  case (Cons row rows)
  let ?oc = "case ocs of [] \<Rightarrow> Written | x # _ \<Rightarrow> x"
  obtain f1 w where w: "appendRecord ?oc (expiry_record now (sr_id row)) f = (f1, w)" by (rule prod.exhaust)
  have row: "staged_map f (sr_id row) = Some row" using Cons.prems(4) by simp
  have new: "staged_map g = (staged_map f)(sr_id row \<mapsto> expired_row now row)"
    if "readRawRecords g = readRawRecords f @ [expiry_record now (sr_id row)]" for g
    using that row by (simp add: staged_map_def collapse_snoc collapse_step_def expiry_record_simps expired_row_def fun_eq_iff)
  show ?case
  proof (cases w)
    case True
    have f1: "staged_map f1 = (staged_map f)(sr_id row \<mapsto> expired_row now row)" "settled f1"
      using new append_effect [OF Cons.prems(2)] w True by auto
    have nin: "sr_id row \<notin> sr_id ` set rows" using Cons.prems(3) by simp
    have other: "sr_id row' \<noteq> sr_id row" if "row' \<in> set rows" for row' using nin imageI [OF that, of sr_id] by metis
    then have all: "\<forall>row' \<in> set rows. staged_map f1 (sr_id row') = Some row'" using Cons.prems(4) f1(1) by simp
    have run: "sweep_rows now (drop 1 ocs) rows (acc @ [sr_id row]) f1 = (f', r)" using Cons.prems(1) w True by simp
    have dist: "distinct (map sr_id rows)" using Cons.prems(3) by simp
    note IH = Cons.IH [OF run f1(2) dist all]
    note step = spec [OF conjunct1 [OF IH]]
    have here: "staged_map f' (sr_id row) = Some (expired_row now row)"
      using step [of "sr_id row"] other f1(1) by fastforce
    have each: "staged_map f' i = staged_map f i \<or>
            (\<exists>row' \<in> set (row # rows). sr_id row' = i \<and> staged_map f' i = Some (expired_row now row'))" for i
      using step [of i] here f1(1) by (cases "i = sr_id row") auto
    have ended: "\<forall>ids. r = Inr ids \<longrightarrow> settled f' \<and> ids = acc @ map sr_id (row # rows)
         \<and> (\<forall>row \<in> set (row # rows). staged_map f' (sr_id row) = Some (expired_row now row))"
      using conjunct2 [OF IH] here by simp
    show ?thesis by (rule conjI [OF allI [OF each] ended])
  next
    case False
    then have r: "r = Inl CannotSweep" "f' = f1" using Cons.prems(1) w by simp_all
    have "appendRecord ?oc (expiry_record now (sr_id row)) f = (f1, False)" using w False by simp
    from append_failed [OF Cons.prems(2) this]
    have "staged_map f1 = staged_map f \<or> staged_map f1 = (staged_map f)(sr_id row \<mapsto> expired_row now row)"
    proof
      assume "readRawRecords f1 = readRawRecords f"
      then have "staged_map f1 = staged_map f" by (simp add: staged_map_def fun_eq_iff)
      then show ?thesis ..
    qed (use new in simp)
    then show ?thesis using r by auto
  qed
qed

text \<open>
  C29: a sweep expires what is due and nothing else, and is idempotent. Whatever appends fail, every action is as
  before or was pending past its expiry and is now expired; a sweep that ends well names exactly
  the actions that were due, each once, leaves none due, and a second sweep at that time finds nothing.
\<close>

theorem sweep_expires_exactly_due:
  assumes "sweepExpiredActions rf ocs now f = (f', r)" "settled f"
  shows "(\<forall>i. staged_map f' i = staged_map f i \<or>
            (\<exists>row. staged_map f i = Some row \<and> is_stale now row \<and> staged_map f' i = Some (expired_row now row)))
    \<and> (\<forall>ids. r = Inr ids \<longrightarrow> distinct ids \<and> set ids = {i. \<exists>row. staged_map f i = Some row \<and> is_stale now row}
         \<and> (\<forall>i row. staged_map f' i = Some row \<longrightarrow> \<not> is_stale now row)
         \<and> sweepExpiredActions False [] now f' = (f', Inr []))"
proof (cases rf)
  case True
  then show ?thesis using assms(1) by (auto simp: sweepExpiredActions_def)
next
  case False
  let ?due = "js_sort (cmp_key sr_expires_at) (filter (is_stale now) (currentRows f))"
  have run: "sweep_rows now ocs ?due [] f = (f', r)" using assms(1) False by (simp add: sweepExpiredActions_def)
  have due: "row \<in> set ?due \<longleftrightarrow> staged_map f (sr_id row) = Some row \<and> is_stale now row" for row
    using row_lookup by auto
  have ids: "staged_map f i = Some row \<Longrightarrow> sr_id row = i" for i row by (simp add: staged_map_def collapse_lookup)
  have dist: "distinct (map sr_id ?due)"
  proof -
    have "distinct (map sr_id (filter (is_stale now) (currentRows f)))" by (rule distinct_map_filter [OF rows_distinct])
    then show ?thesis by (simp only: distinct_map distinct_js_sort set_js_sort)
  qed
  have eff: "(\<forall>i. staged_map f' i = staged_map f i \<or>
            (\<exists>row \<in> set ?due. sr_id row = i \<and> staged_map f' i = Some (expired_row now row)))
    \<and> (\<forall>ids. r = Inr ids \<longrightarrow> settled f' \<and> ids = [] @ map sr_id ?due
         \<and> (\<forall>row \<in> set ?due. staged_map f' (sr_id row) = Some (expired_row now row)))"
    by (rule sweep_rows_effect [OF run assms(2) dist]) (use due in blast)
  have fin: "distinct is' \<and> set is' = {i. \<exists>row. staged_map f i = Some row \<and> is_stale now row}
         \<and> (\<forall>i row. staged_map f' i = Some row \<longrightarrow> \<not> is_stale now row)
         \<and> sweepExpiredActions False [] now f' = (f', Inr [])" if r: "r = Inr is'" for is'
  proof -
    have is': "is' = map sr_id ?due" and all: "\<forall>row \<in> set ?due. staged_map f' (sr_id row) = Some (expired_row now row)"
      using eff r by auto
    have none: "\<not> is_stale now row" if row: "staged_map f' i = Some row" for i row
    proof
      assume stale: "is_stale now row"
      show False
      proof (cases "staged_map f i = Some row")
        case True
        then have "row \<in> set ?due" using stale due ids by simp
        then have "staged_map f' i = Some (expired_row now row)" using all ids [OF True] by blast
        then show False using row stale expired_row_simps(2) [of now row] by (simp add: is_stale_def)
      next
        case False
        then obtain row1 where "row = expired_row now row1" using eff row by (metis option.inject)
        then show False using stale by (simp add: is_stale_def expired_row_simps)
      qed
    qed
    then have "filter (is_stale now) (currentRows f') = []" using row_lookup by (auto simp: filter_empty_conv)
    then have "sweepExpiredActions False [] now f' = (f', Inr [])" by (simp add: sweepExpiredActions_def)
    moreover have "set is' = {i. \<exists>row. staged_map f i = Some row \<and> is_stale now row}"
      unfolding is' set_map image_def by (rule Collect_cong) (metis due ids)
    moreover have "distinct is'" unfolding is' by (rule dist)
    ultimately show ?thesis using none by (intro conjI allI impI)
  qed
  have "staged_map f' i = staged_map f i \<or>
      (\<exists>row. staged_map f i = Some row \<and> is_stale now row \<and> staged_map f' i = Some (expired_row now row))" for i
    using spec [OF conjunct1 [OF eff], of i] due by metis
  then show ?thesis using fin by simp
qed

section \<open>A write that was cut off\<close>

text \<open>
  An append that failed half-way swallows the next proposal. After an append that throws with a part of
  its line written, the next proposal is acknowledged but is not in the log: no action has changed, and
  the id it was given is the one that is handed out next.
\<close>

theorem cut_off_append_swallows_next:
  assumes "appendRecord (Torn False) r f = (f1, False)" "\<not> (\<exists>ls. f = Some (ls, True))"
    and "stageAction False Written now input f1 = (f2, Inr (i, ex))"
  shows "staged_map f2 = staged_map f \<and> nextStagedId (readRawRecords f2) = i"
proof -
  have f1: "readRawRecords f1 = readRawRecords f" "jsonl_records (put_line (Rec r') False f1) = jsonl_records f1" for r'
    using torn_append [OF assms(1,2)] by (simp_all add: readRawRecords_def)
  obtain ttl where app: "appendProposalRecord Written now input (readRawRecords f1) ttl f1 = (f2, Some (i, ex))"
    using assms(3) by (auto simp: stageAction_def split: sum.splits prod.splits option.splits)
  define at1 where "at1 = (case si_proposedAt input of None \<Rightarrow> toSecondISO now | Some s \<Rightarrow> s)"
  obtain e where e: "addDaysISO at1 ttl = Some e"
    using app unfolding appendProposalRecord_def Let_def at1_def [symmetric] by (cases "addDaysISO at1 ttl") simp_all
  have "i = nextStagedId (readRawRecords f1)" "\<exists>r'. f2 = put_line (Rec r') False f1"
    using app unfolding appendProposalRecord_def Let_def at1_def [symmetric] by (auto simp: e appendRecord_def)
  then show ?thesis using f1 by (auto simp: staged_map_def readRawRecords_def fun_eq_iff)
qed

section \<open>The index\<close>

text \<open>After a rebuild the table has the row of every action, less the fields it does not store.\<close>

lemma upsert_rows:
  "map_of (foldl upsertStagedAction db rows) i =
     (case List.find (\<lambda>r. sr_id r = i) (rev rows) of None \<Rightarrow> map_of db i | Some r \<Rightarrow> Some (stored_row r))"
  by (induction rows rule: rev_induct) (auto simp: upsertStagedAction_def)

lemma index_matches_log:
  assumes "rebuildStagedActionsIndex False False db f = (db', r)"
  shows "getStagedAction db' i = map_option stored_row (staged_map f i)"
proof -
  have db': "getStagedAction db' i =
      (case List.find (\<lambda>r. sr_id r = i) (rev (currentRows f)) of None \<Rightarrow> None | Some r \<Rightarrow> Some (stored_row r))"
    using assms by (auto simp: rebuildStagedActionsIndex_def getStagedAction_def clearStagedActions_def upsert_rows Let_def
        split: option.splits)
  show ?thesis
  proof (cases "staged_map f i")
    case None
    then have "\<forall>r \<in> set (currentRows f). sr_id r \<noteq> i" using row_lookup by force
    then have "List.find (\<lambda>r. sr_id r = i) (rev (currentRows f)) = None" by (simp add: find_None_iff)
    then show ?thesis using db' None by simp
  next
    case (Some row)
    then have "row \<in> set (currentRows f)" "sr_id row = i"
      using row_lookup by (auto simp: staged_map_def collapse_lookup)
    then obtain r where r: "List.find (\<lambda>r. sr_id r = i) (rev (currentRows f)) = Some r"
      by (cases "List.find (\<lambda>r. sr_id r = i) (rev (currentRows f))") (auto simp: find_None_iff)
    then have "r \<in> set (currentRows f)" "sr_id r = i"
      using nth_mem [of _ "rev (currentRows f)"] by (auto simp: find_Some_iff simp del: nth_mem)
    then have "r = row" using Some row_lookup by force
    then show ?thesis using db' r Some by simp
  qed
qed

section \<open>Examples\<close>

definition demo_stage :: stage_input where
  "demo_stage = \<lparr>si_actionType = ''promote'', si_targetPath = ''a.md '', si_proposedBy = ''bot'', si_rationale = ''Ready. Yes'',
     si_proposedDiff = Some (JObj []), si_ttlDays = None, si_runId = None, si_proposedAt = Some ''2024-05-01T00:00:00Z'',
     si_baseVersion = None\<rparr>"

definition demo_proposal :: raw_record where
  "demo_proposal = proposal_record demo_stage (seq_render ''stage-'' 1) ''2024-05-01T00:00:00Z'' ''2024-05-15T00:00:00Z''"

definition demo_queue :: "staged_file option" where
  "demo_queue = Some ([Rec demo_proposal], False)"

lemma demo_valid: "validateStageInput demo_stage = Inr 14"
  by code_simp

lemma demo_expiry: "addDaysISO ''2024-05-01T00:00:00Z'' 14 = Some ''2024-05-15T00:00:00Z''"
  by code_simp

lemma demo_records: "readRawRecords demo_queue = [demo_proposal]" "settled demo_queue" "rr_id demo_proposal = seq_render ''stage-'' 1"
  by (simp_all add: readRawRecords_def jsonl_records_def demo_queue_def file_lines_def map_filter_def settled_def demo_proposal_def
      proposal_record_def)

lemma demo_suffix: "max_suffix ''stage-'' (map rr_id (readRawRecords demo_queue)) 0 = 1"
  by (simp add: demo_records seq_suffix_render)

lemma demo_map:
  "staged_map demo_queue (seq_render ''stage-'' 1) = Some (proposal_row demo_proposal ''promote'')"
  by (simp add: staged_map_def demo_records collapse_def collapse_step_def demo_proposal_def proposal_record_def demo_stage_def)

lemma demo_appended:
  "\<exists>f' i ex. appendProposalRecord Written 0 demo_stage rs 14 f = (f', Some (i, ex))"
  by (simp add: appendProposalRecord_def demo_stage_def demo_expiry appendRecord_def Let_def)

lemma demo_staged:
  "\<exists>st' out. stageActionWithConflictCheck False Written 0 no_faults ''h'' 0 demo_stage (demo_queue, st) = (st', Inr out)"
proof -
  obtain f' i ex where "appendProposalRecord Written 0 demo_stage (readRawRecords demo_queue) 14 demo_queue = (f', Some (i, ex))"
    using demo_appended by blast
  then show ?thesis
    by (simp add: stageActionWithConflictCheck_def demo_valid Let_def split: prod.split sum.split)
qed

lemma demo_stale: "map (is_stale 1715800000000) (currentRows demo_queue) = [True]" "map (is_stale 0) (currentRows demo_queue) = [False]"
  by code_simp+

theorem staged_proposal_lands_witness:
  "\<exists>f' (out :: stage_outcome) row. staged_map f' (so_id out) = Some row \<and> sr_status row = ''pending''
     \<and> staged_map demo_queue (so_id out) = None \<and> seq_render ''stage-'' 1 \<in> set (so_conflicts_with out)"
proof -
  obtain st' out where run: "stageActionWithConflictCheck False Written 0 no_faults ''h'' 0 demo_stage (demo_queue, ([], None))
      = (st', Inr out)" using demo_staged by blast
  have "max_suffix ''stage-'' (map rr_id (readRawRecords (fst (demo_queue, ([], None))))) 0 < 2 ^ 53 - 1"
    using demo_suffix by simp
  note all = staged_proposal_lands [OF run _ this, unfolded fst_conv, OF demo_records(2)]
  have st: "sr_status (proposal_row demo_proposal ''promote'') = ''pending''"
      "sr_target_path (proposal_row demo_proposal ''promote'') = js_trim (si_targetPath demo_stage)"
    by (simp_all add: proposal_row_def demo_proposal_def proposal_record_def or_empty_def)
  have "seq_render ''stage-'' 1 \<in> set (so_conflicts_with out)"
    using all demo_map st by blast
  moreover obtain row where "staged_map (fst st') = (staged_map demo_queue)(so_id out \<mapsto> row)" "sr_status row = ''pending''"
    using all by blast
  moreover have "staged_map demo_queue (so_id out) = None" using all by (elim conjE)
  ultimately have "staged_map (fst st') (so_id out) = Some row \<and> sr_status row = ''pending''
     \<and> staged_map demo_queue (so_id out) = None \<and> seq_render ''stage-'' 1 \<in> set (so_conflicts_with out)" by simp
  then show ?thesis by blast
qed

theorem decision_answer_is_reread_witness:
  "\<exists>f' a. getStagedActionById False (seq_render ''stage-'' 1) f' = Inr (Some a) \<and> sa_status a = ''rejected''"
proof -
  let ?d = "\<lparr>di_status = ''rejected'', di_ratifiedAt = ''t'', di_ratifiedBy = ''ann'', di_reason = None, di_decidedByPrincipal = None\<rparr>"
  obtain f' a where run: "recordDecision False Written (seq_render ''stage-'' 1) ?d demo_queue = (f', Inr a)"
    using demo_map by (auto simp: recordDecision_def staged_map_def appendRecord_def Let_def)
  show ?thesis using decision_answer_is_reread [OF run demo_records(2)] by auto
qed

theorem sweep_expires_exactly_due_witness:
  "\<exists>f' ids. sweepExpiredActions False [] 1715800000000 demo_queue = (f', Inr ids)
     \<and> set ids = {i. \<exists>row. staged_map demo_queue i = Some row \<and> is_stale 1715800000000 row}
     \<and> sweepExpiredActions False [] 1715800000000 f' = (f', Inr [])"
proof -
  have total: "\<exists>f' ids. sweep_rows now [] rows acc f = (f', Inr ids)" for now rows acc f
    by (induction rows arbitrary: acc f) (simp_all add: appendRecord_def)
  then have "\<exists>f' ids. sweepExpiredActions False [] 1715800000000 demo_queue = (f', Inr ids)"
    by (simp add: sweepExpiredActions_def)
  then obtain f' ids where run: "sweepExpiredActions False [] 1715800000000 demo_queue = (f', Inr ids)" by blast
  note done1 = spec [OF conjunct2 [OF sweep_expires_exactly_due [OF run demo_records(2)]], of ids, THEN mp, OF refl]
  show ?thesis
    using run conjunct1 [OF conjunct2 [OF done1]] conjunct2 [OF conjunct2 [OF conjunct2 [OF done1]]] by blast
qed

theorem cut_off_append_swallows_next_witness:
  "\<exists>f1 f2 i ex. appendRecord (Torn False) demo_proposal demo_queue = (f1, False)
     \<and> stageAction False Written 0 demo_stage f1 = (f2, Inr (i, ex)) \<and> staged_map f2 = staged_map demo_queue
     \<and> nextStagedId (readRawRecords f2) = i"
proof -
  obtain f1 where f1: "appendRecord (Torn False) demo_proposal demo_queue = (f1, False)"
    by (auto simp: appendRecord_def)
  obtain f2 i ex where run: "stageAction False Written 0 demo_stage f1 = (f2, Inr (i, ex))"
    using demo_appended [of "readRawRecords f1" f1] by (auto simp: stageAction_def demo_valid)
  have "\<not> (\<exists>ls. demo_queue = Some (ls, True))" by (simp add: demo_queue_def)
  from cut_off_append_swallows_next [OF f1 this run] show ?thesis using f1 run by blast
qed

end
