(* ===== verification/Tier0.thy ===== *)
theory Tier0
  imports VaultDocs
begin

text \<open>
  The structural checks and the two ratify gates of \<^verbatim>\<open>src/src/curation/tier0.ts\<close>. A document carries the
  report of its validation. The lemmas show that a gate that passes leaves the vault with no lifecycle conflict it
  did not have before the action.
\<close>

section \<open>Documents with their validation\<close>

record validated_doc = loaded_doc +
  vd_valid :: bool
  vd_issues :: "(string \<times> string) list"

definition doc_status_name :: "doc_status \<Rightarrow> string" where
  "doc_status_name s = (case s of Draft \<Rightarrow> ''draft'' | Canonical \<Rightarrow> ''canonical'' | Deprecated \<Rightarrow> ''deprecated''
     | Superseded \<Rightarrow> ''superseded'' | Archived \<Rightarrow> ''archived'')"

definition CONFLICTING_SOURCE_STATUSES :: "doc_status list" where
  "CONFLICTING_SOURCE_STATUSES = [Draft, Deprecated, Archived]"

definition issues_text :: "validated_doc \<Rightarrow> string" where
  "issues_text d = join_with ''; '' (map (\<lambda>(f, msg). f @ '': '' @ msg) (vd_issues d))"

abbreviation doc_status_of :: "validated_doc \<Rightarrow> doc_status" where
  "doc_status_of d \<equiv> fm_status (ld_frontmatter d)"

abbreviation doc_sources :: "validated_doc \<Rightarrow> string list" where
  "doc_sources d \<equiv> fm_sources (ld_frontmatter d)"

section \<open>The findings\<close>

record tier0_finding =
  t0_path :: string
  t0_detail :: string

record tier0_findings =
  brokenSourceRefs :: "tier0_finding list"
  lifecycleConflicts :: "tier0_finding list"
  schemaInvalid :: "tier0_finding list"
  domainLeaks :: "tier0_finding list"

text \<open>What one source contributes: a broken reference, a conflict, a leak.\<close>

definition broken_one :: "path_indexes \<Rightarrow> validated_doc \<Rightarrow> string \<Rightarrow> string option" where
  "broken_one ix d raw =
     (case resolveVaultSourceRef raw (ld_path d) ix of
        VaultSource explicit None \<Rightarrow> if explicit then Some raw else None
      | _ \<Rightarrow> None)"

definition source_other :: "path_indexes \<Rightarrow> validated_doc \<Rightarrow> string \<Rightarrow> string option" where
  "source_other ix d raw =
     (case resolveVaultSourceRef raw (ld_path d) ix of
        VaultSource _ (Some t) \<Rightarrow> if t = ld_path d then None else Some t
      | _ \<Rightarrow> None)"

definition conflict_status :: "(string, validated_doc) jmap \<Rightarrow> string \<Rightarrow> doc_status option" where
  "conflict_status docByPath t =
     (case map_of docByPath t of
        None \<Rightarrow> None
      | Some d \<Rightarrow> if doc_status_of d \<in> set CONFLICTING_SOURCE_STATUSES then Some (doc_status_of d) else None)"

definition conflict_one ::
    "path_indexes \<Rightarrow> (string, validated_doc) jmap \<Rightarrow> validated_doc \<Rightarrow> string \<Rightarrow> string option" where
  "conflict_one ix docByPath d raw =
     (case source_other ix d raw of
        None \<Rightarrow> None
      | Some t \<Rightarrow>
          if doc_status_of d \<noteq> Canonical then None
          else (case conflict_status docByPath t of
                  None \<Rightarrow> None | Some s \<Rightarrow> Some (t @ '' ('' @ doc_status_name s @ '')'')))"

definition leak_one ::
    "path_indexes \<Rightarrow> (string, validated_doc) jmap \<Rightarrow> validated_doc \<Rightarrow> string \<Rightarrow> string option" where
  "leak_one ix docByPath d raw =
     (case source_other ix d raw of
        None \<Rightarrow> None
      | Some t \<Rightarrow>
          if fm_domain (ld_frontmatter d) = Accumulation
             \<and> map_option (\<lambda>x. fm_domain (ld_frontmatter x)) (map_of docByPath t) = Some Generative
          then Some t else None)"

definition broken_successor :: "path_indexes \<Rightarrow> validated_doc \<Rightarrow> string list" where
  "broken_successor ix d =
     (case fm_superseded_by (ld_frontmatter d) of
        None \<Rightarrow> []
      | Some next1 \<Rightarrow>
          if next1 \<noteq> [] \<and> \<not> is_external next1 \<and> resolveLink ix next1 (ld_path d) \<in> {None, Some []}
          then [''superseded_by: '' @ next1] else [])"

definition doc_broken :: "path_indexes \<Rightarrow> validated_doc \<Rightarrow> string list" where
  "doc_broken ix d = List.map_filter (broken_one ix d) (doc_sources d) @ broken_successor ix d"

definition doc_conflicts_with :: "path_indexes \<Rightarrow> (string, validated_doc) jmap \<Rightarrow> validated_doc \<Rightarrow> string list" where
  "doc_conflicts_with ix docByPath d = List.map_filter (conflict_one ix docByPath d) (doc_sources d)"

definition doc_leaks :: "path_indexes \<Rightarrow> (string, validated_doc) jmap \<Rightarrow> validated_doc \<Rightarrow> string list" where
  "doc_leaks ix docByPath d = List.map_filter (leak_one ix docByPath d) (doc_sources d)"

definition finding_of :: "string \<Rightarrow> validated_doc \<Rightarrow> string list \<Rightarrow> tier0_finding list" where
  "finding_of label d items =
     (if items = [] then [] else [\<lparr>t0_path = ld_path d, t0_detail = label @ join_with '', '' items\<rparr>])"

definition tier0Findings :: "validated_doc list \<Rightarrow> tier0_findings" where
  "tier0Findings docs =
     (let ix = buildPathIndexes (map ld_path docs); docByPath = index_by ld_path docs in
      \<lparr>brokenSourceRefs = concat (map (\<lambda>d. finding_of ''unresolvable reference(s): '' d (doc_broken ix d)) docs),
       lifecycleConflicts = concat (map (\<lambda>d. finding_of ''canonical doc cites non-canonical source(s): '' d
          (doc_conflicts_with ix docByPath d)) docs),
       schemaInvalid = concat (map (\<lambda>d. if vd_valid d then [] else [\<lparr>t0_path = ld_path d, t0_detail = issues_text d\<rparr>]) docs),
       domainLeaks = concat (map (\<lambda>d. finding_of ''accumulation-domain doc cites generative-domain source(s): '' d
          (doc_leaks ix docByPath d)) docs)\<rparr>)"

section \<open>The gates\<close>

record promote_gate =
  pg_violations :: "string list"
  pg_hiddenConflicts :: nat

text \<open>What one source adds to the violations and to the hidden conflicts.\<close>

definition promote_one ::
    "path_indexes \<Rightarrow> (string, validated_doc) jmap \<Rightarrow> (validated_doc \<Rightarrow> bool) option \<Rightarrow> validated_doc \<Rightarrow> string
     \<Rightarrow> promote_gate \<Rightarrow> promote_gate" where
  "promote_one ix docByPath visible target raw g =
     (case resolveVaultSourceRef raw (ld_path target) ix of
        NonVault \<Rightarrow> g
      | VaultSource explicit None \<Rightarrow>
          if explicit then g\<lparr>pg_violations := pg_violations g @ [''unresolvable source: '' @ raw]\<rparr> else g
      | VaultSource explicit (Some resolved) \<Rightarrow>
          if resolved = ld_path target then g
          else (case map_of docByPath resolved of
            None \<Rightarrow> g
          | Some sourceDoc \<Rightarrow>
              if doc_status_of sourceDoc \<notin> set CONFLICTING_SOURCE_STATUSES then g
              else if (case visible of None \<Rightarrow> False | Some v \<Rightarrow> \<not> v sourceDoc)
              then g\<lparr>pg_hiddenConflicts := pg_hiddenConflicts g + 1\<rparr>
              else g\<lparr>pg_violations := pg_violations g
                @ [''source '' @ resolved @ '' is '' @ doc_status_name (doc_status_of sourceDoc)]\<rparr>))"

definition tier0PromoteGate ::
    "validated_doc list \<Rightarrow> string \<Rightarrow> (validated_doc \<Rightarrow> bool) option \<Rightarrow> promote_gate" where
  "tier0PromoteGate docs targetPath visible =
     (case List.find (\<lambda>d. ld_path d = targetPath) docs of
        None \<Rightarrow> \<lparr>pg_violations = [], pg_hiddenConflicts = 0\<rparr>
      | Some target \<Rightarrow>
          (let ix = buildPathIndexes (map ld_path docs); docByPath = index_by ld_path docs;
               start = (if vd_valid target then [] else [''schema-invalid frontmatter ('' @ issues_text target @ '')''])
           in fold (promote_one ix docByPath visible target) (doc_sources target)
                \<lparr>pg_violations = start, pg_hiddenConflicts = 0\<rparr>))"

record deprecate_gate =
  dg_dependents :: "string list"
  dg_hiddenDependents :: nat

definition cites_target :: "path_indexes \<Rightarrow> string \<Rightarrow> validated_doc \<Rightarrow> bool" where
  "cites_target ix targetPath d = list_ex
     (\<lambda>raw. case resolveVaultSourceRef raw (ld_path d) ix of VaultSource _ t \<Rightarrow> t = Some targetPath | NonVault \<Rightarrow> False)
     (doc_sources d)"

definition deprecate_step ::
    "path_indexes \<Rightarrow> string \<Rightarrow> (validated_doc \<Rightarrow> bool) option \<Rightarrow> validated_doc \<Rightarrow> deprecate_gate \<Rightarrow> deprecate_gate" where
  "deprecate_step ix targetPath visible d g =
     (if ld_path d = targetPath \<or> doc_status_of d \<noteq> Canonical \<or> \<not> cites_target ix targetPath d then g
      else if (case visible of None \<Rightarrow> False | Some v \<Rightarrow> \<not> v d)
      then g\<lparr>dg_hiddenDependents := dg_hiddenDependents g + 1\<rparr>
      else g\<lparr>dg_dependents := dg_dependents g @ [ld_path d]\<rparr>)"

definition tier0DeprecateGate ::
    "validated_doc list \<Rightarrow> string \<Rightarrow> (validated_doc \<Rightarrow> bool) option \<Rightarrow> deprecate_gate" where
  "tier0DeprecateGate docs targetPath visible =
     (let ix = buildPathIndexes (map ld_path docs);
          g = fold (deprecate_step ix targetPath visible) docs \<lparr>dg_dependents = [], dg_hiddenDependents = 0\<rparr>
      in g\<lparr>dg_dependents := js_sort (cmp_key (\<lambda>p. p)) (dg_dependents g)\<rparr>)"

section \<open>A gate that passes creates no conflict\<close>

text \<open>The vault after a document has changed its status.\<close>

definition set_status :: "string \<Rightarrow> doc_status \<Rightarrow> validated_doc list \<Rightarrow> validated_doc list" where
  "set_status p s docs =
     map (\<lambda>d. if ld_path d = p then d\<lparr>ld_frontmatter := (ld_frontmatter d)\<lparr>fm_status := s\<rparr>\<rparr> else d) docs"

definition conflicted :: "validated_doc list \<Rightarrow> string set" where
  "conflicted docs = t0_path ` set (lifecycleConflicts (tier0Findings docs))"

definition promote_passes :: "validated_doc list \<Rightarrow> string \<Rightarrow> (validated_doc \<Rightarrow> bool) option \<Rightarrow> bool" where
  "promote_passes docs p visible \<longleftrightarrow>
     (let g = tier0PromoteGate docs p visible in pg_violations g = [] \<and> pg_hiddenConflicts g = 0)"

definition deprecate_passes :: "validated_doc list \<Rightarrow> string \<Rightarrow> (validated_doc \<Rightarrow> bool) option \<Rightarrow> bool" where
  "deprecate_passes docs p visible \<longleftrightarrow>
     (let g = tier0DeprecateGate docs p visible in dg_dependents g = [] \<and> dg_hiddenDependents g = 0)"

abbreviation indexes_of :: "validated_doc list \<Rightarrow> path_indexes" where
  "indexes_of docs \<equiv> buildPathIndexes (map ld_path docs)"

lemma map_filter_none: "List.map_filter f xs = [] \<longleftrightarrow> (\<forall>x \<in> set xs. f x = None)"
  by (auto simp: map_filter_def filter_empty_conv)

lemma finding_path: "t0_path ` set (finding_of l d items) = (if items = [] then {} else {ld_path d})"
  by (simp add: finding_of_def)

text \<open>A document is in conflict when it is canonical and one of its sources is not certified.\<close>

definition bad_source :: "path_indexes \<Rightarrow> (string, validated_doc) jmap \<Rightarrow> validated_doc \<Rightarrow> string \<Rightarrow> bool" where
  "bad_source ix m d raw \<longleftrightarrow> (\<exists>t. source_other ix d raw = Some t \<and> conflict_status m t \<noteq> None)"

lemma conflict_one_none: "conflict_one ix m d raw = None \<longleftrightarrow> \<not> (doc_status_of d = Canonical \<and> bad_source ix m d raw)"
  by (cases "source_other ix d raw") (simp_all add: conflict_one_def bad_source_def split: option.splits)

lemma conflicted_iff:
  "q \<in> conflicted docs \<longleftrightarrow> (\<exists>d \<in> set docs. ld_path d = q \<and> doc_status_of d = Canonical
     \<and> (\<exists>raw \<in> set (doc_sources d). bad_source (indexes_of docs) (index_by ld_path docs) d raw))"
proof -
  have one: "doc_conflicts_with ix m d \<noteq> [] \<longleftrightarrow>
      doc_status_of d = Canonical \<and> (\<exists>raw \<in> set (doc_sources d). bad_source ix m d raw)" for ix m d
    unfolding doc_conflicts_with_def map_filter_none conflict_one_none by blast
  have "conflicted docs = (\<Union>d \<in> set docs. if doc_conflicts_with (indexes_of docs) (index_by ld_path docs) d = []
      then {} else {ld_path d})"
    by (simp add: conflicted_def tier0Findings_def Let_def image_UN finding_path)
  then show ?thesis using one [of "indexes_of docs" "index_by ld_path docs"] by (auto split: if_splits)
qed

lemma set_status_paths: "map ld_path (set_status p s docs) = map ld_path docs"
  by (induction docs) (auto simp: set_status_def)

lemma index_map:
  "(\<And>d. ld_path (f d) = ld_path d) \<Longrightarrow> map_of (index_by ld_path (map f docs)) t = map_option f (map_of (index_by ld_path docs) t)"
  by (induction docs rule: rev_induct) auto

lemma set_status_conflict:
  "conflict_status (index_by ld_path (set_status p s docs)) t =
     (if t = p then (if map_of (index_by ld_path docs) p = None \<or> s \<notin> set CONFLICTING_SOURCE_STATUSES then None else Some s)
      else conflict_status (index_by ld_path docs) t)"
proof -
  let ?f = "\<lambda>d. if ld_path d = p then d\<lparr>ld_frontmatter := (ld_frontmatter d)\<lparr>fm_status := s\<rparr>\<rparr> else d"
  have "map_of (index_by ld_path (map ?f docs)) t = map_option ?f (map_of (index_by ld_path docs) t)"
    by (rule index_map) simp
  moreover have "map_of (index_by ld_path docs) t = Some d \<Longrightarrow> ld_path d = t" for d using index_by_sound by fastforce
  ultimately show ?thesis by (auto simp: set_status_def conflict_status_def split: option.splits)
qed

lemma source_other_path: "source_other ix (d\<lparr>ld_frontmatter := fm\<rparr>) raw = source_other ix d raw"
  by (simp add: source_other_def split: vault_source_resolution.splits option.splits)

text \<open>The gate counts the bad sources and the broken ones.\<close>

definition blocks :: "path_indexes \<Rightarrow> (string, validated_doc) jmap \<Rightarrow> validated_doc \<Rightarrow> string \<Rightarrow> bool" where
  "blocks ix m d raw \<longleftrightarrow> broken_one ix d raw \<noteq> None \<or> bad_source ix m d raw"

definition gate_count :: "promote_gate \<Rightarrow> nat" where
  "gate_count g = length (pg_violations g) + pg_hiddenConflicts g"

lemma promote_one_count:
  "gate_count (promote_one ix m visible d raw g) = gate_count g + (if blocks ix m d raw then 1 else 0)"
  by (auto simp: promote_one_def gate_count_def blocks_def bad_source_def broken_one_def source_other_def conflict_status_def
      split: vault_source_resolution.splits option.splits)

lemma promote_fold_count:
  "gate_count (fold (promote_one ix m visible d) raws g) = gate_count g + length (filter (blocks ix m d) raws)"
  by (induction raws arbitrary: g) (auto simp: promote_one_count)

lemma find_path:
  assumes "distinct (map ld_path docs)" "d \<in> set docs"
  shows "List.find (\<lambda>x. ld_path x = ld_path d) docs = Some d"
  using assms by (induction docs) auto

lemma promote_passes_iff:
  assumes "distinct (map ld_path docs)" "d \<in> set docs" "ld_path d = p"
  shows "promote_passes docs p visible \<longleftrightarrow> vd_valid d \<and>
     (\<forall>raw \<in> set (doc_sources d). \<not> blocks (indexes_of docs) (index_by ld_path docs) d raw)"
proof -
  let ?g = "tier0PromoteGate docs p visible"
  have "gate_count ?g = (if vd_valid d then 0 else 1)
      + length (filter (blocks (indexes_of docs) (index_by ld_path docs) d) (doc_sources d))"
    using find_path [OF assms(1,2)] assms(3)
    by (simp add: tier0PromoteGate_def Let_def promote_fold_count) (simp add: gate_count_def)
  moreover have "promote_passes docs p visible \<longleftrightarrow> gate_count ?g = 0"
    by (simp add: promote_passes_def gate_count_def Let_def)
  ultimately show ?thesis by (auto simp: filter_empty_conv)
qed

lemma deprecate_fold:
  "let g' = fold (deprecate_step ix p visible) docs g in dg_dependents g' = [] \<and> dg_hiddenDependents g' = 0 \<longleftrightarrow>
     dg_dependents g = [] \<and> dg_hiddenDependents g = 0
     \<and> (\<forall>d \<in> set docs. ld_path d = p \<or> doc_status_of d \<noteq> Canonical \<or> \<not> cites_target ix p d)"
proof (induction docs arbitrary: g)
  case Nil
  then show ?case by simp
next
  case (Cons d docs)
  show ?case using Cons [of "deprecate_step ix p visible d g"]
    by (auto simp: Let_def deprecate_step_def)
qed

lemma deprecate_passes_iff:
  "deprecate_passes docs p visible \<longleftrightarrow>
     (\<forall>d \<in> set docs. ld_path d = p \<or> doc_status_of d \<noteq> Canonical \<or> \<not> cites_target (indexes_of docs) p d)"
proof -
  have "js_sort c xs = [] \<longleftrightarrow> xs = []" for c and xs :: "string list" by (metis length_0_conv length_js_sort)
  then show ?thesis
    using deprecate_fold [of "indexes_of docs" p visible docs "\<lparr>dg_dependents = [], dg_hiddenDependents = 0\<rparr>"]
    by (simp add: deprecate_passes_def tier0DeprecateGate_def Let_def)
qed

text \<open>
  C30: a ratify gate that passes creates no lifecycle conflict. The promote gate passes exactly when the
  document is valid, none of its explicit references is broken and it is in no conflict once canonical,
  whoever may see its sources; then no document is in a conflict that it was not in before. When the
  deprecate gate passes, retiring the document puts no document in a new conflict.
\<close>

theorem gates_create_no_conflict:
  assumes "distinct (map ld_path docs)" "d \<in> set docs" "ld_path d = p"
  shows "(promote_passes docs p visible \<longleftrightarrow> vd_valid d \<and> (\<forall>raw \<in> set (doc_sources d). broken_one (indexes_of docs) d raw = None)
            \<and> p \<notin> conflicted (set_status p Canonical docs))
    \<and> (promote_passes docs p visible \<longrightarrow> conflicted (set_status p Canonical docs) \<subseteq> conflicted docs)
    \<and> (deprecate_passes docs p visible \<longrightarrow> conflicted (set_status p Deprecated docs) \<subseteq> conflicted docs)"
proof -
  let ?ix = "indexes_of docs" and ?m = "index_by ld_path docs"
  let ?upd = "\<lambda>s x. if ld_path x = p then x\<lparr>ld_frontmatter := (ld_frontmatter x)\<lparr>fm_status := s\<rparr>\<rparr> else x"
  have unique: "x = d" if "x \<in> set docs" "ld_path x = p" for x
    using assms that by (metis distinct_map inj_on_def)
  have elems: "set (set_status p s docs) = ?upd s ` set docs" for s by (simp add: set_status_def)
  have ix: "indexes_of (set_status p s docs) = ?ix" for s by (simp only: set_status_paths)
  have other: "source_other ix' x raw = Some t \<Longrightarrow> t \<noteq> ld_path x" for ix' x raw t
    by (auto simp: source_other_def split: vault_source_resolution.splits option.splits if_splits)
  have cf: "q \<in> conflicted (set_status p s docs) \<longleftrightarrow> (\<exists>x \<in> set docs. ld_path x = q
      \<and> (if q = p then s else doc_status_of x) = Canonical
      \<and> (\<exists>raw \<in> set (doc_sources x). bad_source ?ix (index_by ld_path (set_status p s docs)) x raw))" for q s
    unfolding conflicted_iff ix elems bex_simps by (auto simp: bad_source_def source_other_path)
  have self: "bad_source ?ix (index_by ld_path (set_status p s docs)) d raw \<longleftrightarrow> bad_source ?ix ?m d raw" for raw s
    unfolding bad_source_def set_status_conflict using other assms(3) by metis
  have keep: "bad_source ?ix (index_by ld_path (set_status p s docs)) x raw \<Longrightarrow> bad_source ?ix ?m x raw
      \<or> s \<in> set CONFLICTING_SOURCE_STATUSES \<and> source_other ?ix x raw = Some p" for x raw s
    unfolding bad_source_def set_status_conflict by (auto split: if_splits)
  have post: "p \<in> conflicted (set_status p Canonical docs) \<longleftrightarrow> (\<exists>raw \<in> set (doc_sources d). bad_source ?ix ?m d raw)"
    unfolding cf using self unique assms(2,3) by (metis (no_types, lifting))
  have exact: "promote_passes docs p visible \<longleftrightarrow> vd_valid d
      \<and> (\<forall>raw \<in> set (doc_sources d). broken_one ?ix d raw = None) \<and> p \<notin> conflicted (set_status p Canonical docs)"
    unfolding promote_passes_iff [OF assms] post blocks_def by auto
  have promote: "q \<in> conflicted docs" if pass: "promote_passes docs p visible" and bad: "q \<in> conflicted (set_status p Canonical docs)" for q
  proof -
    have q: "q \<noteq> p" using pass bad exact by blast
    then obtain x raw where x: "x \<in> set docs" "ld_path x = q" "doc_status_of x = Canonical" "raw \<in> set (doc_sources x)"
        "bad_source ?ix (index_by ld_path (set_status p Canonical docs)) x raw"
      using bad unfolding cf by auto
    have "bad_source ?ix ?m x raw" using keep [OF x(5)] by (simp add: CONFLICTING_SOURCE_STATUSES_def)
    then show ?thesis unfolding conflicted_iff using x by blast
  qed
  have deprecate: "q \<in> conflicted docs"
    if pass: "deprecate_passes docs p visible" and bad: "q \<in> conflicted (set_status p Deprecated docs)" for q
  proof -
    obtain x raw where x: "x \<in> set docs" "ld_path x = q" "(if q = p then Deprecated else doc_status_of x) = Canonical"
        "raw \<in> set (doc_sources x)" "bad_source ?ix (index_by ld_path (set_status p Deprecated docs)) x raw"
      using bad unfolding cf by blast
    then have c: "q \<noteq> p" "doc_status_of x = Canonical" by (auto split: if_splits)
    have "source_other ?ix x raw \<noteq> Some p"
    proof
      assume "source_other ?ix x raw = Some p"
      then obtain e where "resolveVaultSourceRef raw (ld_path x) ?ix = VaultSource e (Some p)"
        by (auto simp: source_other_def split: vault_source_resolution.splits option.splits if_splits)
      then have "cites_target ?ix p x" using x(4) by (auto simp: cites_target_def list_ex_iff intro!: bexI [of _ raw])
      then show False using pass x(1,2) c unfolding deprecate_passes_iff by blast
    qed
    then have "bad_source ?ix ?m x raw" using keep [OF x(5)] by blast
    then show ?thesis unfolding conflicted_iff using x c(2) by blast
  qed
  show ?thesis using exact promote deprecate by blast
qed

definition demo_source :: validated_doc where
  "demo_source = \<lparr>ld_path = ''b.md'', ld_frontmatter = blank_fm, ld_content = [], vd_valid = True, vd_issues = []\<rparr>"

definition demo_citing :: validated_doc where
  "demo_citing = \<lparr>ld_path = ''a.md'', ld_frontmatter = blank_fm\<lparr>fm_sources := [''vault:b.md'']\<rparr>, ld_content = [],
     vd_valid = True, vd_issues = []\<rparr>"

theorem gates_create_no_conflict_witness:
  "\<not> promote_passes [demo_citing, demo_source] ''a.md'' None \<and> deprecate_passes [demo_citing, demo_source] ''b.md'' None
   \<and> ''a.md'' \<in> conflicted (set_status ''a.md'' Canonical [demo_citing, demo_source])"
proof -
  let ?docs = "[demo_citing, demo_source]"
  have d: "distinct (map ld_path ?docs)" by (simp add: demo_citing_def demo_source_def)
  have a: "demo_citing \<in> set ?docs" "ld_path demo_citing = ''a.md''" by (simp_all add: demo_citing_def)
  have b: "vd_valid demo_citing" "\<forall>raw \<in> set (doc_sources demo_citing). broken_one (indexes_of ?docs) demo_citing raw = None"
    "pg_violations (tier0PromoteGate ?docs ''a.md'' None) = [''source b.md is draft'']"
    "dg_dependents (tier0DeprecateGate ?docs ''b.md'' None) = []" "dg_hiddenDependents (tier0DeprecateGate ?docs ''b.md'' None) = 0"
    by code_simp+
  have fails: "\<not> promote_passes ?docs ''a.md'' None" "deprecate_passes ?docs ''b.md'' None"
    using b(3,4,5) by (simp_all add: promote_passes_def deprecate_passes_def Let_def)
  show ?thesis using gates_create_no_conflict [OF d a, of None] b(1,2) fails by blast
qed

end
