(* ===== verification/Ratify.thy ===== *)
theory Ratify
  imports StagedActions Tier0 Access ChainView
begin

text \<open>
  The approve-or-reject gate of the staged-action queue: \<^verbatim>\<open>vaultRatify\<close> in
  \<^verbatim>\<open>src/src/tools/staged-actions.ts\<close>. The arguments are those of the tool after the test for a string
  (\<open>None\<close> is an argument that is missing or of another type). The vault is a state \<open>'v\<close>; the write tools, the
  loader, the validator and the re-pin computation are operations on it, given by an environment. The
  handler reads the queue, then works on the vault, then appends the decision: \<open>ratify_check\<close> and
  \<open>ratify_decide\<close> are the two halves, between which other requests may run, and \<open>vaultRatify\<close> is both
  without an interruption. The lemmas show what an approval requires, that a failed or shadowed one leaves the
  action pending, and what two interleaved requests can do.
\<close>

section \<open>Data\<close>

datatype reason_arg = NoReason | BadReasonType | ReasonText string

record ratify_args =
  ra_id :: "string option"
  ra_decision :: "string option"
  ra_principal :: "string option"
  ra_reason :: reason_arg

datatype ratify_error =
    RatifyDenied
  | ProposeOnlyDenied
  | ArgumentMissing string
  | BadDecision
  | BadReason
  | QueueError staged_error
  | UnknownAction string
  | NotPending string
  | PayloadMissing string
  | DocsUnreadable
  | ConfigUnreadable
  | GateBlocked string
  | RepinFailed
  | NothingRelocated
  | TargetUnreadable
  | NoDispatch string
  | StaleProposal
  | DispatchFailed

text \<open>A call of a write tool, with the arguments the handler passes.\<close>

datatype tool_call =
    CallWrite string json string string "string option" "string option"
  | CallPromote string string
  | CallDeprecate string string string "string option"
  | CallSupersede string string string string
  | CallUnsupersede string string string
  | CallSetConfidence string string string string
  | CallMerge string string string string string "json option"

record write_result =
  wr_commit :: "string option"
  wr_shadow :: bool

datatype write_failure = StaleWrite | OtherFailure

type_synonym props = "(string \<times> json) list"

record 'v ratify_env =
  re_docs :: "'v \<Rightarrow> validated_doc list option"
  re_config :: "'v \<Rightarrow> bool"
  re_raw :: "frontmatter \<Rightarrow> props"
  re_validate :: "props \<Rightarrow> frontmatter \<times> bool \<times> (string \<times> string) list"
  re_repin :: "'v \<Rightarrow> string \<Rightarrow> (string \<times> string) list option"
  re_current :: "'v \<Rightarrow> string \<Rightarrow> (string list \<times> string) option"
  re_dispatch :: "tool_call \<Rightarrow> 'v \<Rightarrow> 'v \<times> (write_failure + write_result)"

record ratify_result =
  rs_action_id :: string
  rs_decision :: string
  rs_applied :: bool
  rs_commit :: "string option"
  rs_shadow :: bool

section \<open>Reading the payload\<close>

definition require_string :: "string \<Rightarrow> string option \<Rightarrow> ratify_error + string" where
  "require_string name v = (case v of None \<Rightarrow> Inl (ArgumentMissing name)
     | Some s \<Rightarrow> if blank s then Inl (ArgumentMissing name) else Inr s)"

text \<open>The properties of a diff: those of an object; an array has none of the names that are read.\<close>

definition diff_props :: "json \<Rightarrow> props" where
  "diff_props d = (case d of JObj kvs \<Rightarrow> kvs | _ \<Rightarrow> [])"

definition prop_string :: "props \<Rightarrow> string \<Rightarrow> string option" where
  "prop_string d k = (case map_of d k of Some (JStr s) \<Rightarrow> Some s | _ \<Rightarrow> None)"

text \<open>A property whose \<^verbatim>\<open>typeof\<close> is \<^verbatim>\<open>object\<close>, not null.\<close>

definition prop_object :: "props \<Rightarrow> string \<Rightarrow> json option" where
  "prop_object d k = (case map_of d k of Some (JObj kvs) \<Rightarrow> Some (JObj kvs) | Some (JArr xs) \<Rightarrow> Some (JArr xs) | _ \<Rightarrow> None)"

definition json_entries :: "json \<Rightarrow> props" where
  "json_entries j = (case j of JObj kvs \<Rightarrow> kvs | JArr xs \<Rightarrow> map (\<lambda>(i, x). (dec i, x)) (enumerate 0 xs) | _ \<Rightarrow> [])"

definition write_payload :: "props \<Rightarrow> ratify_error + json \<times> string" where
  "write_payload d =
     (case prop_object d ''frontmatter'' of
        None \<Rightarrow> Inl (PayloadMissing ''frontmatter'')
      | Some fm \<Rightarrow>
          (case prop_string d ''body'' of None \<Rightarrow> Inl (PayloadMissing ''body'') | Some b \<Rightarrow> Inr (fm, b)))"

text \<open>The payload is merged into the frontmatter on disk: a null deletes a key, a key left out is inherited.\<close>

definition merge_payload :: "props \<Rightarrow> json \<Rightarrow> props" where
  "merge_payload raw payload =
     fold (\<lambda>(k, v) acc. if v = JNull then AList.delete k acc else AList.update k v acc) (json_entries payload) raw"

section \<open>The gates\<close>

definition hidden_text :: "hidden_downstream \<Rightarrow> string" where
  "hidden_text h = (case h of HiddenNone \<Rightarrow> ''none'' | HiddenSome \<Rightarrow> ''some'' | HiddenMany \<Rightarrow> ''many'')"

definition joined_problems :: "string list \<Rightarrow> string option" where
  "joined_problems problems = (if problems = [] then None else Some (join_with ''; '' problems))"

definition promoteGateProblems :: "promote_gate \<Rightarrow> string option" where
  "promoteGateProblems g = joined_problems (pg_violations g
     @ (if pg_hiddenConflicts g > 0
        then [''non-canonical sources hidden from your role: '' @ hidden_text (bucketHiddenDownstream (int (pg_hiddenConflicts g)))]
        else []))"

definition deprecateGateProblems :: "deprecate_gate \<Rightarrow> string option" where
  "deprecateGateProblems g = joined_problems
     ((if dg_dependents g \<noteq> [] then [''cited as a source by canonical: '' @ join_with '', '' (dg_dependents g)] else [])
      @ (if dg_hiddenDependents g > 0
         then [''hidden canonical dependents: '' @ hidden_text (bucketHiddenDownstream (int (dg_hiddenDependents g)))]
         else []))"

definition blocked_by :: "string option \<Rightarrow> ratify_error option" where
  "blocked_by problems = map_option GateBlocked problems"

text \<open>The document a write proposal would leave, spliced in at the end.\<close>

definition post_docs ::
    "validated_doc list \<Rightarrow> string \<Rightarrow> string \<Rightarrow> frontmatter \<times> bool \<times> (string \<times> string) list \<Rightarrow> validated_doc list" where
  "post_docs docs target body post =
     filter (\<lambda>d. ld_path d \<noteq> target) docs
     @ [\<lparr>ld_path = target, ld_frontmatter = fst post, ld_content = body, vd_valid = fst (snd post), vd_issues = snd (snd post)\<rparr>]"

definition write_gate ::
    "'v ratify_env \<Rightarrow> 'v \<Rightarrow> validated_doc list \<Rightarrow> (validated_doc \<Rightarrow> bool) option \<Rightarrow> string \<Rightarrow> json \<times> string
     \<Rightarrow> ratify_error option" where
  "write_gate env v docs visible target payload =
     (let existing = List.find (\<lambda>d. ld_path d = target) docs;
          raw = (case existing of None \<Rightarrow> [] | Some d \<Rightarrow> re_raw env (ld_frontmatter d))
      in if \<not> re_config env v then Some ConfigUnreadable
         else (let post = re_validate env (merge_payload raw (fst payload)) in
               if fm_status (fst post) = Canonical
               then blocked_by (promoteGateProblems (tier0PromoteGate (post_docs docs target (snd payload) post) target visible))
               else if map_option doc_status_of existing = Some Canonical \<and> fm_superseded_by (fst post) \<in> {None, Some []}
               then blocked_by (deprecateGateProblems (tier0DeprecateGate docs target visible))
               else None))"

text \<open>The gate of an approval; \<open>payload\<close> is the payload of a write action.\<close>

definition tier0_gate ::
    "'v ratify_env \<Rightarrow> 'v \<Rightarrow> access_context option \<Rightarrow> staged_action \<Rightarrow> (json \<times> string) option \<Rightarrow> ratify_error option" where
  "tier0_gate env v access action payload =
     (if sa_actionType action \<notin> {''promote'', ''deprecate'', ''write''} then None
      else case re_docs env v of
        None \<Rightarrow> Some DocsUnreadable
      | Some docs \<Rightarrow>
          (let visible = map_option (\<lambda>a d. canRead (ac_role a) (fm_collection (ld_frontmatter d))) access;
               diff = diff_props (sa_proposedDiff action); target = sa_targetPath action
           in case payload of
                Some p \<Rightarrow> write_gate env v docs visible target p
              | None \<Rightarrow>
                  if sa_actionType action = ''promote''
                  then blocked_by (promoteGateProblems (tier0PromoteGate docs target visible))
                  else if prop_string diff ''superseded_by'' = None
                  then blocked_by (deprecateGateProblems (tier0DeprecateGate docs target visible))
                  else None))"

section \<open>The dispatch\<close>

text \<open>The new list of described paths: exact matches are replaced, a later replacement of the same path winning.\<close>

definition repinned :: "(string \<times> string) list \<Rightarrow> string list \<Rightarrow> string list" where
  "repinned replacements describes =
     (let m = foldl (\<lambda>m (old, new1). AList.update old new1 m) [] replacements
      in map (\<lambda>e. case map_of m e of None \<Rightarrow> e | Some x \<Rightarrow> x) describes)"

definition repin_call :: "'v ratify_env \<Rightarrow> 'v \<Rightarrow> staged_action \<Rightarrow> string \<Rightarrow> ratify_error + tool_call" where
  "repin_call env v action principal1 =
     (case re_repin env v (sa_targetPath action) of
        None \<Rightarrow> Inl RepinFailed
      | Some [] \<Rightarrow> Inl NothingRelocated
      | Some replacements \<Rightarrow>
          (case re_current env v (sa_targetPath action) of
             None \<Rightarrow> Inl TargetUnreadable
           | Some (describes, content) \<Rightarrow>
               Inr (CallWrite (sa_targetPath action)
                 (JObj [(''describes'', JArr (map JStr (repinned replacements describes)))]) content principal1
                 (case sa_runId action of None \<Rightarrow> None | Some r \<Rightarrow> if r = [] then None else Some r) None)))"

definition non_empty :: "string option \<Rightarrow> string option" where
  "non_empty v = (case v of None \<Rightarrow> None | Some s \<Rightarrow> if s = [] then None else Some s)"

definition merge_call :: "staged_action \<Rightarrow> props \<Rightarrow> string \<Rightarrow> ratify_error + tool_call" where
  "merge_call action diff principal1 =
     (case (map_of diff ''merge_from'', prop_string diff ''body'') of
        (Some (JArr [JStr a, JStr b]), Some body) \<Rightarrow>
          Inr (CallMerge a b (sa_targetPath action) body principal1 (prop_object diff ''frontmatter''))
      | _ \<Rightarrow> Inl (PayloadMissing ''merge_from''))"

definition plan_call ::
    "'v ratify_env \<Rightarrow> 'v \<Rightarrow> staged_action \<Rightarrow> (json \<times> string) option \<Rightarrow> string \<Rightarrow> ratify_error + tool_call" where
  "plan_call env v action payload principal1 =
     (let kind = sa_actionType action; target = sa_targetPath action; diff = diff_props (sa_proposedDiff action) in
      if kind = ''write'' then
        (case payload of
           None \<Rightarrow> Inl (PayloadMissing ''payload'')
         | Some (fm, body) \<Rightarrow>
             Inr (CallWrite target fm body principal1 (non_empty (sa_runId action)) (non_empty (sa_baseVersion action))))
      else if kind = ''promote'' then Inr (CallPromote target principal1)
      else if kind = ''deprecate'' then
        Inr (CallDeprecate target principal1 (sa_rationale action) (prop_string diff ''superseded_by''))
      else if kind = ''supersede'' then
        (case prop_string diff ''superseded_by'' of
           None \<Rightarrow> Inl (PayloadMissing ''superseded_by'')
         | Some s \<Rightarrow> if blank s then Inl (PayloadMissing ''superseded_by'')
                     else Inr (CallSupersede target s (sa_rationale action) principal1))
      else if kind = ''unsupersede'' then Inr (CallUnsupersede target (sa_rationale action) principal1)
      else if kind = ''confidence-up'' then
        (case prop_string diff ''confidence'' of
           None \<Rightarrow> Inl (PayloadMissing ''confidence'')
         | Some c \<Rightarrow> Inr (CallSetConfidence target c (sa_rationale action) principal1))
      else if kind = ''merge'' then merge_call action diff principal1
      else if kind = ''repin'' then repin_call env v action principal1
      else Inl (NoDispatch kind))"

section \<open>The handler\<close>

record ratify_request =
  rq_action :: staged_action
  rq_id :: string
  rq_approve :: bool
  rq_principal :: string
  rq_reason :: "string option"

definition ratify_arguments :: "access_context option \<Rightarrow> ratify_args \<Rightarrow> ratify_error + string \<times> bool \<times> string \<times> string option" where
  "ratify_arguments access args =
     (if (case access of None \<Rightarrow> False | Some a \<Rightarrow> \<not> canRatify (ac_role a)) then Inl RatifyDenied
      else if (case access of None \<Rightarrow> False | Some a \<Rightarrow> isProposeOnly (ac_role a)) then Inl ProposeOnlyDenied
      else case require_string ''id'' (ra_id args) of
        Inl e \<Rightarrow> Inl e
      | Inr i \<Rightarrow>
          (case require_string ''decision'' (ra_decision args) of
             Inl e \<Rightarrow> Inl e
           | Inr decision \<Rightarrow>
               if decision \<noteq> ''approve'' \<and> decision \<noteq> ''reject'' then Inl BadDecision
               else (case require_string ''principal'' (ra_principal args) of
                  Inl e \<Rightarrow> Inl e
                | Inr p \<Rightarrow>
                    (case ra_reason args of
                       BadReasonType \<Rightarrow> Inl BadReason
                     | NoReason \<Rightarrow> Inr (i, decision = ''approve'', p, None)
                     | ReasonText t \<Rightarrow> Inr (i, decision = ''approve'', p, non_empty (Some (js_trim t)))))))"

definition ratify_check ::
    "bool \<Rightarrow> access_context option \<Rightarrow> ratify_args \<Rightarrow> staged_file option \<Rightarrow> ratify_error + ratify_request" where
  "ratify_check read_fault access args f =
     (case ratify_arguments access args of
        Inl e \<Rightarrow> Inl e
      | Inr (i, approve, p, reason) \<Rightarrow>
          (case getStagedActionById read_fault i f of
             Inl e \<Rightarrow> Inl (QueueError e)
           | Inr None \<Rightarrow> Inl (UnknownAction i)
           | Inr (Some action) \<Rightarrow>
               if sa_status action \<noteq> ''pending'' then Inl (NotPending (sa_status action))
               else Inr \<lparr>rq_action = action, rq_id = i, rq_approve = approve, rq_principal = p, rq_reason = reason\<rparr>))"

definition decision_of :: "access_context option \<Rightarrow> int \<Rightarrow> ratify_request \<Rightarrow> string \<Rightarrow> decision_input" where
  "decision_of access now rq status =
     \<lparr>di_status = status, di_ratifiedAt = toSecondISO now, di_ratifiedBy = rq_principal rq, di_reason = rq_reason rq,
      di_decidedByPrincipal = map_option ac_user access\<rparr>"

definition record_outcome ::
    "bool \<Rightarrow> append_outcome \<Rightarrow> access_context option \<Rightarrow> int \<Rightarrow> ratify_request \<Rightarrow> string \<Rightarrow> ratify_result
     \<Rightarrow> staged_file option \<times> 'v \<Rightarrow> (staged_file option \<times> 'v) \<times> (ratify_error + ratify_result)" where
  "record_outcome read_fault outcome access now rq status result st =
     (case recordDecision read_fault outcome (rq_id rq) (decision_of access now rq status) (fst st) of
        (f', Inl e) \<Rightarrow> ((f', snd st), Inl (QueueError e))
      | (f', Inr _) \<Rightarrow> ((f', snd st), Inr result))"

definition ratify_decide ::
    "'v ratify_env \<Rightarrow> bool \<Rightarrow> append_outcome \<Rightarrow> access_context option \<Rightarrow> int \<Rightarrow> ratify_request
     \<Rightarrow> staged_file option \<times> 'v \<Rightarrow> (staged_file option \<times> 'v) \<times> (ratify_error + ratify_result)" where
  "ratify_decide env read_fault outcome access now rq st =
     (let action = rq_action rq; v = snd st;
          answer = (\<lambda>d applied commit shadow. \<lparr>rs_action_id = rq_id rq, rs_decision = d, rs_applied = applied,
            rs_commit = commit, rs_shadow = shadow\<rparr>)
      in if \<not> rq_approve rq
         then record_outcome read_fault outcome access now rq ''rejected'' (answer ''reject'' False None False) st
         else
           (case (if sa_actionType action = ''write'' then map_sum id Some (write_payload (diff_props (sa_proposedDiff action)))
                  else Inr None) of
              Inl e \<Rightarrow> (st, Inl e)
            | Inr payload \<Rightarrow>
                (case tier0_gate env v access action payload of
                   Some e \<Rightarrow> (st, Inl e)
                 | None \<Rightarrow>
                     (case plan_call env v action payload (rq_principal rq) of
                        Inl e \<Rightarrow> (st, Inl e)
                      | Inr call \<Rightarrow>
                          (case re_dispatch env call v of
                             (v', Inl e) \<Rightarrow> ((fst st, v'), Inl (if e = StaleWrite then StaleProposal else DispatchFailed))
                           | (v', Inr w) \<Rightarrow>
                               if wr_shadow w then ((fst st, v'), Inr (answer ''approve'' False None True))
                               else record_outcome read_fault outcome access now rq ''ratified''
                                      (answer ''approve'' True (non_empty (wr_commit w)) False) (fst st, v'))))))"

definition vaultRatify ::
    "'v ratify_env \<Rightarrow> bool \<Rightarrow> append_outcome \<Rightarrow> access_context option \<Rightarrow> int \<Rightarrow> ratify_args
     \<Rightarrow> staged_file option \<times> 'v \<Rightarrow> (staged_file option \<times> 'v) \<times> (ratify_error + ratify_result)" where
  "vaultRatify env read_fault outcome access now args st =
     (case ratify_check read_fault access args (fst st) of
        Inl e \<Rightarrow> (st, Inl e)
      | Inr rq \<Rightarrow> ratify_decide env read_fault outcome access now rq st)"

section \<open>What an answer means\<close>

definition permitted :: "access_context option \<Rightarrow> bool" where
  "permitted access \<longleftrightarrow> (case access of None \<Rightarrow> True | Some a \<Rightarrow> canRatify (ac_role a) \<and> \<not> isProposeOnly (ac_role a))"

lemma require_string_Inr: "require_string n v = Inr s \<longleftrightarrow> v = Some s \<and> \<not> blank s"
  by (auto simp: require_string_def split: option.splits)

lemma ratify_arguments_Inr:
  assumes "ratify_arguments access args = Inr (i, approve, p, reason)"
  shows "permitted access" "ra_id args = Some i" "approve \<longleftrightarrow> ra_decision args = Some ''approve''"
    "\<not> approve \<longleftrightarrow> ra_decision args = Some ''reject''"
  using assms unfolding ratify_arguments_def permitted_def
  by (auto simp: require_string_Inr split: option.splits if_splits sum.splits reason_arg.splits)

lemma ratify_check_Inr:
  assumes "ratify_check rf access args f = Inr rq"
  obtains row where "permitted access" "ra_id args = Some (rq_id rq)" "staged_map f (rq_id rq) = Some row"
    "sr_status row = ''pending''" "rq_action rq = rowToStagedAction row"
    "rq_approve rq \<longleftrightarrow> ra_decision args = Some ''approve''" "\<not> rq_approve rq \<longleftrightarrow> ra_decision args = Some ''reject''"
proof -
  obtain i approve p reason where a: "ratify_arguments access args = Inr (i, approve, p, reason)"
    using assms unfolding ratify_check_def by (cases "ratify_arguments access args") auto
  note facts = ratify_arguments_Inr [OF a]
  obtain row where row: "staged_map f i = Some row" "sr_status row = ''pending''"
      "rq = \<lparr>rq_action = rowToStagedAction row, rq_id = i, rq_approve = approve, rq_principal = p, rq_reason = reason\<rparr>"
    using assms unfolding ratify_check_def a
    by (auto simp: getStagedActionById_def staged_map_def rowToStagedAction_def split: if_splits option.splits)
  show thesis by (rule that [of row]) (use facts row in simp_all)
qed

lemma record_outcome_cases:
  assumes "record_outcome rf oc access now rq status result (f, v) = ((f', v'), r)" "settled f"
  shows "v' = v" "j \<noteq> rq_id rq \<Longrightarrow> staged_map f' j = staged_map f j"
    "r = Inr res \<Longrightarrow> res = result \<and> (\<exists>row. staged_map f' (rq_id rq) = Some row \<and> sr_status row = status)"
    "r = Inl e \<Longrightarrow> e = QueueError CannotRecord \<or> f' = f"
proof -
  let ?rec = "decision_record (rq_id rq) (decision_of access now rq status)"
  obtain f1 r1 where r1: "recordDecision rf oc (rq_id rq) (decision_of access now rq status) f = (f1, r1)" by (rule prod.exhaust)
  have out: "f' = f1" "v' = v" "r = (case r1 of Inl e \<Rightarrow> Inl (QueueError e) | Inr _ \<Rightarrow> Inr result)"
    using assms(1) r1 by (auto simp: record_outcome_def split: sum.splits)
  show "v' = v" by (rule out(2))
  have cases: "(f1 = f \<and> (r1 = Inl CannotRecord \<or> r1 = Inl (ActionNotFound (rq_id rq))))
    \<or> (\<exists>e w. staged_map f (rq_id rq) = Some e \<and> appendRecord oc ?rec f = (f1, w)
         \<and> r1 = (if w then Inr (rowToStagedAction (decided_row ?rec e)) else Inl CannotRecord))"
    using r1 by (auto simp: recordDecision_def staged_map_def Let_def split: if_splits option.splits prod.splits)
  have app: "staged_map f1 = staged_map f \<or> staged_map f1 = (staged_map f)(rq_id rq \<mapsto> decided_row ?rec e)"
    if "staged_map f (rq_id rq) = Some e" "appendRecord oc ?rec f = (f1, w)" for e w
  proof (cases w)
    case True
    then show ?thesis using decision_effect [OF assms(2), of oc ?rec f1 e] that by (simp add: decision_record_def)
  next
    case False
    then have "readRawRecords f1 = readRawRecords f \<or> readRawRecords f1 = readRawRecords f @ [?rec]"
      using append_failed [OF assms(2)] that(2) by simp
    then show ?thesis
    proof
      assume "readRawRecords f1 = readRawRecords f"
      then have "staged_map f1 = staged_map f" by (simp add: staged_map_def fun_eq_iff)
      then show ?thesis ..
    next
      assume "readRawRecords f1 = readRawRecords f @ [?rec]"
      then have "staged_map f1 = (staged_map f)(rq_id rq \<mapsto> decided_row ?rec e)"
        using that(1) by (simp add: staged_map_def fun_eq_iff collapse_snoc collapse_step_def decision_record_def)
      then show ?thesis ..
    qed
  qed
  show "staged_map f' j = staged_map f j" if "j \<noteq> rq_id rq"
    using cases out(1) app that by (metis fun_upd_other)
  show "res = result \<and> (\<exists>row. staged_map f' (rq_id rq) = Some row \<and> sr_status row = status)" if res: "r = Inr res"
  proof -
    obtain a where a: "r1 = Inr a" "res = result" using res out(3) by (cases r1) auto
    then obtain e where e: "staged_map f (rq_id rq) = Some e" "appendRecord oc ?rec f = (f1, True)"
      using cases by (auto split: if_splits)
    have "staged_map f1 = (staged_map f)(rq_id rq \<mapsto> decided_row ?rec e)"
      using decision_effect [OF assms(2) e(2), of e] e(1) by (simp add: decision_record_def)
    then show ?thesis using a(2) out(1) by (simp add: decided_row_def decision_record_def decision_of_def)
  qed
  show "e = QueueError CannotRecord \<or> f' = f" if "r = Inl e"
    using that out cases by (auto split: sum.splits if_splits)
qed

lemma gate_promote:
  "joined_problems xs = None \<longleftrightarrow> xs = []"
  "promoteGateProblems (tier0PromoteGate docs p vis) = None \<longleftrightarrow> promote_passes docs p vis"
  "deprecateGateProblems (tier0DeprecateGate docs p vis) = None \<longleftrightarrow> deprecate_passes docs p vis"
  by (auto simp: joined_problems_def promoteGateProblems_def deprecateGateProblems_def promote_passes_def
      deprecate_passes_def Let_def)

text \<open>The course of an approval: it stops before the dispatch, in it, after a shadow write, or is recorded.\<close>

definition approval_of ::
    "'v ratify_env \<Rightarrow> access_context option \<Rightarrow> ratify_request \<Rightarrow> 'v \<Rightarrow> ratify_error + tool_call" where
  "approval_of env access rq v =
     (case (if sa_actionType (rq_action rq) = ''write''
            then map_sum id Some (write_payload (diff_props (sa_proposedDiff (rq_action rq)))) else Inr None) of
        Inl e \<Rightarrow> Inl e
      | Inr payload \<Rightarrow>
          (case tier0_gate env v access (rq_action rq) payload of
             Some e \<Rightarrow> Inl e | None \<Rightarrow> plan_call env v (rq_action rq) payload (rq_principal rq)))"

definition answer_of :: "ratify_request \<Rightarrow> string \<Rightarrow> bool \<Rightarrow> string option \<Rightarrow> bool \<Rightarrow> ratify_result" where
  "answer_of rq d applied commit shadow = \<lparr>rs_action_id = rq_id rq, rs_decision = d, rs_applied = applied,
     rs_commit = commit, rs_shadow = shadow\<rparr>"

lemma ratify_decide_eq:
  "ratify_decide env rf oc access now rq st =
     (if \<not> rq_approve rq
      then record_outcome rf oc access now rq ''rejected'' (answer_of rq ''reject'' False None False) st
      else case approval_of env access rq (snd st) of
        Inl e \<Rightarrow> (st, Inl e)
      | Inr call \<Rightarrow>
          (case re_dispatch env call (snd st) of
             (v', Inl e) \<Rightarrow> ((fst st, v'), Inl (if e = StaleWrite then StaleProposal else DispatchFailed))
           | (v', Inr w) \<Rightarrow>
               if wr_shadow w then ((fst st, v'), Inr (answer_of rq ''approve'' False None True))
               else record_outcome rf oc access now rq ''ratified''
                      (answer_of rq ''approve'' True (non_empty (wr_commit w)) False) (fst st, v')))"
  unfolding ratify_decide_def approval_of_def answer_of_def Let_def
  by (simp only: if_distrib) (auto split: sum.split option.split prod.split)

text \<open>An approved promotion or unforwarded deprecation has passed its gate.\<close>

lemma approval_gate:
  assumes "approval_of env access rq v = Inr call" "sa_actionType (rq_action rq) = kind"
  shows "kind = ''promote'' \<Longrightarrow> \<exists>docs. re_docs env v = Some docs \<and> promote_passes docs (sa_targetPath (rq_action rq))
            (map_option (\<lambda>a d. canRead (ac_role a) (fm_collection (ld_frontmatter d))) access)"
    and "kind = ''deprecate'' \<Longrightarrow> prop_string (diff_props (sa_proposedDiff (rq_action rq))) ''superseded_by'' = None \<Longrightarrow>
           \<exists>docs. re_docs env v = Some docs \<and> deprecate_passes docs (sa_targetPath (rq_action rq))
            (map_option (\<lambda>a d. canRead (ac_role a) (fm_collection (ld_frontmatter d))) access)"
proof -
  assume k: "kind = ''promote''"
  have "tier0_gate env v access (rq_action rq) None = None"
    using assms k by (simp add: approval_of_def split: option.splits)
  then show "\<exists>docs. re_docs env v = Some docs \<and> promote_passes docs (sa_targetPath (rq_action rq))
      (map_option (\<lambda>a d. canRead (ac_role a) (fm_collection (ld_frontmatter d))) access)"
    using assms(2) k by (auto simp: tier0_gate_def blocked_by_def gate_promote Let_def split: option.splits)
next
  assume k: "kind = ''deprecate''" "prop_string (diff_props (sa_proposedDiff (rq_action rq))) ''superseded_by'' = None"
  have "tier0_gate env v access (rq_action rq) None = None"
    using assms k by (simp add: approval_of_def split: option.splits)
  then show "\<exists>docs. re_docs env v = Some docs \<and> deprecate_passes docs (sa_targetPath (rq_action rq))
      (map_option (\<lambda>a d. canRead (ac_role a) (fm_collection (ld_frontmatter d))) access)"
    using assms(2) k by (auto simp: tier0_gate_def blocked_by_def gate_promote Let_def split: option.splits)
qed

text \<open>
  C31: what an answer of the gate means. Only a role that may ratify and is not propose-only gets a decision, and only on
  a pending action. An action is marked ratified only after its tool call went through, and, for a promotion,
  after its gate passed; a shadowed approval leaves the queue as it was; a rejection marks the action and leaves the
  vault alone; an error leaves the queue as it was, unless the append itself failed. No other action changes.
\<close>

theorem ratify_answer_meaning:
  assumes "vaultRatify env rf oc access now args (f, v) = ((f', v'), r)" "settled f"
  shows "(\<forall>j. ra_id args \<noteq> Some j \<longrightarrow> staged_map f' j = staged_map f j)
    \<and> (\<forall>e. r = Inl e \<longrightarrow> e = QueueError CannotRecord \<or> f' = f)
    \<and> (\<forall>res. r = Inr res \<longrightarrow> permitted access \<and> ra_id args = Some (rs_action_id res)
         \<and> (\<exists>row. staged_map f (rs_action_id res) = Some row \<and> sr_status row = ''pending''
              \<and> (sr_action_type row = ''promote'' \<and> rs_applied res \<longrightarrow>
                   (\<exists>docs vis. re_docs env v = Some docs \<and> promote_passes docs (sr_target_path row) vis)))
         \<and> (if rs_applied res
            then (\<exists>call w row. re_dispatch env call v = (v', Inr w) \<and> \<not> wr_shadow w
                    \<and> staged_map f' (rs_action_id res) = Some row \<and> sr_status row = ''ratified'')
            else if rs_shadow res then f' = f
            else v' = v \<and> ra_decision args = Some ''reject''
                    \<and> (\<exists>row. staged_map f' (rs_action_id res) = Some row \<and> sr_status row = ''rejected'')))"
proof (cases "ratify_check rf access args f")
  case (Inl e)
  then have "f' = f" "v' = v" "r = Inl e" using assms(1) by (simp_all add: vaultRatify_def)
  then show ?thesis by simp
next
  case (Inr rq)
  obtain row where rq: "permitted access" "ra_id args = Some (rq_id rq)" "staged_map f (rq_id rq) = Some row"
    "sr_status row = ''pending''" "rq_action rq = rowToStagedAction row"
    "\<not> rq_approve rq \<longleftrightarrow> ra_decision args = Some ''reject''"
    using ratify_check_Inr [OF Inr] by metis
  have fields: "sa_actionType (rq_action rq) = sr_action_type row" "sa_targetPath (rq_action rq) = sr_target_path row"
    by (simp_all add: rq(5) rowToStagedAction_def)
  have run: "ratify_decide env rf oc access now rq (f, v) = ((f', v'), r)" using assms(1) Inr by (simp add: vaultRatify_def)
  consider (reject) "\<not> rq_approve rq" | (early) e where "rq_approve rq" "approval_of env access rq v = Inl e"
    | (call) call v1 out where "rq_approve rq" "approval_of env access rq v = Inr call" "re_dispatch env call v = (v1, out)"
    by (cases "approval_of env access rq v") (auto, metis prod.exhaust)
  then show ?thesis
  proof cases
    case reject
    then have rec: "record_outcome rf oc access now rq ''rejected'' (answer_of rq ''reject'' False None False) (f, v) = ((f', v'), r)"
      using run by (simp add: ratify_decide_eq)
    note facts = record_outcome_cases [OF rec assms(2)]
    have "\<forall>j. ra_id args \<noteq> Some j \<longrightarrow> staged_map f' j = staged_map f j" using facts(2) rq(2) by auto
    moreover have "\<forall>e. r = Inl e \<longrightarrow> e = QueueError CannotRecord \<or> f' = f" using facts(4) by blast
    moreover have "rs_action_id res = rq_id rq" "\<not> rs_applied res" "\<not> rs_shadow res"
        "\<exists>row. staged_map f' (rq_id rq) = Some row \<and> sr_status row = ''rejected''" if "r = Inr res" for res
      using facts(3) [OF that] by (auto simp: answer_of_def)
    ultimately show ?thesis using rq facts(1) reject by simp
  next
    case (early e)
    then have "f' = f" "r = Inl e" using run by (simp_all add: ratify_decide_eq)
    then show ?thesis by simp
  next
    case (call call v1 out)
    show ?thesis
    proof (cases out)
      case (Inl e)
      then have "f' = f" "\<exists>e'. r = Inl e'" using run call by (auto simp: ratify_decide_eq)
      then show ?thesis by auto
    next
      case (Inr w)
      show ?thesis
      proof (cases "wr_shadow w")
        case True
        then have "f' = f" "r = Inr (answer_of rq ''approve'' False None True)"
          using run call Inr by (simp_all add: ratify_decide_eq)
        then show ?thesis using rq by (simp add: answer_of_def)
      next
        case False
        then have rec: "record_outcome rf oc access now rq ''ratified''
            (answer_of rq ''approve'' True (non_empty (wr_commit w)) False) (f, v1) = ((f', v'), r)"
          using run call Inr by (simp add: ratify_decide_eq)
        note facts = record_outcome_cases [OF rec assms(2)]
        have "\<forall>j. ra_id args \<noteq> Some j \<longrightarrow> staged_map f' j = staged_map f j" using facts(2) rq(2) by auto
        moreover have "\<forall>e. r = Inl e \<longrightarrow> e = QueueError CannotRecord \<or> f' = f" using facts(4) by blast
        moreover have "rs_action_id res = rq_id rq" "rs_applied res"
            "\<exists>row. staged_map f' (rq_id rq) = Some row \<and> sr_status row = ''ratified''" if "r = Inr res" for res
          using facts(3) [OF that] by (auto simp: answer_of_def)
        moreover have "\<exists>docs vis. re_docs env v = Some docs \<and> promote_passes docs (sr_target_path row) vis"
          if "sr_action_type row = ''promote''"
          using approval_gate(1) [OF call(2) refl] that fields by auto
        moreover have "re_dispatch env call v = (v', Inr w)" using call(3) Inr facts(1) by simp
        ultimately show ?thesis using rq False by auto
      qed
    qed
  qed
qed

text \<open>
  Two requests at once: the status is read before the dispatch is awaited and not again before the
  decision is appended, so a rejection that was read while the action was pending overwrites an approval that
  has been applied in between.
\<close>

theorem late_rejection_overwrites:
  assumes "ratify_check rf access args f0 = Inr rq" "\<not> rq_approve rq"
    and "staged_map f (rq_id rq) = Some row" "sr_status row = ''ratified''" "settled f"
  shows "\<exists>f' res row'. ratify_decide env False Written access now rq (f, v) = ((f', v), Inr res) \<and> \<not> rs_applied res
    \<and> staged_map f' (rq_id rq) = Some row' \<and> sr_status row' = ''rejected''"
proof -
  have "\<exists>f'. record_outcome False Written access now rq ''rejected'' (answer_of rq ''reject'' False None False) (f, v)
      = ((f', v), Inr (answer_of rq ''reject'' False None False))"
    using assms(3) by (simp add: record_outcome_def recordDecision_def staged_map_def appendRecord_def Let_def)
  then obtain f' where rec: "record_outcome False Written access now rq ''rejected'' (answer_of rq ''reject'' False None False) (f, v)
      = ((f', v), Inr (answer_of rq ''reject'' False None False))" by blast
  obtain row' where "staged_map f' (rq_id rq) = Some row'" "sr_status row' = ''rejected''"
    using record_outcome_cases(3) [OF rec assms(5) refl] by blast
  then show ?thesis using rec assms(2) by (simp add: ratify_decide_eq answer_of_def)
qed

section \<open>Examples\<close>

definition demo_env :: "nat ratify_env" where
  "demo_env = \<lparr>re_docs = (\<lambda>v. Some []), re_config = (\<lambda>v. True), re_raw = (\<lambda>fm. []), re_validate = (\<lambda>p. (blank_fm, True, [])),
     re_repin = (\<lambda>v p. None), re_current = (\<lambda>v p. None),
     re_dispatch = (\<lambda>call v. (v + 1, Inr \<lparr>wr_commit = None, wr_shadow = False\<rparr>))\<rparr>"

definition demo_ratify :: ratify_args where
  "demo_ratify = \<lparr>ra_id = Some (seq_render ''stage-'' 1), ra_decision = Some ''approve'', ra_principal = Some ''ann'',
     ra_reason = NoReason\<rparr>"

lemma demo_ratified:
  "\<exists>f' res. vaultRatify demo_env False Written None 0 demo_ratify (demo_queue, 7) = ((f', 8), Inr res) \<and> rs_applied res"
proof -
  have nb: "\<not> blank (seq_render ''stage-'' 1)" "\<not> blank ''approve''" "\<not> blank ''ann''" by code_simp+
  have args: "ratify_arguments None demo_ratify = Inr (seq_render ''stage-'' 1, True, ''ann'', None)"
    using nb by (simp add: ratify_arguments_def demo_ratify_def require_string_def)
  let ?row = "proposal_row demo_proposal ''promote''"
  have row: "sa_status (rowToStagedAction ?row) = ''pending''" "sa_actionType (rowToStagedAction ?row) = ''promote''"
    by (simp_all add: rowToStagedAction_def proposal_row_def demo_proposal_def proposal_record_def)
  have chk: "ratify_check False None demo_ratify demo_queue = Inr \<lparr>rq_action = rowToStagedAction ?row,
      rq_id = seq_render ''stage-'' 1, rq_approve = True, rq_principal = ''ann'', rq_reason = None\<rparr>" (is "_ = Inr ?rq")
    using demo_map args row(1) by (simp add: ratify_check_def getStagedActionById_def staged_map_def)
  have gate: "tier0_gate demo_env v None (rowToStagedAction ?row) None = None" for v
    using row(2) by (simp add: tier0_gate_def demo_env_def blocked_by_def promoteGateProblems_def tier0PromoteGate_def
        joined_problems_def Let_def)
  have "\<exists>call. approval_of demo_env None ?rq 7 = Inr call"
    using row(2) gate by (simp add: approval_of_def plan_call_def)
  then obtain call where "approval_of demo_env None ?rq 7 = Inr call" by blast
  then show ?thesis
    using chk demo_map
    by (simp add: vaultRatify_def ratify_decide_eq demo_env_def record_outcome_def recordDecision_def staged_map_def
        appendRecord_def Let_def answer_of_def)
qed

theorem ratify_answer_meaning_witness:
  "\<exists>f' row. staged_map f' (seq_render ''stage-'' 1) = Some row \<and> sr_status row = ''ratified''"
proof -
  obtain f' res where run: "vaultRatify demo_env False Written None 0 demo_ratify (demo_queue, 7) = ((f', 8), Inr res)"
    and a: "rs_applied res" using demo_ratified by blast
  note all = ratify_answer_meaning [OF run demo_records(2)]
  have "ra_id demo_ratify = Some (rs_action_id res) \<and> (\<exists>row. staged_map f' (rs_action_id res) = Some row \<and> sr_status row = ''ratified'')"
    using all a by auto
  then show ?thesis by (auto simp: demo_ratify_def)
qed

end
