(* ===== verification/ProxyTrust.thy ===== *)
theory ProxyTrust
  imports Daftari_Base
begin

text \<open>
  The client address of a public request, \<^verbatim>\<open>src/src/serve/proxy-trust.ts\<close>. Addresses are strings;
  \<^verbatim>\<open>isIP\<close> of Node is the parameter \<open>isIP\<close>, which gives the family of an address, or 0. Big integers are
  naturals, shifted and combined as in the code. The lemmas show that a CIDR range is an interval of
  addresses and that no part of the forwarded header a client can write decides whom a request is attributed to.
\<close>

unbundle bit_operations_syntax

section \<open>Addresses\<close>

datatype ip_version = V4 | V6

record cidr_range =
  cr_base :: nat
  cr_bits :: nat
  cr_version :: ip_version

definition lower_hex :: "char \<Rightarrow> char" where
  "lower_hex c = (if CHR ''A'' \<le> c \<and> c \<le> CHR ''Z'' then char_of (of_char c + (32 :: nat)) else c)"

definition short_number :: "string \<Rightarrow> bool" where
  "short_number s \<longleftrightarrow> 1 \<le> length s \<and> length s \<le> 3 \<and> list_all is_digit s"

definition normalizeMappedV4 :: "string \<Rightarrow> string" where
  "normalizeMappedV4 ip =
     (let rest = drop 7 ip; parts = split_on (CHR ''.'') rest in
      if map lower_hex (take 7 ip) = ''::ffff:'' \<and> length parts = 4 \<and> list_all short_number parts then rest else ip)"

fun v4_parts :: "string list \<Rightarrow> nat \<Rightarrow> nat option" where
  "v4_parts [] acc = Some acc"
| "v4_parts (p # ps) acc =
     (if \<not> short_number p then None
      else if dec_value p > 255 then None
      else v4_parts ps (push_bit 8 acc OR dec_value p))"

definition ipv4ToBigInt :: "string \<Rightarrow> nat option" where
  "ipv4ToBigInt ip =
     (let parts = split_on (CHR ''.'') ip in if length parts \<noteq> 4 then None else v4_parts parts 0)"

definition hex_digits :: string where "hex_digits = ''0123456789abcdef''"

definition is_hex :: "char \<Rightarrow> bool" where "is_hex c \<longleftrightarrow> lower_hex c \<in> set hex_digits"

definition hex_value :: "string \<Rightarrow> nat" where
  "hex_value s = foldl (\<lambda>a c. 16 * a + length (takeWhile (\<lambda>d. d \<noteq> lower_hex c) hex_digits)) 0 s"

text \<open>Splitting at each \<^verbatim>\<open>::\<close>, from the left.\<close>

fun split_double :: "string \<Rightarrow> string list" where
  "split_double [] = [[]]"
| "split_double [c] = [[c]]"
| "split_double (c # d # cs) =
     (if c = CHR '':'' \<and> d = CHR '':'' then [] # split_double cs
      else (case split_double (d # cs) of [] \<Rightarrow> [[c]] | w # ws \<Rightarrow> (c # w) # ws))"

fun v6_groups :: "string list \<Rightarrow> nat list option" where
  "v6_groups [] = Some []"
| "v6_groups (g # gs) =
     (if CHR ''.'' \<in> set g then
        (if gs \<noteq> [] then None
         else (case ipv4ToBigInt g of
                 None \<Rightarrow> None
               | Some v \<Rightarrow> Some [drop_bit 16 v AND 65535, v AND 65535]))
      else if 1 \<le> length g \<and> length g \<le> 4 \<and> list_all is_hex g
      then map_option ((#) (hex_value g)) (v6_groups gs) else None)"

definition parseGroups :: "string \<Rightarrow> nat list option" where
  "parseGroups segment = (if segment = [] then Some [] else v6_groups (split_on (CHR '':'') segment))"

definition ipv6ToBigInt :: "string \<Rightarrow> nat option" where
  "ipv6ToBigInt ip =
     (let halves = split_double (takeWhile (\<lambda>c. c \<noteq> CHR ''%'') ip) in
      if length halves > 2 then None
      else (case (parseGroups (hd halves), if length halves = 2 then parseGroups (halves ! 1) else Some []) of
              (Some head, Some tail) \<Rightarrow>
                (let filled = length head + length tail;
                     groups = (if length halves = 2 then head @ replicate (8 - filled) 0 @ tail else head)
                 in if (length halves = 2 \<and> filled > 8) \<or> length groups \<noteq> 8 then None
                    else Some (foldl (\<lambda>acc g. push_bit 16 acc OR g) 0 groups))
            | _ \<Rightarrow> None))"

definition ipToBigInt :: "string \<Rightarrow> ip_version \<Rightarrow> nat option" where
  "ipToBigInt ip version = (case version of V4 \<Rightarrow> ipv4ToBigInt ip | V6 \<Rightarrow> ipv6ToBigInt ip)"

definition max_bits :: "ip_version \<Rightarrow> nat" where
  "max_bits v = (case v of V4 \<Rightarrow> 32 | V6 \<Rightarrow> 128)"

definition version_of :: "nat \<Rightarrow> ip_version" where
  "version_of family = (if family = 4 then V4 else V6)"

section \<open>Ranges\<close>

definition prefix_bits :: "string option \<Rightarrow> nat \<Rightarrow> nat option" where
  "prefix_bits raw max1 =
     (case raw of
        None \<Rightarrow> Some max1
      | Some r \<Rightarrow> if \<not> short_number r \<or> dec_value r > max1 then None else Some (dec_value r))"

definition parseCidr :: "(string \<Rightarrow> nat) \<Rightarrow> string \<Rightarrow> cidr_range option" where
  "parseCidr isIP spec =
     (let ipStr = normalizeMappedV4 (takeWhile (\<lambda>c. c \<noteq> CHR ''/'') spec);
          raw = (if CHR ''/'' \<in> set spec then Some (drop 1 (dropWhile (\<lambda>c. c \<noteq> CHR ''/'') spec)) else None);
          family = isIP ipStr; version = version_of family
      in if family = 0 then None
         else (case prefix_bits raw (max_bits version) of
            None \<Rightarrow> None
          | Some bits \<Rightarrow>
              (case ipToBigInt ipStr version of
                 None \<Rightarrow> None
               | Some value1 \<Rightarrow>
                   (let hostBits = max_bits version - bits in
                    Some \<lparr>cr_base = push_bit hostBits (drop_bit hostBits value1), cr_bits = bits, cr_version = version\<rparr>))))"

definition ipInCidr :: "(string \<Rightarrow> nat) \<Rightarrow> string \<Rightarrow> cidr_range \<Rightarrow> bool" where
  "ipInCidr isIP ip cidr =
     (let normalized = normalizeMappedV4 ip; family = isIP normalized; version = version_of family
      in if family = 0 \<or> version \<noteq> cr_version cidr then False
         else (case ipToBigInt normalized version of
            None \<Rightarrow> False
          | Some value1 \<Rightarrow>
              (let hostBits = max_bits version - cr_bits cidr in
               push_bit hostBits (drop_bit hostBits value1) = cr_base cidr)))"

definition ipInAnyCidr :: "(string \<Rightarrow> nat) \<Rightarrow> string \<Rightarrow> cidr_range list \<Rightarrow> bool" where
  "ipInAnyCidr isIP ip cidrs \<longleftrightarrow> list_ex (ipInCidr isIP ip) cidrs"

definition parseTrustedProxies :: "(string \<Rightarrow> nat) \<Rightarrow> string list \<Rightarrow> cidr_range list" where
  "parseTrustedProxies isIP specs = List.map_filter (parseCidr isIP) specs"

section \<open>The client of a request\<close>

text \<open>A header that is absent, given once, or given several times.\<close>

datatype header_value = NoHeader | OneHeader string | ManyHeaders "string list"

definition header_text :: "header_value \<Rightarrow> string option" where
  "header_text h = (case h of NoHeader \<Rightarrow> None | OneHeader s \<Rightarrow> Some s | ManyHeaders ss \<Rightarrow> Some (join_with '','' ss))"

text \<open>One bracket is dropped at each end.\<close>

definition strip_brackets :: "string \<Rightarrow> string" where
  "strip_brackets s =
     (let t = (if take 1 s = ''['' then drop 1 s else s) in if t \<noteq> [] \<and> last t = CHR '']'' then butlast t else t)"

definition header_hops :: "string \<Rightarrow> string list" where
  "header_hops header = filter (\<lambda>hop. hop \<noteq> []) (map (\<lambda>hop. strip_brackets (js_trim hop)) (split_on (CHR '','') header))"

text \<open>The loop from the last hop down: the list is reversed.\<close>

fun hop_loop :: "(string \<Rightarrow> nat) \<Rightarrow> cidr_range list \<Rightarrow> string \<Rightarrow> string list \<Rightarrow> string" where
  "hop_loop isIP trusted fallback [] = fallback"
| "hop_loop isIP trusted fallback (hop # hops) =
     (if isIP (normalizeMappedV4 hop) = 0 then fallback
      else if \<not> ipInAnyCidr isIP hop trusted then hop
      else hop_loop isIP trusted fallback hops)"

definition resolvePublicRemote ::
    "(string \<Rightarrow> nat) \<Rightarrow> string option \<Rightarrow> header_value \<Rightarrow> cidr_range list \<Rightarrow> string" where
  "resolvePublicRemote isIP socketRemote forwardedFor trustedProxies =
     (let fallback = (case socketRemote of None \<Rightarrow> ''unknown'' | Some r \<Rightarrow> r) in
      case socketRemote of
        None \<Rightarrow> fallback
      | Some remote \<Rightarrow>
          if trustedProxies = [] \<or> \<not> ipInAnyCidr isIP remote trustedProxies then fallback
          else (case header_text forwardedFor of
                  None \<Rightarrow> fallback
                | Some header \<Rightarrow> hop_loop isIP trustedProxies fallback (rev (header_hops header))))"

section \<open>A range is an interval\<close>

lemma prefix_interval:
  "push_bit h (drop_bit h v) = push_bit h (drop_bit h b) \<longleftrightarrow>
   push_bit h (drop_bit h b) \<le> v \<and> v < push_bit h (drop_bit h b) + 2 ^ h" for v b :: nat
proof -
  have v: "v = 2 ^ h * (v div 2 ^ h) + v mod 2 ^ h" "v mod 2 ^ h < 2 ^ h" by simp_all
  have "(v div 2 ^ h) * 2 ^ h = (b div 2 ^ h) * 2 ^ h \<longleftrightarrow> (b div 2 ^ h) * 2 ^ h \<le> v \<and> v < (b div 2 ^ h) * 2 ^ h + 2 ^ h"
  proof
    assume "(v div 2 ^ h) * 2 ^ h = (b div 2 ^ h) * 2 ^ h"
    then show "(b div 2 ^ h) * 2 ^ h \<le> v \<and> v < (b div 2 ^ h) * 2 ^ h + 2 ^ h" using v by (metis div_times_less_eq_dividend
      add_less_cancel_left mult.commute nat_add_left_cancel_less)
  next
    assume a: "(b div 2 ^ h) * 2 ^ h \<le> v \<and> v < (b div 2 ^ h) * 2 ^ h + 2 ^ h"
    then have "v div 2 ^ h = b div 2 ^ h"
      by (intro div_nat_eqI) (simp_all add: algebra_simps)
    then show "(v div 2 ^ h) * 2 ^ h = (b div 2 ^ h) * 2 ^ h" by simp
  qed
  then show ?thesis by (simp add: push_bit_eq_mult drop_bit_eq_div)
qed

definition address :: "(string \<Rightarrow> nat) \<Rightarrow> string \<Rightarrow> (ip_version \<times> nat) option" where
  "address isIP ip =
     (let n = normalizeMappedV4 ip; v = version_of (isIP n) in
      if isIP n = 0 then None else map_option (Pair v) (ipToBigInt n v))"

text \<open>
  A CIDR range is an interval. An address is in a range that was parsed exactly when it is of the range's
  version and its number is in the block of \<open>2 ^ (max - bits)\<close> addresses that starts at the base; the address the
  range was written with is in it.
\<close>

theorem cidr_is_interval:
  assumes "parseCidr isIP spec = Some c"
  shows "cr_bits c \<le> max_bits (cr_version c)
    \<and> (\<forall>ip. ipInCidr isIP ip c \<longleftrightarrow> (\<exists>v. address isIP ip = Some (cr_version c, v)
          \<and> cr_base c \<le> v \<and> v < cr_base c + 2 ^ (max_bits (cr_version c) - cr_bits c)))
    \<and> ipInCidr isIP (takeWhile (\<lambda>x. x \<noteq> CHR ''/'') spec) c"
proof -
  obtain v where v: "cr_base c = push_bit (max_bits (cr_version c) - cr_bits c) (drop_bit (max_bits (cr_version c) - cr_bits c) v)"
    and b: "cr_bits c \<le> max_bits (cr_version c)"
    and self: "address isIP (takeWhile (\<lambda>x. x \<noteq> CHR ''/'') spec) = Some (cr_version c, v)"
    using assms by (auto simp: parseCidr_def prefix_bits_def address_def Let_def split: option.splits if_splits)
  have mem: "ipInCidr isIP ip c \<longleftrightarrow> (\<exists>v. address isIP ip = Some (cr_version c, v)
      \<and> push_bit (max_bits (cr_version c) - cr_bits c) (drop_bit (max_bits (cr_version c) - cr_bits c) v) = cr_base c)" for ip
    by (auto simp: ipInCidr_def address_def Let_def split: option.splits if_splits)
  have "ipInCidr isIP (takeWhile (\<lambda>x. x \<noteq> CHR ''/'') spec) c" using self v unfolding mem by simp
  moreover have "ipInCidr isIP ip c \<longleftrightarrow> (\<exists>v. address isIP ip = Some (cr_version c, v)
      \<and> cr_base c \<le> v \<and> v < cr_base c + 2 ^ (max_bits (cr_version c) - cr_bits c))" for ip
    unfolding mem v prefix_interval ..
  ultimately show ?thesis using b by blast
qed

section \<open>The header cannot be forged\<close>

lemma split_on_app: "split_on c (a @ c # b) = split_on c a @ split_on c b"
  by (induction a) (auto split: list.splits)

definition hop_of :: "string \<Rightarrow> string" where
  "hop_of s = strip_brackets (js_trim s)"

lemma header_hops_app: "header_hops (a @ '','' @ b) = header_hops a @ header_hops b"
  by (simp add: header_hops_def split_on_app)

lemma header_hops_joined:
  "ws \<noteq> [] \<Longrightarrow> \<forall>w \<in> set ws. CHR '','' \<notin> set w \<and> hop_of w \<noteq> [] \<Longrightarrow> header_hops (join_with '','' ws) = map hop_of ws"
  unfolding header_hops_def hop_of_def by (subst split_join) (auto simp: filter_id_conv)

lemma hop_loop_skip:
  "\<forall>h \<in> set hs. isIP (normalizeMappedV4 h) \<noteq> 0 \<and> ipInAnyCidr isIP h trusted \<Longrightarrow>
   hop_loop isIP trusted fallback (hs @ rest) = hop_loop isIP trusted fallback rest"
  by (induction hs) auto

lemma trusted_is_ip: "ipInAnyCidr isIP h trusted \<Longrightarrow> isIP (normalizeMappedV4 h) \<noteq> 0"
  by (auto simp: ipInAnyCidr_def list_ex_iff ipInCidr_def Let_def split: if_splits)

text \<open>
  C32: what a client writes does not decide whom its request is attributed to. When the peer is no trusted proxy the
  request is the peer's, whatever the header says. When it is, and the proxies appended the client they saw and
  then each other, the request is that client's, whatever stands before it in the header.
\<close>

theorem client_not_forged:
  assumes "\<forall>w \<in> set (client # proxies). CHR '','' \<notin> set w \<and> hop_of w \<noteq> []"
    and "\<forall>w \<in> set proxies. ipInAnyCidr isIP (hop_of w) trusted"
    and "isIP (normalizeMappedV4 (hop_of client)) \<noteq> 0" "\<not> ipInAnyCidr isIP (hop_of client) trusted"
  shows "(\<not> ipInAnyCidr isIP peer trusted \<longrightarrow> resolvePublicRemote isIP (Some peer) any trusted = peer)
    \<and> (ipInAnyCidr isIP peer trusted \<longrightarrow>
         resolvePublicRemote isIP (Some peer) (OneHeader (forged @ '','' @ join_with '','' (client # proxies))) trusted
           = hop_of client)"
proof -
  have hops: "rev (header_hops (forged @ '','' @ join_with '','' (client # proxies)))
      = rev (map hop_of proxies) @ hop_of client # rev (header_hops forged)"
    using header_hops_joined [of "client # proxies"] assms(1) unfolding header_hops_app by simp
  have "hop_loop isIP trusted fb (rev (map hop_of proxies) @ hop_of client # rest) = hop_of client" for fb rest
  proof -
    have "hop_loop isIP trusted fb (rev (map hop_of proxies) @ hop_of client # rest)
        = hop_loop isIP trusted fb (hop_of client # rest)"
      using assms(2) trusted_is_ip by (intro hop_loop_skip) auto
    then show ?thesis using assms(3,4) by simp
  qed
  then show ?thesis
    using hops by (auto simp: resolvePublicRemote_def header_text_def ipInAnyCidr_def)
qed

section \<open>Examples\<close>

definition demo_isIP :: "string \<Rightarrow> nat" where
  "demo_isIP s = (if ipv4ToBigInt s \<noteq> None then 4 else if ipv6ToBigInt s \<noteq> None then 6 else 0)"

theorem cidr_is_interval_witness:
  "\<exists>c. parseCidr demo_isIP ''10.1.2.3/8'' = Some c \<and> cr_base c = 167772160 \<and> ipInCidr demo_isIP ''10.1.2.3'' c"
proof -
  have p: "parseCidr demo_isIP ''10.1.2.3/8'' = Some \<lparr>cr_base = 167772160, cr_bits = 8, cr_version = V4\<rparr>" by code_simp
  have t: "takeWhile (\<lambda>x. x \<noteq> CHR ''/'') ''10.1.2.3/8'' = ''10.1.2.3''" by code_simp
  have "ipInCidr demo_isIP ''10.1.2.3'' \<lparr>cr_base = 167772160, cr_bits = 8, cr_version = V4\<rparr>"
    using cidr_is_interval [OF p] unfolding t by (elim conjE)
  then show ?thesis using p by simp
qed

theorem client_not_forged_witness:
  "resolvePublicRemote demo_isIP (Some ''10.0.0.2'') (OneHeader ''6.6.6.6,9.9.9.9, 10.0.0.1'')
     (parseTrustedProxies demo_isIP [''10.0.0.0/8'']) = ''9.9.9.9''"
proof -
  let ?t = "parseTrustedProxies demo_isIP [''10.0.0.0/8'']"
  have h: "hop_of ''9.9.9.9'' = ''9.9.9.9''" "hop_of '' 10.0.0.1'' = ''10.0.0.1''" by code_simp+
  have c: "demo_isIP (normalizeMappedV4 ''9.9.9.9'') \<noteq> 0" "\<not> ipInAnyCidr demo_isIP ''9.9.9.9'' ?t"
    "ipInAnyCidr demo_isIP ''10.0.0.1'' ?t" "ipInAnyCidr demo_isIP ''10.0.0.2'' ?t" by code_simp+
  have j: "''6.6.6.6,9.9.9.9, 10.0.0.1'' = ''6.6.6.6'' @ '','' @ join_with '','' (''9.9.9.9'' # ['' 10.0.0.1''])" by simp
  show ?thesis
    using client_not_forged [of "''9.9.9.9''" "['' 10.0.0.1'']" demo_isIP ?t "''10.0.0.2''" NoHeader "''6.6.6.6''"] h c
    unfolding j by simp
qed

end
