(* ===== verification/Edges.thy ===== *)
theory Edges
  imports Complex_Main Dates JsonLines TensionText
begin

text \<open>
  The store of earned derivation edges, \<^verbatim>\<open>src/src/curation/edges.ts\<close>, with its table in
  \<^verbatim>\<open>src/src/storage/index-db.ts\<close>. The log is an append-only file (\<open>JsonLines\<close>); a record has the fields the
  code reads at their declared types. Strength is a real, and \<open>None\<close> is \<^verbatim>\<open>NaN\<close>; \<^verbatim>\<open>localeCompare\<close> is a
  parameter of the listing. The stat of the log, which tells versions of it apart, is a string that the file
  system gives. The lemmas show that trust expires unless it is earned again, that one sitting earns no
  more than its distinct attestations, and that reading through the table gives what the log says.
\<close>

section \<open>Constants and types\<close>

definition EDGE_K_CAP :: nat where "EDGE_K_CAP = 5"
definition EDGE_HALF_LIFE_DAYS :: nat where "EDGE_HALF_LIFE_DAYS = 90"
definition EDGE_TRIGGER_STRENGTH :: real where "EDGE_TRIGGER_STRENGTH = 1 / 2"
definition EDGE_REPLAY_GAP_DAYS :: int where "EDGE_REPLAY_GAP_DAYS = 1"
definition EDGE_AXES :: "string list" where "EDGE_AXES = [''prompt'', ''input-neighborhood'', ''model'']"
definition PREMISE_VOTES :: "string list" where "PREMISE_VOTES = [''from'', ''to'', ''symmetric'']"

datatype edge_status = Candidate | TriggerBearing | Revoked

datatype premise_vote = VoteFrom | VoteTo | VoteSymmetric

datatype direction_verdict = Directed | Symmetric

record raw_edge =
  re_kind :: "string option"
  re_from :: "string option"
  re_to :: "string option"
  re_at :: "string option"
  re_by :: "string option"
  re_blind :: "bool option"
  re_axis :: "string option"
  re_note :: "string option"
  re_reason :: "string option"
  re_premiseVote :: "string option"
  re_model :: "string option"

record edge_state =
  es_fromPath :: string
  es_toPath :: string
  es_seedFrom :: string
  es_seedTo :: string
  es_kSurvived :: nat
  es_firstObserved :: string
  es_lastRederived :: string
  es_observations :: nat
  es_revoked :: bool
  es_contestedAt :: "string option"
  es_contestReason :: "string option"
  es_votedPairs :: "string list"
  es_premiseVotes :: "premise_vote list"

record derived_edge =
  dr_fromPath :: string
  dr_toPath :: string
  dr_strength :: "real option"
  dr_kSurvived :: nat
  dr_firstObserved :: string
  dr_lastRederived :: string
  dr_status :: edge_status
  dr_directionVerdict :: direction_verdict
  dr_observations :: nat
  dr_contestedAt :: "string option"
  dr_contestReason :: "string option"

section \<open>Aging\<close>

definition edge_age :: "int \<Rightarrow> int \<Rightarrow> real" where
  "edge_age t now = max 0 (real_of_int (now - t) / real_of_int MS_PER_DAY)"

definition agedStrength :: "nat \<Rightarrow> string \<Rightarrow> int \<Rightarrow> real option" where
  "agedStrength kSurvived lastRederived now =
     (let k = min kSurvived EDGE_K_CAP in
      if k = 0 then Some 0
      else map_option (\<lambda>t. real k * (1 / 2) powr (edge_age t now / real EDGE_HALF_LIFE_DAYS)) (date_parse lastRederived))"

definition live_status :: "real option \<Rightarrow> edge_status" where
  "live_status strength = (case strength of None \<Rightarrow> Candidate
     | Some s \<Rightarrow> if s \<ge> EDGE_TRIGGER_STRENGTH then TriggerBearing else Candidate)"

section \<open>Collapsing the log\<close>

definition usable_record :: "raw_edge \<Rightarrow> bool" where
  "usable_record r \<longleftrightarrow> re_kind r \<in> {Some ''observe'', Some ''contest''} \<and> re_from r \<noteq> None \<and> re_to r \<noteq> None
     \<and> (case re_at r of None \<Rightarrow> False | Some a \<Rightarrow> date_parse a \<noteq> None)"

definition readEdgeRecords :: "raw_edge jsonl_file option \<Rightarrow> raw_edge list" where
  "readEdgeRecords f = filter usable_record (jsonl_records f)"

definition edgeKey :: "string \<times> string \<Rightarrow> string" where
  "edgeKey p = fst p @ nl # snd p"

definition canonPair :: "string \<Rightarrow> string \<Rightarrow> string \<times> string" where
  "canonPair a b = (if a \<le> b then (a, b) else (b, a))"

definition validPremiseVote :: "string option \<Rightarrow> premise_vote option" where
  "validPremiseVote v = (if v = Some ''from'' then Some VoteFrom else if v = Some ''to'' then Some VoteTo
     else if v = Some ''symmetric'' then Some VoteSymmetric else None)"

definition directionVerdictOf :: "premise_vote list \<Rightarrow> direction_verdict" where
  "directionVerdictOf votes = (if VoteSymmetric \<in> set votes then Symmetric
     else if VoteFrom \<in> set votes \<and> VoteTo \<in> set votes then Symmetric else Directed)"

text \<open>The vote of a record, relative to the sorted pair.\<close>

definition canon_vote :: "raw_edge \<Rightarrow> string \<Rightarrow> string \<Rightarrow> premise_vote option" where
  "canon_vote rec from1 to1 =
     (case validPremiseVote (re_premiseVote rec) of
        None \<Rightarrow> None
      | Some VoteSymmetric \<Rightarrow> Some VoteSymmetric
      | Some v \<Rightarrow> if (if v = VoteTo then to1 else from1) = fst (canonPair from1 to1) then Some VoteFrom else Some VoteTo)"

definition add_to_set :: "'a option \<Rightarrow> 'a list \<Rightarrow> 'a list" where
  "add_to_set v xs = (case v of None \<Rightarrow> xs | Some x \<Rightarrow> if x \<in> set xs then xs else xs @ [x])"

text \<open>The attestation of a blind observation on a known axis: observer, axis and model.\<close>

definition attestation :: "raw_edge \<Rightarrow> string option" where
  "attestation rec =
     (case (re_axis rec, re_by rec) of
        (Some axis, Some by1) \<Rightarrow>
          if re_blind rec = Some True \<and> axis \<in> set EDGE_AXES \<and> by1 \<noteq> []
          then Some (by1 @ nl # axis @ nl # (case re_model rec of None \<Rightarrow> [] | Some m \<Rightarrow> m)) else None
      | _ \<Rightarrow> None)"

definition gap_elapsed :: "string \<Rightarrow> string \<Rightarrow> bool" where
  "gap_elapsed since at1 = (case (date_parse since, date_parse at1) of
     (Some s, Some t) \<Rightarrow> t - s \<ge> EDGE_REPLAY_GAP_DAYS * MS_PER_DAY | _ \<Rightarrow> False)"

definition seed_state :: "raw_edge \<Rightarrow> string \<Rightarrow> string \<Rightarrow> string \<Rightarrow> edge_state" where
  "seed_state rec from1 to1 at1 =
     \<lparr>es_fromPath = fst (canonPair from1 to1), es_toPath = snd (canonPair from1 to1), es_seedFrom = from1, es_seedTo = to1,
      es_kSurvived = 0, es_firstObserved = at1, es_lastRederived = at1, es_observations = 1, es_revoked = False,
      es_contestedAt = None, es_contestReason = None, es_votedPairs = add_to_set (attestation rec) [],
      es_premiseVotes = add_to_set (canon_vote rec from1 to1) []\<rparr>"

definition contest_state :: "raw_edge \<Rightarrow> string \<Rightarrow> edge_state \<Rightarrow> edge_state" where
  "contest_state rec at1 e = e\<lparr>es_revoked := True, es_contestedAt := Some at1, es_contestReason := re_reason rec\<rparr>"

definition count_vote :: "string \<Rightarrow> string \<Rightarrow> edge_state \<Rightarrow> edge_state" where
  "count_vote pair at1 e =
     (if pair \<notin> set (es_votedPairs e) \<or> gap_elapsed (es_lastRederived e) at1
      then e\<lparr>es_votedPairs := add_to_set (Some pair) (es_votedPairs e),
             es_kSurvived := min (es_kSurvived e + 1) EDGE_K_CAP, es_lastRederived := at1\<rparr>
      else e)"

definition observe_state :: "raw_edge \<Rightarrow> string \<Rightarrow> string \<Rightarrow> string \<Rightarrow> edge_state \<Rightarrow> edge_state" where
  "observe_state rec from1 to1 at1 e =
     (let e1 = e\<lparr>es_observations := es_observations e + 1,
                 es_premiseVotes := add_to_set (canon_vote rec from1 to1) (es_premiseVotes e)\<rparr>
      in case attestation rec of None \<Rightarrow> e1 | Some pair \<Rightarrow> count_vote pair at1 e1)"

text \<open>What a record makes of the state of its edge.\<close>

definition next_state :: "raw_edge \<Rightarrow> edge_state option \<Rightarrow> edge_state option" where
  "next_state rec existing =
     (case (re_from rec, re_to rec, re_at rec) of
        (Some from1, Some to1, Some at1) \<Rightarrow>
          if re_kind rec = Some ''contest''
          then (case existing of None \<Rightarrow> None | Some e \<Rightarrow> if es_revoked e then Some e else Some (contest_state rec at1 e))
          else (case existing of
                  None \<Rightarrow> Some (seed_state rec from1 to1 at1)
                | Some e \<Rightarrow> if es_revoked e then Some (seed_state rec from1 to1 at1)
                            else Some (observe_state rec from1 to1 at1 e))
      | _ \<Rightarrow> existing)"

definition record_key :: "raw_edge \<Rightarrow> string" where
  "record_key rec = (case (re_from rec, re_to rec) of (Some a, Some b) \<Rightarrow> edgeKey (canonPair a b) | _ \<Rightarrow> [])"

definition collapseEdge_step :: "(string, edge_state) jmap \<Rightarrow> raw_edge \<Rightarrow> (string, edge_state) jmap" where
  "collapseEdge_step byKey rec =
     (case next_state rec (map_of byKey (record_key rec)) of
        None \<Rightarrow> byKey | Some e \<Rightarrow> AList.update (record_key rec) e byKey)"

definition collapseEdges :: "raw_edge list \<Rightarrow> (string, edge_state) jmap" where
  "collapseEdges records = foldl collapseEdge_step [] records"

text \<open>The orientation of the output: dependent first, premise second.\<close>

definition out_orientation :: "edge_state \<Rightarrow> string \<times> string" where
  "out_orientation e =
     (if directionVerdictOf (es_premiseVotes e) = Symmetric then (es_fromPath e, es_toPath e)
      else if es_premiseVotes e = [] then (es_seedFrom e, es_seedTo e)
      else if VoteFrom \<in> set (es_premiseVotes e) then (es_toPath e, es_fromPath e) else (es_fromPath e, es_toPath e))"

definition deriveEdge :: "edge_state \<Rightarrow> int \<Rightarrow> derived_edge" where
  "deriveEdge e now =
     (let strength = (if es_revoked e then Some 0 else agedStrength (es_kSurvived e) (es_lastRederived e) now) in
      \<lparr>dr_fromPath = fst (out_orientation e), dr_toPath = snd (out_orientation e), dr_strength = strength,
       dr_kSurvived = es_kSurvived e, dr_firstObserved = es_firstObserved e, dr_lastRederived = es_lastRederived e,
       dr_status = (if es_revoked e then Revoked else live_status strength),
       dr_directionVerdict = directionVerdictOf (es_premiseVotes e), dr_observations = es_observations e,
       dr_contestedAt = es_contestedAt e, dr_contestReason = es_contestReason e\<rparr>)"

section \<open>The table\<close>

record edge_row =
  er_from_path :: string
  er_to_path :: string
  er_strength :: "real option"
  er_k_survived :: nat
  er_first_observed :: string
  er_last_rederived :: string
  er_last_age_decay :: string
  er_status :: edge_status
  er_direction_verdict :: direction_verdict
  er_observations :: nat
  er_contested_at :: "string option"
  er_contest_reason :: "string option"

text \<open>The table has the pair of paths as its key; the marker is the stat of the log it was made from.\<close>

type_synonym edge_table = "(string \<times> string, edge_row) jmap"

record edge_index =
  ei_rows :: edge_table
  ei_marker :: "string option"

record edge_log =
  el_file :: "raw_edge jsonl_file option"
  el_stat :: string

definition upsertDerivesFromEdge :: "edge_table \<Rightarrow> edge_row \<Rightarrow> edge_table" where
  "upsertDerivesFromEdge db row = AList.update (er_from_path row, er_to_path row) row db"

definition getDerivesFromEdgePair :: "edge_table \<Rightarrow> string \<Rightarrow> string \<Rightarrow> edge_row option" where
  "getDerivesFromEdgePair db a b = List.find
     (\<lambda>r. (er_from_path r = a \<and> er_to_path r = b) \<or> (er_from_path r = b \<and> er_to_path r = a)) (map snd db)"

record edge_filter =
  ef_fromPath :: "string option"
  ef_toPath :: "string option"
  ef_status :: "edge_status option"

text \<open>A filter that is absent or empty lets everything pass.\<close>

definition path_filter :: "string option \<Rightarrow> string \<Rightarrow> bool" where
  "path_filter f p \<longleftrightarrow> (case f of None \<Rightarrow> True | Some q \<Rightarrow> q = [] \<or> p = q)"

definition listDerivesFromEdgeRows ::
    "edge_table \<Rightarrow> string option \<Rightarrow> string option \<Rightarrow> edge_status list option \<Rightarrow> edge_row list" where
  "listDerivesFromEdgeRows db fromPath toPath statusIn =
     filter (\<lambda>r. path_filter fromPath (er_from_path r) \<and> path_filter toPath (er_to_path r)
        \<and> (case statusIn of None \<Rightarrow> True | Some ss \<Rightarrow> ss = [] \<or> er_status r \<in> set ss)) (map snd db)"

definition row_of_edge :: "string \<Rightarrow> derived_edge \<Rightarrow> edge_row" where
  "row_of_edge at1 e =
     \<lparr>er_from_path = dr_fromPath e, er_to_path = dr_toPath e, er_strength = dr_strength e, er_k_survived = dr_kSurvived e,
      er_first_observed = dr_firstObserved e, er_last_rederived = dr_lastRederived e, er_last_age_decay = at1,
      er_status = dr_status e, er_direction_verdict = dr_directionVerdict e, er_observations = dr_observations e,
      er_contested_at = dr_contestedAt e, er_contest_reason = dr_contestReason e\<rparr>"

definition rebuildEdgesIndexFromStates :: "(string, edge_state) jmap \<Rightarrow> string \<Rightarrow> int \<Rightarrow> edge_index" where
  "rebuildEdgesIndexFromStates states marker now =
     \<lparr>ei_rows = foldl upsertDerivesFromEdge [] (map (\<lambda>e. row_of_edge (toSecondISO now) (deriveEdge e now)) (map snd states)),
      ei_marker = Some marker\<rparr>"

definition rebuildEdgesIndex :: "edge_log \<Rightarrow> int \<Rightarrow> edge_index" where
  "rebuildEdgesIndex l now = rebuildEdgesIndexFromStates (collapseEdges (readEdgeRecords (el_file l))) (el_stat l) now"

definition ensureFreshEdgesIndex :: "edge_log \<Rightarrow> int \<Rightarrow> edge_index \<Rightarrow> edge_index" where
  "ensureFreshEdgesIndex l clock db = (if ei_marker db = Some (el_stat l) then db else rebuildEdgesIndex l clock)"

definition deriveEdgeFromRow :: "edge_row \<Rightarrow> int \<Rightarrow> derived_edge" where
  "deriveEdgeFromRow row now =
     (let revoked = (er_status row = Revoked);
          strength = (if revoked then Some 0 else agedStrength (er_k_survived row) (er_last_rederived row) now) in
      \<lparr>dr_fromPath = er_from_path row, dr_toPath = er_to_path row, dr_strength = strength,
       dr_kSurvived = er_k_survived row, dr_firstObserved = er_first_observed row,
       dr_lastRederived = er_last_rederived row,
       dr_status = (if revoked then Revoked else live_status strength),
       dr_directionVerdict = er_direction_verdict row, dr_observations = er_observations row,
       dr_contestedAt = er_contested_at row, dr_contestReason = er_contest_reason row\<rparr>)"

section \<open>Reading\<close>

definition compareStrength :: "derived_edge \<Rightarrow> derived_edge \<Rightarrow> int" where
  "compareStrength a b = (case (dr_strength a, dr_strength b) of
     (Some x, Some y) \<Rightarrow> if y > x then 1 else if y < x then - 1 else 0 | _ \<Rightarrow> 0)"

definition compareEdges :: "(string \<Rightarrow> string \<Rightarrow> int) \<Rightarrow> derived_edge \<Rightarrow> derived_edge \<Rightarrow> int" where
  "compareEdges localeCompare = cmp_then compareStrength
     (cmp_then (\<lambda>a b. localeCompare (dr_fromPath a) (dr_fromPath b)) (\<lambda>a b. localeCompare (dr_toPath a) (dr_toPath b)))"

definition status_filter :: "edge_status option \<Rightarrow> derived_edge \<Rightarrow> bool" where
  "status_filter f e \<longleftrightarrow> (case f of None \<Rightarrow> True | Some s \<Rightarrow> dr_status e = s)"

definition listEdgesFromLog ::
    "(string \<Rightarrow> string \<Rightarrow> int) \<Rightarrow> edge_log \<Rightarrow> edge_filter \<Rightarrow> int \<Rightarrow> derived_edge list" where
  "listEdgesFromLog localeCompare l f now =
     js_sort (compareEdges localeCompare)
       (filter (status_filter (ef_status f)) (filter (\<lambda>e. path_filter (ef_toPath f) (dr_toPath e))
         (filter (\<lambda>e. path_filter (ef_fromPath f) (dr_fromPath e))
           (map (\<lambda>s. deriveEdge s now) (map snd (collapseEdges (readEdgeRecords (el_file l))))))))"

definition status_prefilter :: "edge_status option \<Rightarrow> edge_status list option" where
  "status_prefilter f = (case f of None \<Rightarrow> None | Some s \<Rightarrow> Some (if s = Revoked then [Revoked] else [Candidate, TriggerBearing]))"

text \<open>
  \<open>None\<close> is an index that cannot be opened; then the log is read. \<open>clock\<close> is the time of the rebuild, which reads the
  clock itself.
\<close>

definition listEdges ::
    "(string \<Rightarrow> string \<Rightarrow> int) \<Rightarrow> edge_log \<Rightarrow> int \<Rightarrow> edge_filter \<Rightarrow> int \<Rightarrow> edge_index option
     \<Rightarrow> edge_index option \<times> derived_edge list" where
  "listEdges localeCompare l clock f now db =
     (case db of
        None \<Rightarrow> (None, listEdgesFromLog localeCompare l f now)
      | Some ix \<Rightarrow>
          (let fresh = ensureFreshEdgesIndex l clock ix;
               edges = map (\<lambda>r. deriveEdgeFromRow r now)
                 (listDerivesFromEdgeRows (ei_rows fresh) (ef_fromPath f) (ef_toPath f) (status_prefilter (ef_status f)))
           in (Some fresh, js_sort (compareEdges localeCompare) (filter (status_filter (ef_status f)) edges))))"

definition getEdge ::
    "edge_log \<Rightarrow> int \<Rightarrow> string \<Rightarrow> string \<Rightarrow> int \<Rightarrow> edge_index option \<Rightarrow> edge_index option \<times> derived_edge option" where
  "getEdge l clock fromPath toPath now db =
     (case db of
        None \<Rightarrow> (None, map_option (\<lambda>s. deriveEdge s now)
           (map_of (collapseEdges (readEdgeRecords (el_file l))) (edgeKey (canonPair fromPath toPath))))
      | Some ix \<Rightarrow>
          (let fresh = ensureFreshEdgesIndex l clock ix in
           (Some fresh, map_option (\<lambda>r. deriveEdgeFromRow r now) (getDerivesFromEdgePair (ei_rows fresh) fromPath toPath))))"

section \<open>Writing\<close>

datatype edge_error =
    EmptyEdgeField string
  | SelfDerivation
  | BadAxis
  | BadTimestamp
  | BadPremiseVote
  | EdgeAppendFailed
  | EdgeReadFailed
  | NoSuchEdge
  | AlreadyRevoked
  | EdgeNotFoundAfterWrite

record observe_input =
  oi_fromPath :: string
  oi_toPath :: string
  oi_observedBy :: string
  oi_blind :: bool
  oi_axis :: "string option"
  oi_note :: "string option"
  oi_premiseVote :: "string option"
  oi_model :: "string option"
  oi_at :: "string option"

record contest_input =
  ci_fromPath :: string
  ci_toPath :: string
  ci_contestedBy :: string
  ci_reason :: string
  ci_at :: "string option"

definition blank_field :: "(string \<times> string) list \<Rightarrow> string option" where
  "blank_field named = map_option fst (List.find (\<lambda>(n, v). js_trim v = []) named)"

definition bad_at :: "string option \<Rightarrow> bool" where
  "bad_at v = (case v of None \<Rightarrow> False | Some a \<Rightarrow> date_parse a = None)"

definition check_observe :: "observe_input \<Rightarrow> edge_error option" where
  "check_observe i =
     (case blank_field [(''fromPath'', oi_fromPath i), (''toPath'', oi_toPath i), (''observedBy'', oi_observedBy i)] of
        Some n \<Rightarrow> Some (EmptyEdgeField n)
      | None \<Rightarrow>
          if js_trim (oi_fromPath i) = js_trim (oi_toPath i) then Some SelfDerivation
          else if (case oi_axis i of None \<Rightarrow> False | Some a \<Rightarrow> a \<notin> set EDGE_AXES) then Some BadAxis
          else if bad_at (oi_at i) then Some BadTimestamp
          else if (case oi_premiseVote i of None \<Rightarrow> False | Some v \<Rightarrow> v \<notin> set PREMISE_VOTES) then Some BadPremiseVote
          else None)"

definition given_text :: "string option \<Rightarrow> string option" where
  "given_text v = (case v of None \<Rightarrow> None | Some s \<Rightarrow> if s = [] then None else Some s)"

definition at_or_now :: "string option \<Rightarrow> int \<Rightarrow> string" where
  "at_or_now v now = (case v of None \<Rightarrow> toSecondISO now | Some a \<Rightarrow> a)"

definition observe_record :: "observe_input \<Rightarrow> int \<Rightarrow> raw_edge" where
  "observe_record i now =
     \<lparr>re_kind = Some ''observe'', re_from = Some (js_trim (oi_fromPath i)), re_to = Some (js_trim (oi_toPath i)),
      re_at = Some (at_or_now (oi_at i) now), re_by = Some (js_trim (oi_observedBy i)), re_blind = Some (oi_blind i),
      re_axis = oi_axis i, re_note = given_text (oi_note i), re_reason = None,
      re_premiseVote = given_text (oi_premiseVote i),
      re_model = given_text (map_option js_trim (oi_model i))\<rparr>"

definition contest_record :: "contest_input \<Rightarrow> int \<Rightarrow> raw_edge" where
  "contest_record i now =
     \<lparr>re_kind = Some ''contest'', re_from = Some (js_trim (ci_fromPath i)), re_to = Some (js_trim (ci_toPath i)),
      re_at = Some (at_or_now (ci_at i) now), re_by = Some (js_trim (ci_contestedBy i)), re_blind = None,
      re_axis = None, re_note = None, re_reason = Some (js_trim (ci_reason i)), re_premiseVote = None, re_model = None\<rparr>"

text \<open>
  An append gives the log another stat; the write-through rebuilds the index when it can be opened. The result is
  read from the log's states.
\<close>

definition append_edge ::
    "append_outcome \<Rightarrow> string \<Rightarrow> bool \<Rightarrow> int \<Rightarrow> raw_edge \<Rightarrow> edge_log \<times> edge_index
     \<Rightarrow> (edge_log \<times> edge_index) \<times> (edge_error + derived_edge)" where
  "append_edge outcome stat1 index_ok now rec st =
     (case appendRecord outcome rec (el_file (fst st)) of
        (f', False) \<Rightarrow> ((\<lparr>el_file = f', el_stat = stat1\<rparr>, snd st), Inl EdgeAppendFailed)
      | (f', True) \<Rightarrow>
          (let l' = \<lparr>el_file = f', el_stat = stat1\<rparr>; states = collapseEdges (readEdgeRecords f');
               ix' = (if index_ok then rebuildEdgesIndexFromStates states stat1 now else snd st)
           in ((l', ix'),
               (case map_of states (record_key rec) of
                  None \<Rightarrow> Inl EdgeNotFoundAfterWrite | Some e \<Rightarrow> Inr (deriveEdge e now)))))"

definition observeEdge ::
    "append_outcome \<Rightarrow> string \<Rightarrow> bool \<Rightarrow> int \<Rightarrow> observe_input \<Rightarrow> edge_log \<times> edge_index
     \<Rightarrow> (edge_log \<times> edge_index) \<times> (edge_error + derived_edge)" where
  "observeEdge outcome stat1 index_ok now i st =
     (case check_observe i of
        Some e \<Rightarrow> (st, Inl e)
      | None \<Rightarrow> append_edge outcome stat1 index_ok now (observe_record i now) st)"

definition contestEdge ::
    "bool \<Rightarrow> append_outcome \<Rightarrow> string \<Rightarrow> bool \<Rightarrow> int \<Rightarrow> contest_input \<Rightarrow> edge_log \<times> edge_index
     \<Rightarrow> (edge_log \<times> edge_index) \<times> (edge_error + derived_edge)" where
  "contestEdge read_fault outcome stat1 index_ok now i st =
     (case blank_field [(''fromPath'', ci_fromPath i), (''toPath'', ci_toPath i), (''contestedBy'', ci_contestedBy i),
          (''reason'', ci_reason i)] of
        Some n \<Rightarrow> (st, Inl (EmptyEdgeField n))
      | None \<Rightarrow>
          if bad_at (ci_at i) then (st, Inl BadTimestamp)
          else if read_fault then (st, Inl EdgeReadFailed)
          else (case map_of (collapseEdges (readEdgeRecords (el_file (fst st)))) (record_key (contest_record i now)) of
             None \<Rightarrow> (st, Inl NoSuchEdge)
           | Some e \<Rightarrow>
               if es_revoked e then (st, Inl AlreadyRevoked)
               else append_edge outcome stat1 index_ok now (contest_record i now) st))"

section \<open>One edge of the log\<close>

text \<open>The state of an edge is the fold of the records with its key.\<close>

definition edge_trail :: "string \<Rightarrow> raw_edge list \<Rightarrow> raw_edge list" where
  "edge_trail k rs = filter (\<lambda>r. record_key r = k) rs"

lemma collapse_edges_snoc: "collapseEdges (rs @ [r]) = collapseEdge_step (collapseEdges rs) r"
  by (simp add: collapseEdges_def)

lemma next_state_None: "next_state r x = None \<Longrightarrow> x = None"
  by (auto simp: next_state_def split: option.splits if_splits)

lemma edge_step_lookup:
  "map_of (collapseEdge_step m r) k = (if record_key r = k then next_state r (map_of m k) else map_of m k)"
  using next_state_None [of r "map_of m (record_key r)"] by (auto simp: collapseEdge_step_def split: option.splits)

lemma edge_of_trail: "map_of (collapseEdges rs) k = fold next_state (edge_trail k rs) None"
  by (induction rs rule: rev_induct) (simp_all add: collapseEdges_def edge_step_lookup edge_trail_def)

lemma trail_induct:
  assumes "fold next_state (edge_trail k rs) None = Some e"
    and "\<And>r a b t. r \<in> set rs \<Longrightarrow> record_key r = k \<Longrightarrow> re_from r = Some a \<Longrightarrow> re_to r = Some b \<Longrightarrow> re_at r = Some t \<Longrightarrow>
          P (seed_state r a b t)"
    and "\<And>r t e. r \<in> set rs \<Longrightarrow> record_key r = k \<Longrightarrow> re_at r = Some t \<Longrightarrow> P e \<Longrightarrow> P (contest_state r t e)"
    and "\<And>r a b t e. r \<in> set rs \<Longrightarrow> record_key r = k \<Longrightarrow> re_from r = Some a \<Longrightarrow> re_to r = Some b \<Longrightarrow> re_at r = Some t \<Longrightarrow>
          P e \<Longrightarrow> P (observe_state r a b t e)"
  shows "P e"
proof -
  have "(case fold next_state rs' None of None \<Rightarrow> True | Some e \<Rightarrow> P e)" if "set rs' \<subseteq> set (edge_trail k rs)" for rs'
    using that
  proof (induction rs' rule: rev_induct)
    case Nil
    then show ?case by simp
  next
    case (snoc r rs')
    have r: "r \<in> set rs" "record_key r = k" using snoc.prems by (auto simp: edge_trail_def)
    define x where "x = fold next_state rs' None"
    have x: "case x of None \<Rightarrow> True | Some e \<Rightarrow> P e" using snoc by (simp add: x_def)
    have "case next_state r x of None \<Rightarrow> True | Some e \<Rightarrow> P e"
      using assms(2-4) r x unfolding next_state_def by (auto split: option.splits)
    then show ?case by (simp add: x_def)
  qed
  from this [of "edge_trail k rs"] show ?thesis using assms(1) by simp
qed

lemma add_to_set_set: "set (add_to_set v xs) = set_option v \<union> set xs"
  by (auto simp: add_to_set_def split: option.split)

lemma add_to_set_distinct: "distinct xs \<Longrightarrow> distinct (add_to_set v xs)"
  by (auto simp: add_to_set_def split: option.split)

section \<open>Trust expires\<close>

lemma last_from_log:
  assumes "map_of (collapseEdges rs) k = Some e"
  shows "\<exists>r \<in> set rs. record_key r = k \<and> re_at r = Some (es_lastRederived e)"
  using assms unfolding edge_of_trail
proof (rule trail_induct)
  fix r a b t and e :: edge_state
  assume r: "r \<in> set rs" "record_key r = k" "re_at r = Some t"
    and IH: "\<exists>r \<in> set rs. record_key r = k \<and> re_at r = Some (es_lastRederived e)"
  have "es_lastRederived (observe_state r a b t e) \<in> {t, es_lastRederived e}"
    by (auto simp: observe_state_def count_vote_def Let_def split: option.splits)
  then show "\<exists>r' \<in> set rs. record_key r' = k \<and> re_at r' = Some (es_lastRederived (observe_state r a b t e))"
    using r IH by auto
qed (auto simp: seed_state_def contest_state_def)

lemma half_powr_small: "(299 :: real) \<le> age \<Longrightarrow> k \<le> 5 \<Longrightarrow> real k * (1 / 2) powr (age / 90) < 1 / 2"
proof -
  assume a: "299 \<le> age" and k: "k \<le> 5"
  have "(10 :: real) ^ 90 < 2 ^ 299" by simp
  then have "((10 :: real) ^ 90) powr (1 / 90) < (2 ^ 299) powr (1 / 90)" by (intro powr_less_mono2) simp_all
  moreover have pow: "(x ^ n) powr y = x powr (real n * y)" if "0 < x" for x y :: real and n
    using that by (simp only: powr_realpow [OF that, symmetric] powr_powr)
  have "((10 :: real) ^ 90) powr (1 / 90) = 10" by (subst pow) simp_all
  moreover have "((2 :: real) ^ 299) powr (1 / 90) = 2 powr (299 / 90)" by (subst pow) simp_all
  ultimately have ten: "10 < (2 :: real) powr (299 / 90)" by simp
  also have "\<dots> \<le> 2 powr (age / 90)" using a by (intro powr_mono) simp_all
  finally have "10 < (2 :: real) powr (age / 90)" .
  then have "(1 / 2 :: real) powr (age / 90) < 1 / 10" by (simp add: powr_divide field_simps)
  moreover have "real k \<le> 5" using k by simp
  ultimately have "real k * (1 / 2) powr (age / 90) \<le> 5 * (1 / 2) powr (age / 90)" "5 * (1 / 2 :: real) powr (age / 90) < 1 / 2"
    by (auto intro: mult_right_mono)
  then show ?thesis by linarith
qed

text \<open>
  C33: trust expires unless it is earned again. Whatever the log holds, an edge none of whose records is younger than
  299 days bears no triggers, however often it survived before.
\<close>

theorem trust_expires:
  assumes "map_of (collapseEdges rs) k = Some e"
    and "\<And>r. r \<in> set rs \<Longrightarrow> record_key r = k \<Longrightarrow>
          \<exists>t. map_option date_parse (re_at r) = Some (Some t) \<and> t + 299 * MS_PER_DAY \<le> now"
  shows "dr_status (deriveEdge e now) \<noteq> TriggerBearing"
proof -
  obtain r where r: "r \<in> set rs" "record_key r = k" "re_at r = Some (es_lastRederived e)" using last_from_log [OF assms(1)] by blast
  then obtain t where t: "date_parse (es_lastRederived e) = Some t" "t + 299 * MS_PER_DAY \<le> now" using assms(2) [OF r(1,2)] by auto
  have "299 * MS_PER_DAY \<le> now - t" using t(2) by simp
  then have "real_of_int (299 * MS_PER_DAY) / real_of_int MS_PER_DAY \<le> real_of_int (now - t) / real_of_int MS_PER_DAY"
    by (intro divide_right_mono) (simp_all only: of_int_le_iff, simp add: MS_PER_DAY_def)
  then have "299 \<le> edge_age t now" by (simp add: edge_age_def MS_PER_DAY_def)
  then have "real (min (es_kSurvived e) 5) * (1 / 2) powr (edge_age t now / 90) < 1 / 2" by (rule half_powr_small) simp
  then have "\<not> EDGE_TRIGGER_STRENGTH \<le> real (min (es_kSurvived e) EDGE_K_CAP) * (1 / 2) powr (edge_age t now / real EDGE_HALF_LIFE_DAYS)"
    by (simp add: EDGE_TRIGGER_STRENGTH_def EDGE_K_CAP_def EDGE_HALF_LIFE_DAYS_def not_le)
  then show ?thesis
    by (simp add: deriveEdge_def agedStrength_def live_status_def t(1) Let_def EDGE_TRIGGER_STRENGTH_def [symmetric])
      (simp add: EDGE_TRIGGER_STRENGTH_def)
qed

section \<open>One sitting\<close>

text \<open>
  C34: one sitting earns no more than its distinct attestations. When all records of an edge lie within less than a day,
  the edge survived at most as often as there are different attestations (observer, axis and model) among
  them, and never more than five times.
\<close>

theorem sitting_votes_bounded:
  assumes "map_of (collapseEdges rs) k = Some e"
    and "\<And>r r'. r \<in> set rs \<Longrightarrow> r' \<in> set rs \<Longrightarrow> record_key r = k \<Longrightarrow> record_key r' = k \<Longrightarrow>
          \<exists>a b. re_at r = Some a \<and> re_at r' = Some b \<and> \<not> gap_elapsed a b"
  shows "es_kSurvived e \<le> card {p. \<exists>r \<in> set rs. record_key r = k \<and> attestation r = Some p} \<and> es_kSurvived e \<le> 5"
proof -
  let ?A = "{p. \<exists>r \<in> set rs. record_key r = k \<and> attestation r = Some p}"
  have fin: "finite ?A"
  proof (rule finite_subset)
    show "?A \<subseteq> (\<lambda>r. the (attestation r)) ` set rs" by force
  qed simp
  have "es_kSurvived e \<le> length (es_votedPairs e) \<and> distinct (es_votedPairs e) \<and> set (es_votedPairs e) \<subseteq> ?A
      \<and> es_kSurvived e \<le> 5 \<and> (\<exists>r \<in> set rs. record_key r = k \<and> re_at r = Some (es_lastRederived e))"
    using assms(1) unfolding edge_of_trail
  proof (rule trail_induct)
    fix r a b t
    assume r: "r \<in> set rs" "record_key r = k" "re_at r = Some t"
    show "es_kSurvived (seed_state r a b t) \<le> length (es_votedPairs (seed_state r a b t))
      \<and> distinct (es_votedPairs (seed_state r a b t)) \<and> set (es_votedPairs (seed_state r a b t)) \<subseteq> ?A
      \<and> es_kSurvived (seed_state r a b t) \<le> 5
      \<and> (\<exists>r' \<in> set rs. record_key r' = k \<and> re_at r' = Some (es_lastRederived (seed_state r a b t)))"
      using r by (auto simp: seed_state_def add_to_set_distinct add_to_set_set)
  next
    fix r a b t and e :: edge_state
    assume r: "r \<in> set rs" "record_key r = k" "re_at r = Some t"
      and IH: "es_kSurvived e \<le> length (es_votedPairs e) \<and> distinct (es_votedPairs e) \<and> set (es_votedPairs e) \<subseteq> ?A
        \<and> es_kSurvived e \<le> 5 \<and> (\<exists>r \<in> set rs. record_key r = k \<and> re_at r = Some (es_lastRederived e))"
    define e1 where "e1 = e\<lparr>es_observations := es_observations e + 1,
      es_premiseVotes := add_to_set (canon_vote r a b) (es_premiseVotes e)\<rparr>"
    have IH1: "es_kSurvived e1 \<le> length (es_votedPairs e1)" "distinct (es_votedPairs e1)" "set (es_votedPairs e1) \<subseteq> ?A"
      "es_kSurvived e1 \<le> 5" "\<exists>r \<in> set rs. record_key r = k \<and> re_at r = Some (es_lastRederived e1)"
      using IH by (simp_all add: e1_def)
    show "es_kSurvived (observe_state r a b t e) \<le> length (es_votedPairs (observe_state r a b t e))
      \<and> distinct (es_votedPairs (observe_state r a b t e)) \<and> set (es_votedPairs (observe_state r a b t e)) \<subseteq> ?A
      \<and> es_kSurvived (observe_state r a b t e) \<le> 5
      \<and> (\<exists>r' \<in> set rs. record_key r' = k \<and> re_at r' = Some (es_lastRederived (observe_state r a b t e)))"
    proof (cases "attestation r")
      case None
      then show ?thesis using IH by (simp add: observe_state_def)
    next
      case (Some p)
      have obs: "observe_state r a b t e = count_vote p t e1" using Some by (simp add: observe_state_def e1_def)
      have "\<not> gap_elapsed (es_lastRederived e1) t" using IH1(5) r assms(2) by fastforce
      moreover have "p \<in> ?A" using r Some by blast
      ultimately show ?thesis
        using IH1 r unfolding obs count_vote_def by (auto simp: add_to_set_def EDGE_K_CAP_def)
    qed
  qed (auto simp: contest_state_def)
  then have v: "es_kSurvived e \<le> length (es_votedPairs e)" "distinct (es_votedPairs e)" "set (es_votedPairs e) \<subseteq> ?A"
      "es_kSurvived e \<le> 5" by blast+
  have "length (es_votedPairs e) \<le> card ?A" using card_mono [OF fin v(3)] distinct_card [OF v(2)] by simp
  then show ?thesis using v(1,4) by simp
qed

section \<open>Reading through the table\<close>

text \<open>
  The table holds the log: its rows were made from the states of the log at some time. An index is coherent when its
  marker, if it is the stat of the log, does not lie.
\<close>

definition coherent :: "edge_log \<Rightarrow> edge_index \<Rightarrow> bool" where
  "coherent l ix \<longleftrightarrow> (ei_marker ix = Some (el_stat l) \<longrightarrow>
     (\<exists>t. ei_rows ix = ei_rows (rebuildEdgesIndex l t)))"

text \<open>The endpoints of a state are its seed's, sorted, and its key is theirs.\<close>

definition sound_state :: "string \<Rightarrow> edge_state \<Rightarrow> bool" where
  "sound_state k e \<longleftrightarrow> canonPair (es_seedFrom e) (es_seedTo e) = (es_fromPath e, es_toPath e)
     \<and> es_fromPath e \<le> es_toPath e \<and> edgeKey (es_fromPath e, es_toPath e) = k"

lemma canonPair_sorted: "fst (canonPair a b) \<le> snd (canonPair a b)"
  by (auto simp: canonPair_def)

lemma canonPair_flip: "canonPair a b = canonPair b a"
  by (auto simp: canonPair_def)

lemma sound_trail:
  assumes "map_of (collapseEdges rs) k = Some e"
  shows "sound_state k e \<and> (\<exists>r \<in> set rs. re_from r = Some (es_seedFrom e) \<and> re_to r = Some (es_seedTo e))"
  using assms unfolding edge_of_trail
proof (rule trail_induct)
  fix r a b t
  assume "r \<in> set rs" "record_key r = k" "re_from r = Some a" "re_to r = Some b"
  then show "sound_state k (seed_state r a b t)
    \<and> (\<exists>r' \<in> set rs. re_from r' = Some (es_seedFrom (seed_state r a b t)) \<and> re_to r' = Some (es_seedTo (seed_state r a b t)))"
    by (auto simp: sound_state_def seed_state_def record_key_def canonPair_sorted)
next
  fix r a b t and e :: edge_state
  assume IH: "sound_state k e \<and> (\<exists>r \<in> set rs. re_from r = Some (es_seedFrom e) \<and> re_to r = Some (es_seedTo e))"
  have "es_fromPath (observe_state r a b t e) = es_fromPath e" "es_toPath (observe_state r a b t e) = es_toPath e"
    "es_seedFrom (observe_state r a b t e) = es_seedFrom e" "es_seedTo (observe_state r a b t e) = es_seedTo e"
    by (simp_all add: observe_state_def count_vote_def Let_def split: option.split)
  then show "sound_state k (observe_state r a b t e) \<and> (\<exists>r' \<in> set rs. re_from r' = Some (es_seedFrom (observe_state r a b t e))
      \<and> re_to r' = Some (es_seedTo (observe_state r a b t e)))"
    using IH by (simp add: sound_state_def)
qed (auto simp: sound_state_def contest_state_def)

lemma collapse_edges_distinct: "distinct (jkeys (collapseEdges rs))"
  by (induction rs rule: rev_induct) (auto simp: collapseEdges_def collapseEdge_step_def distinct_jkeys_update split: option.split)

lemma edge_entry: "(k, e) \<in> set (collapseEdges rs) \<Longrightarrow> map_of (collapseEdges rs) k = Some e"
  using collapse_edges_distinct by simp

lemma orientation_pair:
  "sound_state k e \<Longrightarrow> canonPair (fst (out_orientation e)) (snd (out_orientation e)) = (es_fromPath e, es_toPath e)"
  by (auto simp: sound_state_def out_orientation_def canonPair_def split: if_splits)

lemma update_new: "k \<notin> set (jkeys m) \<Longrightarrow> AList.update k v m = m @ [(k, v)]"
  by (induction m) auto

lemma index_by_distinct: "distinct (map f xs) \<Longrightarrow> index_by f xs = map (\<lambda>x. (f x, x)) xs"
proof (induction xs rule: rev_induct)
  case (snoc x xs)
  show ?case using snoc update_new [of "f x" "map (\<lambda>x. (f x, x)) xs" x] by (simp add: image_image)
qed simp

definition log_states :: "edge_log \<Rightarrow> edge_state list" where
  "log_states l = map snd (collapseEdges (readEdgeRecords (el_file l)))"

lemma rebuilt_rows:
  "map snd (ei_rows (rebuildEdgesIndex l t)) = map (\<lambda>e. row_of_edge (toSecondISO t) (deriveEdge e t)) (log_states l)"
proof -
  let ?c = "collapseEdges (readEdgeRecords (el_file l))"
  let ?rows = "map (\<lambda>e. row_of_edge (toSecondISO t) (deriveEdge e t)) (log_states l)"
  let ?key = "\<lambda>r. (er_from_path r, er_to_path r)"
  have key: "?key (row_of_edge s (deriveEdge e t)) = out_orientation e" for e s
    by (simp add: row_of_edge_def deriveEdge_def Let_def)
  have "distinct (map (\<lambda>(k, e). out_orientation e) ?c)"
  proof -
    have "inj_on (\<lambda>(k, e). out_orientation e) (set ?c)"
    proof (rule inj_onI, clarify)
      fix k e k' e'
      assume in1: "(k, e) \<in> set ?c" "(k', e') \<in> set ?c" and eq: "out_orientation e = out_orientation e'"
      have s: "sound_state k e" "sound_state k' e'" using in1 edge_entry sound_trail by blast+
      then have "(es_fromPath e, es_toPath e) = (es_fromPath e', es_toPath e')" using orientation_pair eq by metis
      then have k: "k = k'" using s by (simp add: sound_state_def)
      have "map_of ?c k = Some e" "map_of ?c k' = Some e'" using in1 edge_entry by blast+
      then show "k = k' \<and> e = e'" using k by simp
    qed
    moreover have "distinct ?c" using collapse_edges_distinct distinct_map by blast
    ultimately show ?thesis by (simp add: distinct_map)
  qed
  then have "distinct (map ?key ?rows)" by (simp add: log_states_def key o_def case_prod_unfold)
  then have "index_by ?key ?rows = map (\<lambda>x. (?key x, x)) ?rows" by (rule index_by_distinct)
  moreover have "ei_rows (rebuildEdgesIndex l t) = index_by ?key ?rows"
    by (simp add: rebuildEdgesIndex_def rebuildEdgesIndexFromStates_def index_by_def upsertDerivesFromEdge_def [abs_def] log_states_def)
  ultimately show ?thesis by (simp add: o_def)
qed

text \<open>A row gives back the edge, whenever it was written.\<close>

lemma row_roundtrip: "deriveEdgeFromRow (row_of_edge s (deriveEdge e t)) now = deriveEdge e now"
proof -
  have "live_status x \<noteq> Revoked" for x by (simp add: live_status_def split: option.split)
  then show ?thesis by (simp add: deriveEdgeFromRow_def row_of_edge_def deriveEdge_def Let_def)
qed

lemma row_status: "er_status (row_of_edge s (deriveEdge e t)) = Revoked \<longleftrightarrow> dr_status (deriveEdge e now) = Revoked"
  by (simp add: row_of_edge_def deriveEdge_def live_status_def Let_def split: option.split)

lemma row_paths: "er_from_path (row_of_edge s (deriveEdge e t)) = dr_fromPath (deriveEdge e now)"
    "er_to_path (row_of_edge s (deriveEdge e t)) = dr_toPath (deriveEdge e now)"
  by (simp_all add: row_of_edge_def deriveEdge_def Let_def)

lemma fresh_rows:
  assumes "coherent l ix"
  obtains t where "map snd (ei_rows (ensureFreshEdgesIndex l clock ix))
    = map (\<lambda>e. row_of_edge (toSecondISO t) (deriveEdge e t)) (log_states l)"
proof (cases "ei_marker ix = Some (el_stat l)")
  case True
  then obtain t where "ei_rows ix = ei_rows (rebuildEdgesIndex l t)" using assms by (auto simp: coherent_def)
  then show ?thesis using that [of t] True by (simp add: ensureFreshEdgesIndex_def rebuilt_rows)
next
  case False
  then show ?thesis using that [of clock] by (simp add: ensureFreshEdgesIndex_def rebuilt_rows)
qed

lemma fresh_coherent: "coherent l ix \<Longrightarrow> coherent l (ensureFreshEdgesIndex l clock ix)"
  by (auto simp: coherent_def ensureFreshEdgesIndex_def rebuildEdgesIndex_def rebuildEdgesIndexFromStates_def)

text \<open>
  C35: the table is only a cache. Reading the edges through a coherent index, fresh or stale, and whatever the
  filter, gives the edges that the log gives at that time, and leaves the index coherent.
\<close>

theorem index_read_is_log_read:
  assumes "coherent l ix"
  shows "snd (listEdges lc l clock f now (Some ix)) = listEdgesFromLog lc l f now
    \<and> coherent l (the (fst (listEdges lc l clock f now (Some ix))))"
proof -
  obtain t where rows: "map snd (ei_rows (ensureFreshEdgesIndex l clock ix))
      = map (\<lambda>e. row_of_edge (toSecondISO t) (deriveEdge e t)) (log_states l)" using fresh_rows [OF assms] .
  let ?row = "\<lambda>e. row_of_edge (toSecondISO t) (deriveEdge e t)"
  let ?keep = "\<lambda>e. path_filter (ef_fromPath f) (dr_fromPath e) \<and> path_filter (ef_toPath f) (dr_toPath e) \<and> status_filter (ef_status f) e"
  have pre: "status_filter (ef_status f) (deriveEdge e now) \<Longrightarrow>
      (case status_prefilter (ef_status f) of None \<Rightarrow> True | Some ss \<Rightarrow> ss = [] \<or> er_status (?row e) \<in> set ss)" for e
    using row_status [of "toSecondISO t" e t now]
    by (cases "er_status (?row e)") (auto simp: status_filter_def status_prefilter_def split: option.splits)
  have "filter (status_filter (ef_status f)) (map (\<lambda>r. deriveEdgeFromRow r now)
      (listDerivesFromEdgeRows (ei_rows (ensureFreshEdgesIndex l clock ix)) (ef_fromPath f) (ef_toPath f)
        (status_prefilter (ef_status f)))) = filter ?keep (map (\<lambda>s. deriveEdge s now) (log_states l))"
    unfolding listDerivesFromEdgeRows_def rows filter_map map_map o_def row_roundtrip filter_filter row_paths [of _ _ _ now]
    using pre by (intro arg_cong2 [where f = map] filter_cong refl) blast
  moreover have "filter (status_filter (ef_status f)) (filter (\<lambda>e. path_filter (ef_toPath f) (dr_toPath e))
         (filter (\<lambda>e. path_filter (ef_fromPath f) (dr_fromPath e)) xs)) = filter ?keep xs" for xs
    unfolding filter_filter by (rule filter_cong [OF refl]) blast
  ultimately show ?thesis
    using fresh_coherent [OF assms] by (simp add: listEdges_def listEdgesFromLog_def Let_def log_states_def)
qed

section \<open>Examples\<close>

definition demo_observe :: "string \<Rightarrow> string \<Rightarrow> string \<Rightarrow> raw_edge" where
  "demo_observe axis model at1 = \<lparr>re_kind = Some ''observe'', re_from = Some ''a'', re_to = Some ''b'', re_at = Some at1,
     re_by = Some ''x'', re_blind = Some True, re_axis = Some axis, re_note = None, re_reason = None,
     re_premiseVote = None, re_model = Some model\<rparr>"

text \<open>One observer in one second: the cap is reached by naming other axes and models.\<close>

definition demo_edges :: "raw_edge list" where
  "demo_edges = map (\<lambda>(a, m). demo_observe a m ''2024-05-01T00:00:00Z'')
     [(''prompt'', ''1''), (''prompt'', ''2''), (''model'', ''1''), (''model'', ''2''), (''input-neighborhood'', ''1''),
      (''input-neighborhood'', ''2'')]"

lemma demo_edge_key: "\<forall>r \<in> set demo_edges. record_key r = edgeKey (''a'', ''b'') \<and> re_at r = Some ''2024-05-01T00:00:00Z''"
  by (simp add: demo_edges_def demo_observe_def record_key_def canonPair_def)

lemma demo_date: "date_parse ''2024-05-01T00:00:00Z'' = Some 1714521600000"
  by code_simp

lemma one_observer_reaches_cap:
  "map_option es_kSurvived (map_of (collapseEdges demo_edges) (edgeKey (''a'', ''b''))) = Some 5"
  by code_simp

theorem trust_expires_witness:
  "\<exists>e. es_kSurvived e = 5 \<and> dr_status (deriveEdge e 1740355200000) \<noteq> TriggerBearing"
proof -
  obtain e where e: "map_of (collapseEdges demo_edges) (edgeKey (''a'', ''b'')) = Some e" "es_kSurvived e = 5"
    using one_observer_reaches_cap by auto
  have "dr_status (deriveEdge e 1740355200000) \<noteq> TriggerBearing"
    using demo_edge_key demo_date by (intro trust_expires [OF e(1)]) (auto simp: MS_PER_DAY_def)
  then show ?thesis using e(2) by blast
qed

theorem sitting_votes_bounded_witness:
  "\<exists>e. map_of (collapseEdges demo_edges) (edgeKey (''a'', ''b'')) = Some e
     \<and> es_kSurvived e \<le> card {p. \<exists>r \<in> set demo_edges. record_key r = edgeKey (''a'', ''b'') \<and> attestation r = Some p}"
proof -
  obtain e where e: "map_of (collapseEdges demo_edges) (edgeKey (''a'', ''b'')) = Some e"
    using one_observer_reaches_cap by auto
  have gap: "\<not> gap_elapsed ''2024-05-01T00:00:00Z'' ''2024-05-01T00:00:00Z''"
    by (simp add: gap_elapsed_def demo_date EDGE_REPLAY_GAP_DAYS_def MS_PER_DAY_def)
  have "es_kSurvived e \<le> card {p. \<exists>r \<in> set demo_edges. record_key r = edgeKey (''a'', ''b'') \<and> attestation r = Some p}
      \<and> es_kSurvived e \<le> 5"
    using demo_edge_key gap by (intro sitting_votes_bounded [OF e]) blast
  then show ?thesis using e by blast
qed

theorem index_read_is_log_read_witness:
  "snd (listEdges (\<lambda>a b. 0) \<lparr>el_file = Some (map Rec demo_edges, False), el_stat = ''s''\<rparr> 0
       \<lparr>ef_fromPath = None, ef_toPath = None, ef_status = Some Candidate\<rparr> 1740355200000
       (Some \<lparr>ei_rows = [], ei_marker = None\<rparr>))
   = listEdgesFromLog (\<lambda>a b. 0) \<lparr>el_file = Some (map Rec demo_edges, False), el_stat = ''s''\<rparr>
       \<lparr>ef_fromPath = None, ef_toPath = None, ef_status = Some Candidate\<rparr> 1740355200000"
proof -
  have "coherent \<lparr>el_file = Some (map Rec demo_edges, False), el_stat = ''s''\<rparr> \<lparr>ei_rows = [], ei_marker = None\<rparr>"
    by (simp add: coherent_def)
  from index_read_is_log_read [OF this] show ?thesis by blast
qed

end
