(* ===== verification/Schema.thy ===== *)
theory Schema
  imports Dates Frontmatter
begin

text \<open>
  The frontmatter validator, \<^verbatim>\<open>src/src/frontmatter/schema.ts\<close>, and the part of the serializer that decides
  which keys a document gets (\<^verbatim>\<open>serializeDocument\<close>, \<^verbatim>\<open>extensionValue\<close>, \<^verbatim>\<open>applyExtensionDefaults\<close> in
  \<^verbatim>\<open>src/src/tools/write.ts\<close>). Raw frontmatter is an object of JavaScript values, an association list in
  insertion order; no key holds \<^verbatim>\<open>undefined\<close>. Issues are a field and a problem, one constructor per message.
  The regular expression engine, for the patterns of the configuration, is a parameter. The lemmas show that the
  validator reads back what the serializer writes, and that the serializer keeps what it does not know.
\<close>

section \<open>Raw values\<close>

text \<open>\<open>VNonFinite\<close> is a NaN or an infinity; \<open>VDate None\<close> an invalid \<^verbatim>\<open>Date\<close>.\<close>

datatype raw_value =
    VNull
  | VBool bool
  | VNum rat
  | VNonFinite string
  | VStr string
  | VDate "int option"
  | VArr "raw_value list"
  | VObj "(string \<times> raw_value) list"

type_synonym raw_map = "(string, raw_value) jmap"

definition js_typeof :: "raw_value \<Rightarrow> string" where
  "js_typeof v = (case v of VBool b \<Rightarrow> ''boolean'' | VNum q \<Rightarrow> ''number'' | VNonFinite s \<Rightarrow> ''number''
     | VStr s \<Rightarrow> ''string'' | _ \<Rightarrow> ''object'')"

text \<open>A key that is missing or null is absent.\<close>

definition present :: "raw_map \<Rightarrow> string \<Rightarrow> raw_value option" where
  "present d k = (case map_of d k of None \<Rightarrow> None | Some v \<Rightarrow> if v = VNull then None else Some v)"

definition str_of :: "raw_value \<Rightarrow> string option" where
  "str_of v = (case v of VStr s \<Rightarrow> Some s | _ \<Rightarrow> None)"

text \<open>The length of a string in UTF-16 code units: a four-byte sequence counts twice.\<close>

definition utf16_length :: "string \<Rightarrow> nat" where
  "utf16_length s = length (filter (\<lambda>c. \<not> (128 \<le> (of_char c :: nat) \<and> (of_char c :: nat) < 192)) s)
     + length (filter (\<lambda>c. 240 \<le> (of_char c :: nat)) s)"

section \<open>The enumerations by name\<close>

definition DOMAINS :: "(string \<times> domain) list" where
  "DOMAINS = [(''accumulation'', Accumulation), (''generative'', Generative)]"

definition STATUSES :: "(string \<times> doc_status) list" where
  "STATUSES = [(''draft'', Draft), (''canonical'', Canonical), (''deprecated'', Deprecated),
     (''superseded'', Superseded), (''archived'', Archived)]"

definition GRADES :: "(string \<times> confidence) list" where
  "GRADES = [(''low'', ConfLow), (''medium'', ConfMedium), (''high'', ConfHigh)]"

definition PROVENANCES :: "(string \<times> provenance) list" where
  "PROVENANCES = [(''direct'', Direct), (''synthesized'', Synthesized), (''inferred'', Inferred)]"

definition STANCES :: "(string \<times> stance) list" where
  "STANCES = [(''assert'', Assert), (''dispute'', Dispute), (''qualify'', Qualify)]"

definition TIERS :: "(string \<times> tier) list" where
  "TIERS = [(''source'', SourceTier), (''compiled'', CompiledTier), (''manual'', ManualTier)]"

definition STAKES :: "(string \<times> criticality) list" where
  "STAKES = [(''low'', CritLow), (''medium'', CritMedium), (''high'', CritHigh)]"

lemmas enum_defs = DOMAINS_def STATUSES_def GRADES_def PROVENANCES_def STANCES_def TIERS_def STAKES_def

text \<open>The name of a member, for writing it back.\<close>

definition enum_name :: "(string \<times> 'a) list \<Rightarrow> 'a \<Rightarrow> string" where
  "enum_name table x = (case List.find (\<lambda>e. snd e = x) table of None \<Rightarrow> [] | Some e \<Rightarrow> fst e)"

section \<open>Issues\<close>

datatype problem =
    MissingRequired
  | Expected string string
  | NotOneOf "string list" bool raw_value
  | NotIsoDate string
  | NotBoolean raw_value
  | ElementNotString nat
  | ElementNotObject nat
  | ElementDropped nat
  | ElementProvenance nat
  | OrgPositionDropped
  | TooLongForPattern nat
  | PatternMismatch string
  | NotDateValue raw_value
  | NotStringArray
  | FromHook string

record issue =
  is_field :: string
  is_problem :: problem

definition issue :: "string \<Rightarrow> problem \<Rightarrow> issue list" where
  "issue f p = [\<lparr>is_field = f, is_problem = p\<rparr>]"

text \<open>A validated value with the issues found on the way.\<close>

type_synonym 'a checked = "'a \<times> issue list"

datatype ext_type = ExtTString | ExtTDate | ExtTNumber | ExtTBoolean | ExtTArray | ExtTEnum

record schema_extension =
  se_field :: string
  se_type :: ext_type
  se_required :: bool
  se_default :: "raw_value option"
  se_enum :: "string list option"
  se_pattern :: "string option"

section \<open>One validator per shape\<close>

definition requireString :: "raw_map \<Rightarrow> string \<Rightarrow> string checked" where
  "requireString d field =
     (case map_of d field of
        Some (VStr s) \<Rightarrow> if s = [] then ([], issue field MissingRequired) else (s, [])
      | None \<Rightarrow> ([], issue field MissingRequired)
      | Some VNull \<Rightarrow> ([], issue field MissingRequired)
      | Some v \<Rightarrow> ([], issue field (Expected ''string'' (js_typeof v))))"

definition requireEnum :: "raw_map \<Rightarrow> string \<Rightarrow> (string \<times> 'a) list \<Rightarrow> 'a \<Rightarrow> 'a checked" where
  "requireEnum d field allowed fallback =
     (case present d field of
        None \<Rightarrow> (fallback, issue field MissingRequired)
      | Some v \<Rightarrow>
          (case Option.bind (str_of v) (map_of allowed) of
             Some x \<Rightarrow> (x, [])
           | None \<Rightarrow> (fallback, issue field (NotOneOf (map fst allowed) False v))))"

definition date_day :: "int \<Rightarrow> string" where
  "date_day t = take 10 (to_iso t)"

definition requireDate :: "raw_map \<Rightarrow> string \<Rightarrow> string checked" where
  "requireDate d field =
     (case present d field of
        None \<Rightarrow> ([], issue field MissingRequired)
      | Some (VDate (Some t)) \<Rightarrow> (date_day t, [])
      | Some (VStr s) \<Rightarrow> (s, if normalizeIsoDate s = Some s then [] else issue field (NotIsoDate s))
      | Some v \<Rightarrow> ([], issue field (Expected ''date'' (js_typeof v))))"

definition optionalStringArray :: "raw_map \<Rightarrow> string \<Rightarrow> string list checked" where
  "optionalStringArray d field =
     (case present d field of
        None \<Rightarrow> ([], [])
      | Some (VArr vs) \<Rightarrow>
          (List.map_filter str_of vs,
           concat (map (\<lambda>(i, v). if str_of v = None then issue field (ElementNotString i) else []) (enumerate 0 vs)))
      | Some v \<Rightarrow> ([], issue field (Expected ''array'' (js_typeof v))))"

definition optionalEnum :: "raw_map \<Rightarrow> string \<Rightarrow> (string \<times> 'a) list \<Rightarrow> 'a option checked" where
  "optionalEnum d field allowed =
     (case present d field of
        None \<Rightarrow> (None, [])
      | Some v \<Rightarrow>
          (case Option.bind (str_of v) (map_of allowed) of
             Some x \<Rightarrow> (Some x, [])
           | None \<Rightarrow> (None, issue field (NotOneOf (map fst allowed) True v))))"

definition optionalString :: "raw_map \<Rightarrow> string \<Rightarrow> string option checked" where
  "optionalString d field =
     (case present d field of
        None \<Rightarrow> (None, [])
      | Some (VStr s) \<Rightarrow> (Some s, [])
      | Some v \<Rightarrow> (None, issue field (Expected ''string or null'' (js_typeof v))))"

definition optionalDate :: "raw_map \<Rightarrow> string \<Rightarrow> string option checked" where
  "optionalDate d field =
     (case present d field of
        None \<Rightarrow> (None, [])
      | Some (VDate (Some t)) \<Rightarrow> (Some (date_day t), [])
      | Some (VStr s) \<Rightarrow> (Some s, [])
      | Some v \<Rightarrow> (None, issue field (Expected ''date string or null'' (js_typeof v))))"

text \<open>A value at midnight keeps its day only; whole seconds lose their \<^verbatim>\<open>.000\<close>.\<close>

definition timestamp_text :: "int \<Rightarrow> string" where
  "timestamp_text t =
     (if t mod MS_PER_DAY = 0 then date_day t
      else if t mod 1000 = 0 then toSecondISO t else to_iso t)"

definition optionalTimestamp :: "raw_map \<Rightarrow> string \<Rightarrow> string option checked" where
  "optionalTimestamp d field =
     (case present d field of
        None \<Rightarrow> (None, [])
      | Some (VDate (Some t)) \<Rightarrow> (Some (timestamp_text t), [])
      | Some (VStr s) \<Rightarrow> (Some s, [])
      | Some v \<Rightarrow> (None, issue field (Expected ''date-time string or null'' (js_typeof v))))"

definition optionalNumber :: "raw_map \<Rightarrow> string \<Rightarrow> rat option checked" where
  "optionalNumber d field =
     (case present d field of
        None \<Rightarrow> (None, [])
      | Some (VNum q) \<Rightarrow> (Some q, [])
      | Some v \<Rightarrow> (None, issue field (Expected ''number or null'' (js_typeof v))))"

definition optionalBoolean :: "raw_map \<Rightarrow> string \<Rightarrow> bool option checked" where
  "optionalBoolean d field =
     (case present d field of
        None \<Rightarrow> (None, [])
      | Some (VBool b) \<Rightarrow> (Some b, [])
      | Some v \<Rightarrow> (None, issue field (NotBoolean v)))"

section \<open>Positions\<close>

definition asDateString :: "raw_value option \<Rightarrow> string option" where
  "asDateString v = (case v of Some (VDate (Some t)) \<Rightarrow> Some (date_day t) | Some (VStr s) \<Rightarrow> Some s | _ \<Rightarrow> None)"

text \<open>A string the code tests with \<^verbatim>\<open>!x\<close>: the empty string fails too.\<close>

definition truthy :: "string option \<Rightarrow> string option" where
  "truthy s = (if s = Some [] then None else s)"

definition position_id :: "string \<Rightarrow> bool" where
  "position_id s \<longleftrightarrow> take 4 s = ''pos-'' \<and> drop 4 s \<noteq> [] \<and> list_all is_digit (drop 4 s)"

definition member_of :: "raw_map \<Rightarrow> string \<Rightarrow> (string \<times> 'a) list \<Rightarrow> 'a option" where
  "member_of p k table = Option.bind (Option.bind (map_of p k) str_of) (map_of table)"

definition string_items :: "raw_value option \<Rightarrow> string list" where
  "string_items v = (case v of Some (VArr xs) \<Rightarrow> List.map_filter str_of xs | _ \<Rightarrow> [])"

definition position_of :: "string \<Rightarrow> nat \<Rightarrow> raw_value \<Rightarrow> position option checked" where
  "position_of field i item =
     (case item of
        VObj p \<Rightarrow>
          (let pid = (case map_of p ''id'' of Some (VStr s) \<Rightarrow> if position_id s then Some s else None | _ \<Rightarrow> None);
               who = truthy (Option.bind (map_of p ''principal'') str_of);
               stance = member_of p ''stance'' STANCES;
               grade = member_of p ''confidence'' GRADES;
               made = truthy (asDateString (map_of p ''created''))
           in case (pid, who, stance, grade, made) of
                (Some pid1, Some who1, Some stance1, Some grade1, Some made1) \<Rightarrow>
                  (Some \<lparr>p_id = pid1, p_principal = who1, p_stance = stance1,
                     p_statement = Option.bind (map_of p ''statement'') str_of, p_confidence = grade1,
                     p_provenance = (case member_of p ''provenance'' PROVENANCES of None \<Rightarrow> Direct | Some x \<Rightarrow> x),
                     p_valid_from = asDateString (map_of p ''valid_from''),
                     p_superseded_by = Option.bind (map_of p ''superseded_by'') str_of,
                     p_created = made1, p_sources = string_items (map_of p ''sources'')\<rparr>,
                   if present p ''provenance'' \<noteq> None \<and> member_of p ''provenance'' PROVENANCES = None
                   then issue field (ElementProvenance i) else [])
              | _ \<Rightarrow> (None, issue field (ElementDropped i)))
      | VDate t \<Rightarrow> (None, issue field (ElementDropped i))
      | _ \<Rightarrow> (None, issue field (ElementNotObject i)))"

definition optionalPositions :: "raw_map \<Rightarrow> string \<Rightarrow> position list option checked" where
  "optionalPositions d field =
     (case present d field of
        None \<Rightarrow> (None, [])
      | Some (VArr vs) \<Rightarrow>
          (let checked = map (\<lambda>(i, v). position_of field i v) (enumerate 0 vs)
           in (Some (List.map_filter fst checked), concat (map snd checked)))
      | Some v \<Rightarrow> (None, issue field (Expected ''array'' (js_typeof v))))"

definition optionalOrgPosition :: "raw_map \<Rightarrow> string \<Rightarrow> org_position option checked" where
  "optionalOrgPosition d field =
     (case present d field of
        None \<Rightarrow> (None, [])
      | Some (VObj p) \<Rightarrow>
          (case (member_of p ''stance'' STANCES, member_of p ''confidence'' GRADES,
                 truthy (Option.bind (map_of p ''ratified_by'') str_of),
                 truthy (asDateString (map_of p ''ratified_at''))) of
             (Some stance1, Some grade1, Some who1, Some at1) \<Rightarrow>
               (Some \<lparr>op_stance = stance1, op_confidence = grade1, op_ratified_by = who1, op_ratified_at = at1,
                  op_dissent = string_items (map_of p ''dissent'')\<rparr>, [])
           | _ \<Rightarrow> (None, issue field OrgPositionDropped))
      | Some (VDate t) \<Rightarrow> (None, issue field OrgPositionDropped)
      | Some v \<Rightarrow> (None, issue field (Expected ''object or null'' (js_typeof v))))"

section \<open>Extension fields\<close>

definition MAX_PATTERN_INPUT_LENGTH :: nat where "MAX_PATTERN_INPUT_LENGTH = 4096"

definition validateExtensionField ::
    "(string \<Rightarrow> string \<Rightarrow> bool) \<Rightarrow> raw_map \<Rightarrow> schema_extension \<Rightarrow> issue list" where
  "validateExtensionField matches d ext =
     (let field = se_field ext in
      case present d field of
        None \<Rightarrow> if se_required ext \<and> se_default ext = None then issue field MissingRequired else []
      | Some v \<Rightarrow>
          (case se_type ext of
             ExtTString \<Rightarrow>
               (case v of
                  VStr s \<Rightarrow>
                    (case se_pattern ext of
                       None \<Rightarrow> []
                     | Some re \<Rightarrow>
                         if re = [] then []
                         else if utf16_length s > MAX_PATTERN_INPUT_LENGTH
                         then issue field (TooLongForPattern (utf16_length s))
                         else if \<not> matches re s then issue field (PatternMismatch re) else [])
                | _ \<Rightarrow> issue field (Expected ''string'' (js_typeof v)))
           | ExtTDate \<Rightarrow>
               (case v of
                  VDate (Some t) \<Rightarrow> []
                | VStr s \<Rightarrow> if normalizeIsoDate s = Some s then [] else issue field (NotDateValue v)
                | _ \<Rightarrow> issue field (NotDateValue v))
           | ExtTNumber \<Rightarrow> (case v of VNum q \<Rightarrow> [] | _ \<Rightarrow> issue field (Expected ''number'' (js_typeof v)))
           | ExtTBoolean \<Rightarrow> (case v of VBool b \<Rightarrow> [] | _ \<Rightarrow> issue field (Expected ''boolean'' (js_typeof v)))
           | ExtTArray \<Rightarrow>
               (case v of VArr vs \<Rightarrow> if list_all (\<lambda>x. str_of x \<noteq> None) vs then [] else issue field NotStringArray
                | _ \<Rightarrow> issue field NotStringArray)
           | ExtTEnum \<Rightarrow>
               (let allowed = (case se_enum ext of None \<Rightarrow> [] | Some xs \<Rightarrow> xs)
                in case v of VStr s \<Rightarrow> if s \<in> set allowed then [] else issue field (NotOneOf allowed False v)
                   | _ \<Rightarrow> issue field (NotOneOf allowed False v))))"

section \<open>The validator\<close>

record validation =
  va_frontmatter :: frontmatter
  va_issues :: "issue list"

definition report_valid :: "issue list \<Rightarrow> bool" where
  "report_valid issues \<longleftrightarrow> issues = []"

definition typed_fields :: "raw_map \<Rightarrow> frontmatter" where
  "typed_fields d =
     \<lparr>fm_title = fst (requireString d ''title''),
      fm_domain = fst (requireEnum d ''domain'' DOMAINS Accumulation),
      fm_collection = fst (requireString d ''collection''),
      fm_status = fst (requireEnum d ''status'' STATUSES Draft),
      fm_confidence = fst (requireEnum d ''confidence'' GRADES ConfLow),
      fm_created = fst (requireDate d ''created''),
      fm_updated = fst (requireDate d ''updated''),
      fm_updated_by = fst (requireString d ''updated_by''),
      fm_provenance = fst (requireEnum d ''provenance'' PROVENANCES Inferred),
      fm_tier = fst (optionalEnum d ''tier'' TIERS),
      fm_criticality = fst (optionalEnum d ''criticality'' STAKES),
      fm_sources = fst (optionalStringArray d ''sources''),
      fm_superseded_by = fst (optionalString d ''superseded_by''),
      fm_ttl_days = fst (optionalNumber d ''ttl_days''),
      fm_series = fst (optionalString d ''series''),
      fm_valid_from = fst (optionalDate d ''valid_from''),
      fm_valid_until = fst (optionalDate d ''valid_until''),
      fm_said_at = fst (optionalTimestamp d ''said_at''),
      fm_tags = fst (optionalStringArray d ''tags''),
      fm_describes = fst (optionalStringArray d ''describes''),
      fm_amends = fst (optionalStringArray d ''amends''),
      fm_questions_answered = fst (optionalStringArray d ''questions_answered''),
      fm_questions_raised = fst (optionalStringArray d ''questions_raised''),
      fm_subjects = fst (optionalStringArray d ''subjects''),
      fm_positions = fst (optionalPositions d ''positions''),
      fm_org_position = fst (optionalOrgPosition d ''org_position''),
      fm_contested = fst (optionalBoolean d ''contested''),
      fm_extensions = []\<rparr>"

definition builtin_issues :: "raw_map \<Rightarrow> issue list" where
  "builtin_issues d =
     snd (requireString d ''title'') @ snd (requireEnum d ''domain'' DOMAINS Accumulation)
     @ snd (requireString d ''collection'') @ snd (requireEnum d ''status'' STATUSES Draft)
     @ snd (requireEnum d ''confidence'' GRADES ConfLow) @ snd (requireDate d ''created'')
     @ snd (requireDate d ''updated'') @ snd (requireString d ''updated_by'')
     @ snd (requireEnum d ''provenance'' PROVENANCES Inferred) @ snd (optionalEnum d ''tier'' TIERS)
     @ snd (optionalEnum d ''criticality'' STAKES) @ snd (optionalStringArray d ''sources'')
     @ snd (optionalString d ''superseded_by'') @ snd (optionalNumber d ''ttl_days'')
     @ snd (optionalString d ''series'') @ snd (optionalDate d ''valid_from'')
     @ snd (optionalDate d ''valid_until'') @ snd (optionalTimestamp d ''said_at'')
     @ snd (optionalStringArray d ''tags'') @ snd (optionalStringArray d ''describes'')
     @ snd (optionalStringArray d ''amends'') @ snd (optionalStringArray d ''questions_answered'')
     @ snd (optionalStringArray d ''questions_raised'') @ snd (optionalStringArray d ''subjects'')
     @ snd (optionalPositions d ''positions'') @ snd (optionalOrgPosition d ''org_position'')
     @ snd (optionalBoolean d ''contested'')"

definition validateFrontmatter ::
    "(string \<Rightarrow> string \<Rightarrow> bool) \<Rightarrow> raw_map \<Rightarrow> schema_extension list \<Rightarrow> validation" where
  "validateFrontmatter matches d extensions =
     \<lparr>va_frontmatter = typed_fields d,
      va_issues = builtin_issues d @ concat (map (validateExtensionField matches d) extensions)\<rparr>"

section \<open>The serializer\<close>

definition nullable :: "('a \<Rightarrow> raw_value) \<Rightarrow> 'a option \<Rightarrow> raw_value" where
  "nullable f x = (case x of None \<Rightarrow> VNull | Some y \<Rightarrow> f y)"

definition str_array :: "string list \<Rightarrow> raw_value" where
  "str_array xs = VArr (map VStr xs)"

definition position_value :: "position \<Rightarrow> raw_value" where
  "position_value p = VObj
     [(''id'', VStr (p_id p)), (''principal'', VStr (p_principal p)),
      (''stance'', VStr (enum_name STANCES (p_stance p))), (''statement'', nullable VStr (p_statement p)),
      (''confidence'', VStr (enum_name GRADES (p_confidence p))),
      (''provenance'', VStr (enum_name PROVENANCES (p_provenance p))),
      (''valid_from'', nullable VStr (p_valid_from p)), (''superseded_by'', nullable VStr (p_superseded_by p)),
      (''created'', VStr (p_created p)), (''sources'', str_array (p_sources p))]"

definition org_value :: "org_position \<Rightarrow> raw_value" where
  "org_value p = VObj
     [(''stance'', VStr (enum_name STANCES (op_stance p))), (''confidence'', VStr (enum_name GRADES (op_confidence p))),
      (''ratified_by'', VStr (op_ratified_by p)), (''ratified_at'', VStr (op_ratified_at p)),
      (''dissent'', str_array (op_dissent p))]"

text \<open>The keys of the built-in fields, in the order they are written; some only when set.\<close>

definition builtin_fields :: "frontmatter \<Rightarrow> raw_map" where
  "builtin_fields fm =
     [(''title'', VStr (fm_title fm)), (''domain'', VStr (enum_name DOMAINS (fm_domain fm))),
      (''collection'', VStr (fm_collection fm)), (''status'', VStr (enum_name STATUSES (fm_status fm))),
      (''confidence'', VStr (enum_name GRADES (fm_confidence fm))), (''created'', VStr (fm_created fm)),
      (''updated'', VStr (fm_updated fm)), (''updated_by'', VStr (fm_updated_by fm)),
      (''provenance'', VStr (enum_name PROVENANCES (fm_provenance fm))),
      (''tier'', nullable (\<lambda>t. VStr (enum_name TIERS t)) (fm_tier fm)),
      (''criticality'', nullable (\<lambda>c. VStr (enum_name STAKES c)) (fm_criticality fm)),
      (''sources'', str_array (fm_sources fm)), (''superseded_by'', nullable VStr (fm_superseded_by fm)),
      (''ttl_days'', nullable VNum (fm_ttl_days fm))]
     @ (case fm_series fm of None \<Rightarrow> [] | Some s \<Rightarrow> [(''series'', VStr s)])
     @ [(''valid_from'', nullable VStr (fm_valid_from fm)), (''valid_until'', nullable VStr (fm_valid_until fm))]
     @ (case fm_said_at fm of None \<Rightarrow> [] | Some s \<Rightarrow> [(''said_at'', VStr s)])
     @ [(''tags'', str_array (fm_tags fm)), (''describes'', str_array (fm_describes fm))]
     @ (if fm_amends fm = [] then [] else [(''amends'', str_array (fm_amends fm))])
     @ [(''questions_answered'', str_array (fm_questions_answered fm)),
        (''questions_raised'', str_array (fm_questions_raised fm)), (''subjects'', str_array (fm_subjects fm))]
     @ (case fm_positions fm of None \<Rightarrow> [] | Some ps \<Rightarrow> [(''positions'', VArr (map position_value ps))])
     @ (case fm_org_position fm of None \<Rightarrow> [] | Some p \<Rightarrow> [(''org_position'', org_value p)])
     @ (case fm_contested fm of None \<Rightarrow> [] | Some b \<Rightarrow> [(''contested'', VBool b)])"

definition undated :: "raw_value \<Rightarrow> raw_value" where
  "undated v = (case v of VDate (Some t) \<Rightarrow> VStr (date_day t) | _ \<Rightarrow> v)"

definition extensionValue :: "raw_map \<Rightarrow> schema_extension \<Rightarrow> raw_value option" where
  "extensionValue raw ext =
     map_option (if se_type ext = ExtTDate then undated else id) (present raw (se_field ext))"

definition applyExtensionDefaults :: "raw_map \<Rightarrow> schema_extension list \<Rightarrow> raw_map" where
  "applyExtensionDefaults raw extensions =
     foldl (\<lambda>out ext. case (present out (se_field ext), se_default ext) of
         (None, Some v) \<Rightarrow> AList.update (se_field ext) v out
       | _ \<Rightarrow> out) raw extensions"

definition put_extension :: "raw_map \<Rightarrow> raw_map \<Rightarrow> schema_extension \<Rightarrow> raw_map" where
  "put_extension raw out ext =
     (case extensionValue raw ext of None \<Rightarrow> out | Some v \<Rightarrow> AList.update (se_field ext) v out)"

definition ordered_fields :: "frontmatter \<Rightarrow> schema_extension list \<Rightarrow> raw_map \<Rightarrow> raw_map" where
  "ordered_fields fm extensions raw =
     (let built = builtin_fields fm;
          handled = jkeys built @ map se_field extensions
      in foldl (put_extension raw) built extensions
         @ map (\<lambda>(k, v). (k, undated v)) (filter (\<lambda>(k, v). k \<notin> set handled \<and> v \<noteq> VNull) raw))"

text \<open>\<open>stringify\<close> is \<^verbatim>\<open>matter.stringify\<close>: body and keys to the text of the file.\<close>

definition serializeDocument ::
    "(string \<Rightarrow> raw_map \<Rightarrow> string) \<Rightarrow> frontmatter \<Rightarrow> string \<Rightarrow> schema_extension list \<Rightarrow> raw_map \<Rightarrow> string" where
  "serializeDocument stringify fm body extensions raw =
     stringify (if take 1 body = [CHR 0x0A] then body else CHR 0x0A # body) (ordered_fields fm extensions raw)"

section \<open>What the serializer writes under a key\<close>

definition builtin_names :: "string list" where
  "builtin_names = [''title'', ''domain'', ''collection'', ''status'', ''confidence'', ''created'', ''updated'',
     ''updated_by'', ''provenance'', ''tier'', ''criticality'', ''sources'', ''superseded_by'', ''ttl_days'',
     ''series'', ''valid_from'', ''valid_until'', ''said_at'', ''tags'', ''describes'', ''amends'',
     ''questions_answered'', ''questions_raised'', ''subjects'', ''positions'', ''org_position'', ''contested'']"

lemma builtin_keys: "set (jkeys (builtin_fields fm)) \<subseteq> set builtin_names"
  by (auto simp: builtin_fields_def builtin_names_def split: option.splits if_splits)

lemma put_extension_lookup:
  "map_of (foldl (put_extension raw) m exts) k =
     (if k \<in> se_field ` set exts
      then (case List.find (\<lambda>e. se_field e = k \<and> extensionValue raw e \<noteq> None) (rev exts) of
              None \<Rightarrow> map_of m k | Some e \<Rightarrow> extensionValue raw e)
      else map_of m k)"
proof (induction exts rule: rev_induct)
  case (snoc e exts)
  define X where "X = foldl (put_extension raw) m exts"
  have step: "foldl (put_extension raw) m (exts @ [e]) = put_extension raw X e" by (simp add: X_def)
  have IH: "map_of X k = (if k \<in> se_field ` set exts
      then (case List.find (\<lambda>e. se_field e = k \<and> extensionValue raw e \<noteq> None) (rev exts) of
              None \<Rightarrow> map_of m k | Some e \<Rightarrow> extensionValue raw e)
      else map_of m k)" using snoc by (simp add: X_def)
  have none: "k \<notin> se_field ` set exts \<Longrightarrow>
      List.find (\<lambda>e. se_field e = k \<and> extensionValue raw e \<noteq> None) (rev exts) = None"
    by (auto simp: find_None_iff)
  have put: "put_extension raw X e = (case extensionValue raw e of None \<Rightarrow> X | Some v \<Rightarrow> AList.update (se_field e) v X)"
    by (rule put_extension_def)
  show ?case unfolding step put
    using none by (cases "extensionValue raw e") (auto simp: IH split: option.splits)
qed simp

text \<open>A configuration declares each field once and none of the built-in ones.\<close>

definition proper_extensions :: "schema_extension list \<Rightarrow> bool" where
  "proper_extensions exts \<longleftrightarrow>
     distinct (map se_field exts) \<and> (\<forall>e \<in> set exts. se_field e \<notin> set builtin_names)"

lemma find_unique: "distinct (map f xs) \<Longrightarrow> x \<in> set xs \<Longrightarrow>
   List.find (\<lambda>y. f y = f x \<and> P y) (rev xs) = (if P x then Some x else None)"
proof (induction xs rule: rev_induct)
  case (snoc y ys)
  have none: "f x \<notin> f ` set ys \<Longrightarrow> List.find (\<lambda>y. f y = f x \<and> P y) (rev ys) = None"
    by (auto simp: find_None_iff) (metis image_eqI)
  show ?case
  proof (cases "x = y")
    case True
    then show ?thesis using snoc.prems none by auto
  next
    case False
    then have "x \<in> set ys" using snoc.prems by simp
    moreover have "f y \<noteq> f x" using snoc.prems \<open>x \<in> set ys\<close> by auto
    ultimately show ?thesis using snoc by auto
  qed
qed simp

lemma rest_lookup:
  assumes "distinct (jkeys raw)"
  shows "map_of (map (\<lambda>(k, v). (k, undated v)) (filter (\<lambda>(k, v). k \<notin> H \<and> v \<noteq> VNull) raw)) k =
    (if k \<in> H then None else map_option undated (present raw k))"
proof -
  have "map_of (map (\<lambda>(k, v). (k, undated v)) xs) k = map_option undated (map_of xs k)" for xs :: raw_map
    by (induction xs) auto
  then show ?thesis
    using map_of_filter_distinct [OF assms, of "\<lambda>(k, v). k \<notin> H \<and> v \<noteq> VNull" k]
    by (auto simp: present_def split: option.splits)
qed

lemma ordered_builtin:
  assumes "proper_extensions exts" "distinct (jkeys raw)" "k \<in> set builtin_names"
  shows "map_of (ordered_fields fm exts raw) k =
    (case map_of (builtin_fields fm) k of Some v \<Rightarrow> Some v | None \<Rightarrow> map_option undated (present raw k))"
proof -
  have k: "k \<notin> se_field ` set exts" using assms(1,3) by (auto simp: proper_extensions_def)
  then have "k \<in> set (jkeys (builtin_fields fm) @ map se_field exts) \<longleftrightarrow> map_of (builtin_fields fm) k \<noteq> None"
    by (simp add: map_of_eq_None_iff)
  then show ?thesis
    using k rest_lookup [OF assms(2)] unfolding ordered_fields_def Let_def map_of_append
    by (simp add: map_add_def put_extension_lookup del: set_append split: option.splits)
qed

lemma ordered_extension:
  assumes "proper_extensions exts" "distinct (jkeys raw)" "e \<in> set exts"
  shows "map_of (ordered_fields fm exts raw) (se_field e) = extensionValue raw e"
proof -
  have nb: "map_of (builtin_fields fm) (se_field e) = None"
    using assms(1,3) builtin_keys [of fm] by (auto simp: proper_extensions_def map_of_eq_None_iff)
  have "se_field e \<in> set (map se_field exts)" "se_field e \<in> se_field ` set exts" using assms(3) by auto
  moreover have "List.find (\<lambda>y. se_field y = se_field e \<and> extensionValue raw y \<noteq> None) (rev exts)
      = (if extensionValue raw e \<noteq> None then Some e else None)"
    using assms(1,3) by (intro find_unique) (auto simp: proper_extensions_def)
  moreover have "se_field e \<in> set (jkeys (builtin_fields fm) @ map se_field exts)" using assms(3) by auto
  ultimately show ?thesis
    using nb rest_lookup [OF assms(2)] unfolding ordered_fields_def Let_def map_of_append
    by (simp add: map_add_def put_extension_lookup del: set_append split: option.splits)
qed

lemma ordered_other:
  assumes "distinct (jkeys raw)" "k \<notin> set builtin_names" "k \<notin> se_field ` set exts"
  shows "map_of (ordered_fields fm exts raw) k = map_option undated (present raw k)"
proof -
  have nb: "map_of (builtin_fields fm) k = None"
    using assms(2) builtin_keys [of fm] by (auto simp: map_of_eq_None_iff)
  then have "k \<notin> set (jkeys (builtin_fields fm) @ map se_field exts)"
    using assms(3) by (auto simp: map_of_eq_None_iff)
  then show ?thesis
    using nb assms(3) rest_lookup [OF assms(1)] unfolding ordered_fields_def Let_def map_of_append
    by (simp add: map_add_def put_extension_lookup del: set_append split: option.splits)
qed

section \<open>Reading back what was written\<close>

lemma enum_roundtrip [simp]:
  "map_of DOMAINS (enum_name DOMAINS a) = Some a" "map_of STATUSES (enum_name STATUSES b) = Some b"
  "map_of GRADES (enum_name GRADES c) = Some c" "map_of PROVENANCES (enum_name PROVENANCES e) = Some e"
  "map_of STANCES (enum_name STANCES f) = Some f" "map_of TIERS (enum_name TIERS g) = Some g"
  "map_of STAKES (enum_name STAKES h) = Some h"
proof -
  show "map_of DOMAINS (enum_name DOMAINS a) = Some a" by (cases a) (simp_all add: enum_name_def enum_defs)
  show "map_of STATUSES (enum_name STATUSES b) = Some b" by (cases b) (simp_all add: enum_name_def enum_defs)
  show "map_of GRADES (enum_name GRADES c) = Some c" by (cases c) (simp_all add: enum_name_def enum_defs)
  show "map_of PROVENANCES (enum_name PROVENANCES e) = Some e" by (cases e) (simp_all add: enum_name_def enum_defs)
  show "map_of STANCES (enum_name STANCES f) = Some f" by (cases f) (simp_all add: enum_name_def enum_defs)
  show "map_of TIERS (enum_name TIERS g) = Some g" by (cases g) (simp_all add: enum_name_def enum_defs)
  show "map_of STAKES (enum_name STAKES h) = Some h" by (cases h) (simp_all add: enum_name_def enum_defs)
qed

lemma date_day_iso: "in_calendar t \<Longrightarrow> date_day t = iso_date (t div MS_PER_DAY)"
  using iso_date_parse(1) [of "t div MS_PER_DAY"] by (simp add: date_day_def to_iso_def in_calendar_def)

lemma midnight_parse: "parse_time ''00:00:00Z'' = Some 0" by code_simp

lemma iso_date_groups:
  assumes "0 \<le> year_of_day d" "year_of_day d \<le> 9999"
  shows "\<exists>y m k. iso_date d = y @ ''-'' @ m @ ''-'' @ k \<and> iso_groups (iso_date d) = Some (y, m, k)
    \<and> length m = 2 \<and> length k = 2"
proof -
  let ?y = "year_of_day d"
  define doy where "doy = d - day_from_year ?y"
  define m where "m = month_of (leap_year ?y) doy"
  define k where "k = doy - month_offsets (leap_year ?y) ! (m - 1) + 1"
  have iso: "iso_date d = pad0 4 ?y @ ''-'' @ pad0 2 (int m) @ ''-'' @ pad0 2 k"
    using assms by (simp add: iso_date_def Let_def doy_def m_def k_def)
  have doy: "0 \<le> doy" "doy < (if leap_year ?y then 366 else 365)"
    using year_of_day_bounds [of d] by (simp_all add: doy_def day_from_year_Suc split: if_splits)
  note mb = month_of_bounds [OF doy, folded m_def]
  have len: "length (pad0 4 ?y) = 4" "length (pad0 2 (int m)) = 2" "length (pad0 2 k) = 2"
    using assms mb by (auto intro!: pad0_length simp: k_def)
  then show ?thesis
    using iso_groups_render [OF len pad0_digits pad0_digits pad0_digits] iso by auto
qed

lemma date_day_canonical:
  assumes "in_calendar t"
  shows "normalizeIsoDate (date_day t) = Some (date_day t)"
proof -
  let ?d = "t div MS_PER_DAY"
  have y: "0 \<le> year_of_day ?d" "year_of_day ?d \<le> 9999" using assms by (simp_all add: in_calendar_def)
  obtain a m k where g: "iso_date ?d = a @ ''-'' @ m @ ''-'' @ k" "iso_groups (iso_date ?d) = Some (a, m, k)"
    "length m = 2" "length k = 2" using iso_date_groups [OF y] by blast
  have p: "date_parse (iso_date ?d @ ''T00:00:00Z'') = Some (?d * MS_PER_DAY)"
    using date_parse_iso_time [OF y midnight_parse] by simp
  have "(?d * MS_PER_DAY) div MS_PER_DAY = ?d" by (simp add: MS_PER_DAY_def)
  then have "take 10 (to_iso (?d * MS_PER_DAY)) = iso_date ?d"
    using iso_date_parse(1) [OF y] by (simp add: to_iso_def)
  then show ?thesis
    using g p by (simp add: date_day_iso [OF assms] normalizeIsoDate_def Let_def pad2_id)
qed

lemma present_lookup: "map_of m k = Some v \<Longrightarrow> v \<noteq> VNull \<Longrightarrow> present m k = Some v"
  by (simp add: present_def)

lemma present_null: "map_of m k = Some VNull \<Longrightarrow> present m k = None" "map_of m k = None \<Longrightarrow> present m k = None"
  by (simp_all add: present_def)

lemma map_filter_strings [simp]: "List.map_filter str_of (map VStr xs) = xs"
  by (induction xs) (simp_all add: str_of_def map_filter_def)

lemma no_element_issues [simp]:
  "concat (map (\<lambda>(i, v). if str_of v = None then issue f (ElementNotString i) else []) (enumerate n (map VStr xs))) = []"
  by (induction xs arbitrary: n) (simp_all add: str_of_def)

lemma reread_enum:
  "map_of m f = Some (VStr (enum_name T x)) \<Longrightarrow> map_of T (enum_name T x) = Some x \<Longrightarrow> requireEnum m f T y = (x, [])"
  by (simp add: requireEnum_def present_def str_of_def)

lemma reread_opt_enum:
  "map_of m f = Some (nullable (\<lambda>x. VStr (enum_name T x)) x) \<Longrightarrow> \<forall>x. map_of T (enum_name T x) = Some x \<Longrightarrow>
   optionalEnum m f T = (x, [])"
  by (cases x) (simp_all add: optionalEnum_def present_def nullable_def str_of_def)

lemma reread_array: "map_of m f = Some (str_array xs) \<Longrightarrow> optionalStringArray m f = (xs, [])"
  by (simp add: optionalStringArray_def present_def str_array_def)

lemma reread_opt_string:
  "map_of m f = Some (nullable VStr x) \<Longrightarrow> optionalString m f = (x, [])"
  "map_of m f = Some (nullable VStr x) \<Longrightarrow> optionalDate m f = (x, [])"
  by (cases x; simp add: optionalString_def optionalDate_def present_def nullable_def)+

lemma reread_number: "map_of m f = Some (nullable VNum x) \<Longrightarrow> optionalNumber m f = (x, [])"
  by (cases x) (simp_all add: optionalNumber_def present_def nullable_def)

text \<open>The optional keys that are written only when set: with no issue, an unset one was absent.\<close>

lemma unset_absent:
  "optionalString raw f = (None, []) \<Longrightarrow> present raw f = None"
  "optionalTimestamp raw f = (None, []) \<Longrightarrow> present raw f = None"
  "optionalPositions raw f = (None, []) \<Longrightarrow> present raw f = None"
  "optionalOrgPosition raw f = (None, []) \<Longrightarrow> present raw f = None"
  "optionalBoolean raw f = (None, []) \<Longrightarrow> present raw f = None"
  by (auto simp: optionalString_def optionalTimestamp_def optionalPositions_def optionalOrgPosition_def
      optionalBoolean_def issue_def Let_def split: option.splits raw_value.splits if_splits prod.splits)

lemma absent_reads:
  assumes "present m f = None"
  shows "optionalString m f = (None, [])" "optionalTimestamp m f = (None, [])" "optionalPositions m f = (None, [])"
    "optionalOrgPosition m f = (None, [])" "optionalBoolean m f = (None, [])" "optionalStringArray m f = ([], [])"
  using assms by (simp_all add: optionalString_def optionalTimestamp_def optionalPositions_def
      optionalOrgPosition_def optionalBoolean_def optionalStringArray_def)

lemma array_empty:
  assumes "optionalStringArray raw f = ([], [])" "present raw f = Some v"
  shows "v = VArr []"
proof -
  obtain vs where v: "v = VArr vs" and none: "List.map_filter str_of vs = []"
    and noissue: "\<forall>e \<in> set (enumerate 0 vs). (case e of (i, x) \<Rightarrow>
      if str_of x = None then issue f (ElementNotString i) else []) = []"
    using assms by (auto simp: optionalStringArray_def issue_def split: raw_value.splits if_splits)
  have ok: "\<forall>(i, x) \<in> set (enumerate 0 vs). str_of x \<noteq> None"
    using noissue by (force simp: issue_def split: if_splits)
  have "\<forall>x \<in> set vs. str_of x \<noteq> None"
  proof
    fix x assume "x \<in> set vs"
    then have "x \<in> snd ` set (enumerate 0 vs)" by (metis map_snd_enumerate set_map)
    then show "str_of x \<noteq> None" using ok by auto
  qed
  with none have "vs = []" by (cases vs) (auto simp: map_filter_def)
  then show ?thesis by (simp add: v)
qed

definition wf_position :: "position \<Rightarrow> bool" where
  "wf_position p \<longleftrightarrow> position_id (p_id p) \<and> p_principal p \<noteq> [] \<and> p_created p \<noteq> []"

lemma truthy_Some: "truthy x = Some s \<longleftrightarrow> x = Some s \<and> s \<noteq> []"
  by (auto simp: truthy_def)

lemma position_of_wf: "fst (position_of f i v) = Some p \<Longrightarrow> wf_position p"
  by (auto simp: position_of_def Let_def wf_position_def truthy_Some
      split: raw_value.splits option.splits if_splits)

lemma asDateString_values [simp]: "asDateString (Some (VStr s)) = Some s"
  "asDateString (Some (nullable VStr x)) = x"
  by (simp_all add: asDateString_def nullable_def split: option.split)

lemma str_of_nullable [simp]: "str_of (nullable VStr x) = x" "str_of (VStr s) = Some s"
  by (simp_all add: str_of_def nullable_def split: option.split)

lemma string_items_array [simp]: "string_items (Some (str_array xs)) = xs"
  by (simp add: string_items_def str_array_def)

lemma reread_position: "wf_position p \<Longrightarrow> position_of f i (position_value p) = (Some p, [])"
  by (cases p) (simp add: position_of_def position_value_def wf_position_def member_of_def truthy_def)

lemma reread_positions:
  assumes "map_of m f = Some (VArr (map position_value ps))" "\<forall>p \<in> set ps. wf_position p"
  shows "optionalPositions m f = (Some ps, [])"
proof -
  have "map (\<lambda>(i, v). position_of f i v) (enumerate n (map position_value ps)) = map (\<lambda>p. (Some p, [])) ps" for n
    using assms(2) by (induction ps arbitrary: n) (simp_all add: reread_position)
  moreover have "List.map_filter fst (map (\<lambda>p. (Some p, [])) ps) = ps"
    by (induction ps) (simp_all add: map_filter_def)
  ultimately show ?thesis
    using assms(1) by (simp add: optionalPositions_def present_def Let_def comp_def)
qed

lemma positions_wf: "fst (optionalPositions raw f) = Some ps \<Longrightarrow> \<forall>p \<in> set ps. wf_position p"
  using position_of_wf
  by (fastforce simp: optionalPositions_def Let_def map_filter_def split: option.splits raw_value.splits)

definition wf_org :: "org_position \<Rightarrow> bool" where
  "wf_org p \<longleftrightarrow> op_ratified_by p \<noteq> [] \<and> op_ratified_at p \<noteq> []"

lemma org_wf: "fst (optionalOrgPosition raw f) = Some p \<Longrightarrow> wf_org p"
  by (auto simp: optionalOrgPosition_def wf_org_def truthy_Some split: option.splits raw_value.splits)

lemma reread_org: "map_of m f = Some (org_value p) \<Longrightarrow> wf_org p \<Longrightarrow> optionalOrgPosition m f = (Some p, [])"
  by (cases p) (simp add: optionalOrgPosition_def present_def org_value_def wf_org_def member_of_def truthy_def)

section \<open>The validator reads back what the serializer writes\<close>

lemma builtin_always:
  "map_of (builtin_fields fm) ''title'' = Some (VStr (fm_title fm))"
  "map_of (builtin_fields fm) ''domain'' = Some (VStr (enum_name DOMAINS (fm_domain fm)))"
  "map_of (builtin_fields fm) ''collection'' = Some (VStr (fm_collection fm))"
  "map_of (builtin_fields fm) ''status'' = Some (VStr (enum_name STATUSES (fm_status fm)))"
  "map_of (builtin_fields fm) ''confidence'' = Some (VStr (enum_name GRADES (fm_confidence fm)))"
  "map_of (builtin_fields fm) ''created'' = Some (VStr (fm_created fm))"
  "map_of (builtin_fields fm) ''updated'' = Some (VStr (fm_updated fm))"
  "map_of (builtin_fields fm) ''updated_by'' = Some (VStr (fm_updated_by fm))"
  "map_of (builtin_fields fm) ''provenance'' = Some (VStr (enum_name PROVENANCES (fm_provenance fm)))"
  "map_of (builtin_fields fm) ''tier'' = Some (nullable (\<lambda>t. VStr (enum_name TIERS t)) (fm_tier fm))"
  "map_of (builtin_fields fm) ''criticality'' = Some (nullable (\<lambda>t. VStr (enum_name STAKES t)) (fm_criticality fm))"
  "map_of (builtin_fields fm) ''sources'' = Some (str_array (fm_sources fm))"
  "map_of (builtin_fields fm) ''superseded_by'' = Some (nullable VStr (fm_superseded_by fm))"
  "map_of (builtin_fields fm) ''ttl_days'' = Some (nullable VNum (fm_ttl_days fm))"
  by (simp_all add: builtin_fields_def)

lemma builtin_always2:
  "map_of (builtin_fields fm) ''valid_from'' = Some (nullable VStr (fm_valid_from fm))"
  "map_of (builtin_fields fm) ''valid_until'' = Some (nullable VStr (fm_valid_until fm))"
  "map_of (builtin_fields fm) ''tags'' = Some (str_array (fm_tags fm))"
  "map_of (builtin_fields fm) ''describes'' = Some (str_array (fm_describes fm))"
  "map_of (builtin_fields fm) ''questions_answered'' = Some (str_array (fm_questions_answered fm))"
  "map_of (builtin_fields fm) ''questions_raised'' = Some (str_array (fm_questions_raised fm))"
  "map_of (builtin_fields fm) ''subjects'' = Some (str_array (fm_subjects fm))"
  by (simp_all add: builtin_fields_def map_add_def split: option.splits)

lemma builtin_when_set:
  "map_of (builtin_fields fm) ''series'' = map_option VStr (fm_series fm)"
  "map_of (builtin_fields fm) ''said_at'' = map_option VStr (fm_said_at fm)"
  "map_of (builtin_fields fm) ''amends'' = (if fm_amends fm = [] then None else Some (str_array (fm_amends fm)))"
  "map_of (builtin_fields fm) ''positions'' = map_option (\<lambda>ps. VArr (map position_value ps)) (fm_positions fm)"
  "map_of (builtin_fields fm) ''org_position'' = map_option org_value (fm_org_position fm)"
  "map_of (builtin_fields fm) ''contested'' = map_option VBool (fm_contested fm)"
  by (simp_all add: builtin_fields_def split: option.split)

text \<open>What the theorem asks of the raw frontmatter: an object, whose dates, if any were parsed, are of our calendar.\<close>

definition proper_raw :: "raw_map \<Rightarrow> bool" where
  "proper_raw raw \<longleftrightarrow> distinct (jkeys raw) \<and> (\<forall>(k, v) \<in> set raw. \<forall>t. v = VDate (Some t) \<longrightarrow> in_calendar t)"

lemma proper_raw_date: "proper_raw raw \<Longrightarrow> map_of raw k = Some (VDate (Some t)) \<Longrightarrow> in_calendar t"
  by (auto simp: proper_raw_def dest!: map_of_SomeD)

lemma ordered_set:
  assumes "proper_extensions exts" "distinct (jkeys raw)" "map_of (builtin_fields fm) k = Some v"
  shows "map_of (ordered_fields fm exts raw) k = Some v"
proof -
  have "k \<in> set (jkeys (builtin_fields fm))" using map_of_SomeD [OF assms(3)] by force
  then have "k \<in> set builtin_names" using builtin_keys by blast
  from ordered_builtin [OF assms(1,2) this] assms(3) show ?thesis by simp
qed

lemma ordered_unset:
  assumes "proper_extensions exts" "distinct (jkeys raw)" "map_of (builtin_fields fm) k = None"
    and "k \<in> set builtin_names" "present raw k = None"
  shows "present (ordered_fields fm exts raw) k = None"
  using ordered_builtin [OF assms(1,2,4)] assms(3,5) by (simp add: present_def)

text \<open>A frontmatter that can be stored beside the raw keys of its document: nothing about it has to be reported.\<close>

definition storable :: "frontmatter \<Rightarrow> raw_map \<Rightarrow> bool" where
  "storable fm raw \<longleftrightarrow>
     fm_title fm \<noteq> [] \<and> fm_collection fm \<noteq> [] \<and> fm_updated_by fm \<noteq> []
     \<and> normalizeIsoDate (fm_created fm) = Some (fm_created fm)
     \<and> normalizeIsoDate (fm_updated fm) = Some (fm_updated fm)
     \<and> (\<forall>ps. fm_positions fm = Some ps \<longrightarrow> (\<forall>p \<in> set ps. wf_position p))
     \<and> (\<forall>p. fm_org_position fm = Some p \<longrightarrow> wf_org p)
     \<and> (fm_series fm = None \<longrightarrow> present raw ''series'' = None)
     \<and> (fm_said_at fm = None \<longrightarrow> present raw ''said_at'' = None)
     \<and> (fm_positions fm = None \<longrightarrow> present raw ''positions'' = None)
     \<and> (fm_org_position fm = None \<longrightarrow> present raw ''org_position'' = None)
     \<and> (fm_contested fm = None \<longrightarrow> present raw ''contested'' = None)
     \<and> (fm_amends fm = [] \<longrightarrow> present raw ''amends'' \<in> {None, Some (VArr [])})
     \<and> fm_extensions fm = []"

lemma reread_required:
  assumes "proper_extensions exts" "distinct (jkeys raw)" "storable fm raw"
    and M: "M = ordered_fields fm exts raw"
  shows "requireString M ''title'' = (fm_title fm, [])"
    "requireEnum M ''domain'' DOMAINS Accumulation = (fm_domain fm, [])"
    "requireString M ''collection'' = (fm_collection fm, [])"
    "requireEnum M ''status'' STATUSES Draft = (fm_status fm, [])"
    "requireEnum M ''confidence'' GRADES ConfLow = (fm_confidence fm, [])"
    "requireDate M ''created'' = (fm_created fm, [])"
    "requireDate M ''updated'' = (fm_updated fm, [])"
    "requireString M ''updated_by'' = (fm_updated_by fm, [])"
    "requireEnum M ''provenance'' PROVENANCES Inferred = (fm_provenance fm, [])"
proof -
  note a = builtin_always [of fm, THEN ordered_set [OF assms(1,2), of fm, folded M]]
  show "requireString M ''title'' = (fm_title fm, [])" "requireString M ''collection'' = (fm_collection fm, [])"
    "requireString M ''updated_by'' = (fm_updated_by fm, [])"
    using assms(3) a(1,3,8) by (simp_all add: requireString_def storable_def)
  show "requireDate M ''created'' = (fm_created fm, [])" "requireDate M ''updated'' = (fm_updated fm, [])"
    using assms(3) a(6,7) by (simp_all add: requireDate_def present_def storable_def)
  show "requireEnum M ''domain'' DOMAINS Accumulation = (fm_domain fm, [])"
    "requireEnum M ''status'' STATUSES Draft = (fm_status fm, [])"
    "requireEnum M ''confidence'' GRADES ConfLow = (fm_confidence fm, [])"
    "requireEnum M ''provenance'' PROVENANCES Inferred = (fm_provenance fm, [])"
    using a(2,4,5,9) by (simp_all add: reread_enum)
qed

lemma reread_optional:
  assumes "proper_extensions exts" "distinct (jkeys raw)"
    and M: "M = ordered_fields fm exts raw"
  shows "optionalEnum M ''tier'' TIERS = (fm_tier fm, [])"
    "optionalEnum M ''criticality'' STAKES = (fm_criticality fm, [])"
    "optionalStringArray M ''sources'' = (fm_sources fm, [])"
    "optionalString M ''superseded_by'' = (fm_superseded_by fm, [])"
    "optionalNumber M ''ttl_days'' = (fm_ttl_days fm, [])"
    "optionalDate M ''valid_from'' = (fm_valid_from fm, [])"
    "optionalDate M ''valid_until'' = (fm_valid_until fm, [])"
    "optionalStringArray M ''tags'' = (fm_tags fm, [])"
    "optionalStringArray M ''describes'' = (fm_describes fm, [])"
    "optionalStringArray M ''questions_answered'' = (fm_questions_answered fm, [])"
    "optionalStringArray M ''questions_raised'' = (fm_questions_raised fm, [])"
    "optionalStringArray M ''subjects'' = (fm_subjects fm, [])"
proof -
  note at = ordered_set [OF assms(1,2), of fm, folded M]
  note a = builtin_always [of fm, THEN at] and b = builtin_always2 [of fm, THEN at]
  show "optionalEnum M ''tier'' TIERS = (fm_tier fm, [])" by (rule reread_opt_enum [OF a(10)]) simp
  show "optionalEnum M ''criticality'' STAKES = (fm_criticality fm, [])" by (rule reread_opt_enum [OF a(11)]) simp
  show "optionalStringArray M ''sources'' = (fm_sources fm, [])" by (rule reread_array [OF a(12)])
  show "optionalString M ''superseded_by'' = (fm_superseded_by fm, [])" by (rule reread_opt_string(1) [OF a(13)])
  show "optionalNumber M ''ttl_days'' = (fm_ttl_days fm, [])" by (rule reread_number [OF a(14)])
  show "optionalDate M ''valid_from'' = (fm_valid_from fm, [])" by (rule reread_opt_string(2) [OF b(1)])
  show "optionalDate M ''valid_until'' = (fm_valid_until fm, [])" by (rule reread_opt_string(2) [OF b(2)])
  show "optionalStringArray M ''tags'' = (fm_tags fm, [])" by (rule reread_array [OF b(3)])
  show "optionalStringArray M ''describes'' = (fm_describes fm, [])" by (rule reread_array [OF b(4)])
  show "optionalStringArray M ''questions_answered'' = (fm_questions_answered fm, [])" by (rule reread_array [OF b(5)])
  show "optionalStringArray M ''questions_raised'' = (fm_questions_raised fm, [])" by (rule reread_array [OF b(6)])
  show "optionalStringArray M ''subjects'' = (fm_subjects fm, [])" by (rule reread_array [OF b(7)])
qed

text \<open>The keys that are written only when set.\<close>

lemma reread_when_set:
  assumes "proper_extensions exts" "distinct (jkeys raw)" "storable fm raw"
    and M: "M = ordered_fields fm exts raw"
  shows "optionalString M ''series'' = (fm_series fm, [])"
    "optionalTimestamp M ''said_at'' = (fm_said_at fm, [])"
    "optionalStringArray M ''amends'' = (fm_amends fm, [])"
    "optionalPositions M ''positions'' = (fm_positions fm, [])"
    "optionalOrgPosition M ''org_position'' = (fm_org_position fm, [])"
    "optionalBoolean M ''contested'' = (fm_contested fm, [])"
proof -
  note at = ordered_set [OF assms(1,2), of fm, folded M]
  note un = ordered_unset [OF assms(1,2), of fm, folded M]
  note bw = builtin_when_set [of fm] and st = assms(3) [unfolded storable_def]
  have nm: "''series'' \<in> set builtin_names" "''said_at'' \<in> set builtin_names" "''amends'' \<in> set builtin_names"
    "''positions'' \<in> set builtin_names" "''org_position'' \<in> set builtin_names" "''contested'' \<in> set builtin_names"
    by (simp_all add: builtin_names_def)
  show "optionalString M ''series'' = (fm_series fm, [])"
    using absent_reads(1) [OF un [OF _ nm(1)]] at [of "''series''"] bw(1) st
    by (cases "fm_series fm") (simp_all add: optionalString_def present_def)
  show "optionalTimestamp M ''said_at'' = (fm_said_at fm, [])"
    using absent_reads(2) [OF un [OF _ nm(2)]] at [of "''said_at''"] bw(2) st
    by (cases "fm_said_at fm") (simp_all add: optionalTimestamp_def present_def)
  show "optionalPositions M ''positions'' = (fm_positions fm, [])"
    using absent_reads(3) [OF un [OF _ nm(4)]] reread_positions [OF at] bw(4) st
    by (cases "fm_positions fm") simp_all
  show "optionalOrgPosition M ''org_position'' = (fm_org_position fm, [])"
    using absent_reads(4) [OF un [OF _ nm(5)]] reread_org [OF at] bw(5) st
    by (cases "fm_org_position fm") simp_all
  show "optionalBoolean M ''contested'' = (fm_contested fm, [])"
    using absent_reads(5) [OF un [OF _ nm(6)]] at [of "''contested''"] bw(6) st
    by (cases "fm_contested fm") (simp_all add: optionalBoolean_def present_def)
  show "optionalStringArray M ''amends'' = (fm_amends fm, [])"
  proof (cases "fm_amends fm = []")
    case False
    then show ?thesis using reread_array [OF at] bw(3) by simp
  next
    case True
    then have "map_of M ''amends'' = map_option undated (present raw ''amends'')"
      using ordered_builtin [OF assms(1,2) nm(3), of fm] bw(3) by (simp add: M)
    moreover have "present raw ''amends'' \<in> {None, Some (VArr [])}" using st True by simp
    ultimately show ?thesis using True by (auto simp: optionalStringArray_def present_def undated_def map_filter_def)
  qed
qed

lemma ordered_typed:
  assumes "proper_extensions exts" "distinct (jkeys raw)" "storable fm raw"
  shows "typed_fields (ordered_fields fm exts raw) = fm" "builtin_issues (ordered_fields fm exts raw) = []"
proof -
  note r = reread_required [OF assms refl] reread_optional [OF assms(1,2) refl, of fm] reread_when_set [OF assms refl]
  have "fm_extensions fm = []" using assms(3) by (simp add: storable_def)
  then show "typed_fields (ordered_fields fm exts raw) = fm"
    by (intro frontmatter.equality) (simp_all add: typed_fields_def r)
  show "builtin_issues (ordered_fields fm exts raw) = []" by (simp add: builtin_issues_def r)
qed

text \<open>What the validator accepts without an issue can be stored.\<close>

lemma valid_storable:
  assumes "builtin_issues raw = []" and dates: "\<And>k t. map_of raw k = Some (VDate (Some t)) \<Longrightarrow> in_calendar t"
  shows "storable (typed_fields raw) raw"
proof -
  let ?fm = "typed_fields raw"
  have s: "snd (requireString raw ''title'') = []" "snd (requireString raw ''collection'') = []"
    "snd (requireString raw ''updated_by'') = []" "snd (requireDate raw ''created'') = []"
    "snd (requireDate raw ''updated'') = []"
    using assms(1) by (simp_all add: builtin_issues_def)
  have str: "fst (requireString raw f) \<noteq> []" if "snd (requireString raw f) = []" for f
    using that by (auto simp: requireString_def issue_def split: option.splits raw_value.splits if_splits)
  have day: "normalizeIsoDate (fst (requireDate raw f)) = Some (fst (requireDate raw f))"
    if "snd (requireDate raw f) = []" for f
    using that dates [of f] date_day_canonical
    by (auto simp: requireDate_def issue_def present_def split: option.splits raw_value.splits if_splits)
  have rd: "optionalString raw ''series'' = (fm_series ?fm, [])"
    "optionalTimestamp raw ''said_at'' = (fm_said_at ?fm, [])"
    "optionalStringArray raw ''amends'' = (fm_amends ?fm, [])"
    "optionalPositions raw ''positions'' = (fm_positions ?fm, [])"
    "optionalOrgPosition raw ''org_position'' = (fm_org_position ?fm, [])"
    "optionalBoolean raw ''contested'' = (fm_contested ?fm, [])"
    using assms(1) by (simp_all add: typed_fields_def builtin_issues_def prod_eq_iff)
  have f: "fm_title ?fm = fst (requireString raw ''title'')" "fm_collection ?fm = fst (requireString raw ''collection'')"
    "fm_updated_by ?fm = fst (requireString raw ''updated_by'')" "fm_created ?fm = fst (requireDate raw ''created'')"
    "fm_updated ?fm = fst (requireDate raw ''updated'')" "fm_extensions ?fm = []"
    by (simp_all add: typed_fields_def)
  have "fm_amends ?fm = [] \<Longrightarrow> present raw ''amends'' \<in> {None, Some (VArr [])}"
    using array_empty [of raw "''amends''"] rd(3) by (cases "present raw ''amends''") auto
  moreover have "fm_positions ?fm = Some ps \<Longrightarrow> \<forall>p \<in> set ps. wf_position p" for ps
    using positions_wf [of raw "''positions''" ps] rd(4) by simp
  moreover have "fm_org_position ?fm = Some p \<Longrightarrow> wf_org p" for p
    using org_wf [of raw "''org_position''" p] rd(5) by simp
  ultimately show ?thesis
    unfolding storable_def
    using str [OF s(1)] str [OF s(2)] str [OF s(3)] day [OF s(4)] day [OF s(5)] f rd
      unset_absent(1) [of raw "''series''"] unset_absent(2) [of raw "''said_at''"]
      unset_absent(3) [of raw "''positions''"] unset_absent(4) [of raw "''org_position''"]
      unset_absent(5) [of raw "''contested''"] by simp
qed

lemma undated_keeps: "undated v = VNull \<longleftrightarrow> v = VNull"
  by (auto simp: undated_def split: raw_value.splits option.splits)

lemma undated_other: "\<nexists>t. v = VDate (Some t) \<Longrightarrow> undated v = v"
  by (cases v) (auto simp: undated_def split: option.splits)

lemma extension_rereads:
  assumes "map_of M (se_field e) = extensionValue raw e" "validateExtensionField matches raw e = []"
    and dates: "\<And>k t. map_of raw k = Some (VDate (Some t)) \<Longrightarrow> in_calendar t"
  shows "validateExtensionField matches M e = []"
proof -
  have p: "present M (se_field e) = extensionValue raw e"
    using assms(1) undated_keeps by (auto simp: extensionValue_def present_def split: option.splits)
  show ?thesis
  proof (cases "se_type e = ExtTDate")
    case False
    then have "present M (se_field e) = present raw (se_field e)" using p by (simp add: extensionValue_def option.map_id)
    then show ?thesis using assms(2) by (simp add: validateExtensionField_def)
  next
    case True
    show ?thesis
    proof (cases "\<exists>t. present raw (se_field e) = Some (VDate (Some t))")
      case True
      then obtain t where t: "present raw (se_field e) = Some (VDate (Some t))" by blast
      then have "in_calendar t" using dates [of "se_field e" t] by (auto simp: present_def split: option.splits if_splits)
      with t p \<open>se_type e = ExtTDate\<close> show ?thesis
        by (simp add: validateExtensionField_def extensionValue_def undated_def date_day_canonical)
    next
      case no: False
      then have "map_option undated (present raw (se_field e)) = present raw (se_field e)"
        using undated_other by (cases "present raw (se_field e)") auto
      then have "present M (se_field e) = present raw (se_field e)" using p True by (simp add: extensionValue_def)
      then show ?thesis using assms(2) by (simp add: validateExtensionField_def)
    qed
  qed
qed



definition demo_raw :: raw_map where
  "demo_raw = [(''title'', VStr ''Prices''), (''domain'', VStr ''accumulation''), (''collection'', VStr ''pricing''),
     (''status'', VStr ''draft''), (''confidence'', VStr ''low''), (''created'', VStr ''2024-01-01''),
     (''updated'', VStr ''2024-01-02''), (''updated_by'', VStr ''human:ann''), (''provenance'', VStr ''direct''),
     (''owner'', VStr ''ann''), (''tags'', VArr [VStr ''x''])]"

lemma demo_raw_valid: "va_issues (validateFrontmatter (\<lambda>re s. True) demo_raw []) = []" by code_simp

lemma demo_raw_proper: "proper_raw demo_raw"
  by (auto simp: proper_raw_def demo_raw_def)



end
