(* ===== verification/LeakLedger.thy ===== *)
theory LeakLedger
  imports JsonLines
begin

text \<open>
  The cross-vault leak ledger, \<^verbatim>\<open>src/src/curation/leak-ledger.ts\<close>, and the write-time gate that reads it,
  \<^verbatim>\<open>checkLeakGate\<close> of \<^verbatim>\<open>src/src/tools/write.ts\<close>. The ledger is an append-only file of JSON lines; a line that
  parses is a record with the fields the code reads, absent ones \<open>None\<close>. Whether the file can be read at all
  is a flag. The lemmas show that a served private read blocks every later write of its run into a shared vault,
  and what the gate does when it cannot tell.
\<close>

datatype visibility = PrivateVault | SharedVault
text \<open>A parsed line: \<open>ln_visibility\<close> is \<open>None\<close> when the value is neither of the two.\<close>

record ledger_line =
  ln_timestamp :: "string option"
  ln_tool :: string
  ln_run :: "string option"
  ln_principal :: "string option"
  ln_visibility :: "visibility option"
  ln_source :: "string option"

record leak_input =
  li_tool :: string
  li_run :: "string option"
  li_principal :: "string option"
  li_visibility :: visibility
  li_source :: string

type_synonym leak_file = "ledger_line jsonl_file"

definition given :: "string option \<Rightarrow> string option" where
  "given s = (if s = Some [] then None else s)"

definition leak_line :: "string \<Rightarrow> leak_input \<Rightarrow> ledger_line" where
  "leak_line now e = \<lparr>ln_timestamp = Some now, ln_tool = li_tool e, ln_run = given (li_run e),
     ln_principal = given (li_principal e), ln_visibility = Some (li_visibility e), ln_source = Some (li_source e)\<rparr>"

definition leakLedgerPath :: "string \<Rightarrow> string option \<Rightarrow> string" where
  "leakLedgerPath fallback configured = (case given configured of None \<Rightarrow> fallback | Some p \<Rightarrow> p)"

definition recordLeakLedgerEntry ::
    "append_outcome \<Rightarrow> string \<Rightarrow> leak_input \<Rightarrow> leak_file option \<Rightarrow> leak_file option \<times> bool" where
  "recordLeakLedgerEntry outcome now e f = appendRecord outcome (leak_line now e) f"

text \<open>The batch is one append; here every line goes out, or none does.\<close>

definition recordLeakLedgerEntries ::
    "bool \<Rightarrow> string \<Rightarrow> leak_input list \<Rightarrow> leak_file option \<Rightarrow> leak_file option \<times> bool" where
  "recordLeakLedgerEntries written now es f =
     (if es = [] then (f, True)
      else if written then (foldl (\<lambda>g e. put_line (Rec (leak_line now e)) False g) f es, True)
      else (f, False))"

definition valid_line :: "ledger_line \<Rightarrow> bool" where
  "valid_line l \<longleftrightarrow> ln_timestamp l \<noteq> None \<and> ln_source l \<noteq> None \<and> ln_visibility l \<noteq> None"

definition readLeakLedger :: "bool \<Rightarrow> leak_file option \<Rightarrow> unit + ledger_line list" where
  "readLeakLedger readable f = (if readable then Inr (filter valid_line (jsonl_records f)) else Inl ())"

definition private_lines :: "string \<Rightarrow> ledger_line list \<Rightarrow> ledger_line list" where
  "private_lines run ls = filter (\<lambda>l. ln_run l = Some run \<and> ln_visibility l = Some PrivateVault) ls"

definition privateReadsForRunStrict :: "bool \<Rightarrow> leak_file option \<Rightarrow> string \<Rightarrow> unit + nat \<times> string list" where
  "privateReadsForRunStrict readable f run =
     (case readLeakLedger readable f of
        Inl e \<Rightarrow> Inl e
      | Inr ls \<Rightarrow> Inr (length (private_lines run ls),
                       remdups_first (List.map_filter (\<lambda>l. given (ln_principal l)) (private_lines run ls))))"

definition privateReadsForRun :: "bool \<Rightarrow> leak_file option \<Rightarrow> string \<Rightarrow> nat \<times> string list" where
  "privateReadsForRun readable f run =
     (case privateReadsForRunStrict readable f run of Inl e \<Rightarrow> (0, []) | Inr r \<Rightarrow> r)"

text \<open>
  The journal step of a read, in \<^verbatim>\<open>src/src/tools/read.ts\<close> (and, for the hits of a search, in
  \<^verbatim>\<open>src/src/tools/search.ts\<close>): \<open>cfg\<close> is the mode and the visibility of the serving vault, \<open>None\<close> when its
  configuration does not load. The flag tells whether the read is served.
\<close>

datatype leak_mode = LeakOff | LeakWarn | LeakRefuse

definition journalRead ::
    "bool \<Rightarrow> append_outcome \<Rightarrow> string \<Rightarrow> string \<Rightarrow> string option \<Rightarrow> string option
     \<Rightarrow> (leak_mode \<times> visibility) option \<Rightarrow> string \<Rightarrow> leak_file option \<Rightarrow> leak_file option \<times> bool" where
  "journalRead writable outcome now tool runId who cfg source f =
     (case (given runId, cfg) of
        (Some run, Some (mode, visibility)) \<Rightarrow>
          if mode = LeakOff then (f, True)
          else if \<not> writable then (f, False)
          else recordLeakLedgerEntry outcome now
                 \<lparr>li_tool = tool, li_run = Some run, li_principal = who, li_visibility = visibility,
                  li_source = source\<rparr> f
      | _ \<Rightarrow> (f, True))"

definition journalSearch ::
    "bool \<Rightarrow> bool \<Rightarrow> string \<Rightarrow> string \<Rightarrow> string option \<Rightarrow> string option
     \<Rightarrow> (leak_mode \<times> visibility) option \<Rightarrow> string \<Rightarrow> nat \<Rightarrow> leak_file option \<Rightarrow> leak_file option \<times> bool" where
  "journalSearch writable written now tool runId who cfg source hits f =
     (case (given runId, cfg) of
        (Some run, Some (mode, visibility)) \<Rightarrow>
          if mode = LeakOff then (f, True)
          else if \<not> writable then (f, False)
          else recordLeakLedgerEntries written now
                 (replicate hits \<lparr>li_tool = tool, li_run = Some run, li_principal = who,
                    li_visibility = visibility, li_source = source\<rparr>) f
      | _ \<Rightarrow> (f, True))"

section \<open>The gate of a write\<close>

datatype leak_reason = NoRunId | LedgerUnreadable | PrivateReads string nat

datatype leak_outcome = LeakAllow | LeakWarned nat | LeakRefused leak_reason

definition checkLeakGate ::
    "visibility \<Rightarrow> leak_mode \<Rightarrow> bool \<Rightarrow> string option \<Rightarrow> bool \<Rightarrow> leak_file option \<Rightarrow> leak_outcome" where
  "checkLeakGate visibility mode hasAccessContext runId readable f =
     (if mode = LeakOff then LeakAllow
      else if visibility \<noteq> SharedVault then LeakAllow
      else if \<not> hasAccessContext then LeakAllow
      else (case given runId of
         None \<Rightarrow> if mode = LeakRefuse then LeakRefused NoRunId else LeakAllow
       | Some run \<Rightarrow>
           if mode = LeakRefuse
           then (case privateReadsForRunStrict readable f run of
                   Inl e \<Rightarrow> LeakRefused LedgerUnreadable
                 | Inr (n, _) \<Rightarrow> if n > 0 then LeakRefused (PrivateReads run n) else LeakAllow)
           else (let n = fst (privateReadsForRun readable f run)
                 in if n > 0 then LeakWarned n else LeakAllow)))"

section \<open>What the gate can tell\<close>

lemma checked_reads:
  "privateReadsForRunStrict readable f run = Inr (n, ps) \<Longrightarrow>
   n = length (filter (\<lambda>l. valid_line l \<and> ln_run l = Some run \<and> ln_visibility l = Some PrivateVault) (jsonl_records f))"
  by (auto simp: privateReadsForRunStrict_def readLeakLedger_def private_lines_def conj_commute
      split: sum.splits if_splits)

lemma gate_open:
  assumes "checkLeakGate visibility LeakRefuse True runId readable f = LeakAllow" "visibility = SharedVault"
  shows "\<exists>run. runId = Some run \<and> run \<noteq> [] \<and> readable
    \<and> (\<forall>l \<in> set (jsonl_records f). valid_line l \<longrightarrow> ln_run l = Some run \<longrightarrow> ln_visibility l \<noteq> Some PrivateVault)"
proof -
  obtain run where run: "given runId = Some run"
    using assms by (auto simp: checkLeakGate_def split: option.splits)
  then have r: "runId = Some run" "run \<noteq> []" by (auto simp: given_def split: if_splits)
  have strict: "\<exists>ps. privateReadsForRunStrict readable f run = Inr (0, ps)"
    using assms run by (auto simp: checkLeakGate_def split: sum.splits prod.splits if_splits)
  then obtain ps where ps: "privateReadsForRunStrict readable f run = Inr (0, ps)" by blast
  then have readable by (auto simp: privateReadsForRunStrict_def readLeakLedger_def split: if_splits)
  moreover have "\<forall>l \<in> set (jsonl_records f). \<not> (valid_line l \<and> ln_run l = Some run \<and> ln_visibility l = Some PrivateVault)"
    using checked_reads [OF ps] by (simp add: filter_empty_conv)
  ultimately show ?thesis using r by blast
qed

text \<open>A line that is complete stays, whatever becomes of later appends: only an open last line is rewritten.\<close>

definition kept :: "'r \<Rightarrow> 'r jsonl_file option \<Rightarrow> bool" where
  "kept l f \<longleftrightarrow> (case f of None \<Rightarrow> False | Some (ls, unfinished) \<Rightarrow> Rec l \<in> set (if unfinished then butlast ls else ls))"

lemma kept_record: "kept l f \<Longrightarrow> l \<in> set (jsonl_records f)"
  by (force simp: kept_def jsonl_records_def file_lines_def map_filter_def split: option.splits prod.splits if_splits
      dest: in_set_butlastD)

lemma kept_put: "kept l f \<Longrightarrow> kept l (put_line x b f)"
  by (auto simp: kept_def put_line_def butlast_append split: option.splits prod.splits bool.splits if_splits)

lemma kept_append: "kept l f \<Longrightarrow> kept l (fst (appendRecord outcome r f))"
  by (cases outcome) (simp_all add: appendRecord_def kept_put)

lemma kept_appends: "kept l f \<Longrightarrow> kept l (foldl (\<lambda>g (o1, r). fst (appendRecord o1 r g)) f es)"
proof (induction es arbitrary: f)
  case (Cons e es)
  then show ?case by (cases e) (simp add: kept_append)
qed simp

lemma written_kept: "kept l (fst (appendRecord Written l f)) \<or> \<not> settled f"
  by (auto simp: appendRecord_def put_line_def kept_def settled_def split: option.splits bool.splits)

lemma listed_count:
  assumes "l \<in> set (jsonl_records f)" "valid_line l" "ln_run l = Some run" "ln_visibility l = Some PrivateVault"
  shows "\<exists>n ps. privateReadsForRunStrict True f run = Inr (n, ps) \<and> n > 0"
proof -
  have "l \<in> set (private_lines run (filter valid_line (jsonl_records f)))" using assms by (simp add: private_lines_def)
  then show ?thesis by (auto simp: privateReadsForRunStrict_def readLeakLedger_def length_pos_if_in_set)
qed


definition demo_line :: ledger_line where
  "demo_line = \<lparr>ln_timestamp = Some ''t2'', ln_tool = ''vault_search'', ln_run = Some ''r2'', ln_principal = None,
     ln_visibility = Some SharedVault, ln_source = Some ''/w''\<rparr>"


text \<open>
  The hypothesis that the ledger ends in a complete line is needed: behind an append that was cut off, a read is
  served, its record continues the broken line and is lost, and the gate lets the write of the same run through.
\<close>

lemma cut_off_ledger_forgets:
  "\<exists>f f1. journalRead True Written now tool (Some ''r1'') None (Some (LeakRefuse, PrivateVault)) source f = (f1, True)
    \<and> checkLeakGate SharedVault LeakRefuse True (Some ''r1'') True f1 = LeakAllow"
  by (rule exI [of _ "Some ([Junk], True)"])
    (simp add: journalRead_def given_def recordLeakLedgerEntry_def appendRecord_def put_line_def checkLeakGate_def
      privateReadsForRunStrict_def readLeakLedger_def private_lines_def jsonl_records_def file_lines_def map_filter_def)

end
