(* ===== verification/WritePath.thy ===== *)
theory WritePath
  imports Schema LeakLedger FileLocks Access
begin

text \<open>
  The durable part of every write, \<^verbatim>\<open>performWrite\<close> in \<^verbatim>\<open>src/src/tools/write.ts\<close>, with the loading of a target
  (\<^verbatim>\<open>loadTargetDocument\<close>, \<^verbatim>\<open>src/src/frontmatter/parser.ts\<close>), the provenance entries of
  \<^verbatim>\<open>src/src/curation/provenance.ts\<close> and the two retry rules. A vault is a record: files by canonical path,
  configuration, lease table, curation log, commits, index, consumes requests, shadow log and leak ledger. A
  write is a list of phases, one per \<^verbatim>\<open>await\<close>, so that other requests run in between; \<open>performWrite\<close> is the run
  without an interruption. YAML, the hash, the file globs and the regular expressions are parameters; what the
  file system, git and the index answer are inputs of each phase. The lemmas show what an answer means, that the
  lease is given back on every path, and that a landed write was computed from the bytes it replaces.
\<close>

section \<open>The vault\<close>

record write_env =
  we_sha :: "string \<Rightarrow> string"
  we_matter :: "string \<Rightarrow> (raw_map \<times> string) option"
  we_stringify :: "string \<Rightarrow> raw_map \<Rightarrow> string"
  we_matches :: "string \<Rightarrow> string \<Rightarrow> bool"
  we_resolve :: "string \<Rightarrow> string option"
  we_ignored :: "string list \<Rightarrow> string \<Rightarrow> bool"

record vault_config =
  vc_extensions :: "schema_extension list"
  vc_ignore :: "string list"
  vc_auto_commit :: bool
  vc_shadow :: bool
  vc_visibility :: visibility
  vc_leak :: leak_mode

type_synonym fm_diff = "(string \<times> raw_value option \<times> raw_value option) list"

record prov_entry =
  pv_tool :: string
  pv_file :: string
  pv_agent :: string
  pv_action :: string
  pv_principal :: "string option"
  pv_run :: "string option"
  pv_body_changed :: "bool option"
  pv_diff :: fm_diff
  pv_reason :: "string option"

record commit_entry =
  cm_files :: "(string \<times> string option) list"
  cm_message :: string
  cm_author :: string

record shadow_entry =
  sh_tool :: string
  sh_action :: string
  sh_target :: string
  sh_touched :: "string list"
  sh_agent :: string
  sh_principal :: "string option"
  sh_diff :: fm_diff
  sh_message :: string

record vault_state =
  vt_files :: "string \<Rightarrow> string option"
  vt_config :: "vault_config option"
  vt_locks :: lock_table
  vt_log :: "prov_entry list"
  vt_commits :: "commit_entry list"
  vt_index :: "string \<Rightarrow> string option"
  vt_consumes :: "(string \<times> string) list"
  vt_shadow :: "shadow_entry list"
  vt_ledger :: "leak_file option"

section \<open>Provenance\<close>

definition fm_entries :: "frontmatter \<Rightarrow> raw_map" where
  "fm_entries fm =
     [(''title'', VStr (fm_title fm)), (''domain'', VStr (enum_name DOMAINS (fm_domain fm))),
      (''collection'', VStr (fm_collection fm)), (''status'', VStr (enum_name STATUSES (fm_status fm))),
      (''confidence'', VStr (enum_name GRADES (fm_confidence fm))), (''created'', VStr (fm_created fm)),
      (''updated'', VStr (fm_updated fm)), (''updated_by'', VStr (fm_updated_by fm)),
      (''provenance'', VStr (enum_name PROVENANCES (fm_provenance fm))),
      (''tier'', nullable (\<lambda>t. VStr (enum_name TIERS t)) (fm_tier fm)),
      (''criticality'', nullable (\<lambda>c. VStr (enum_name STAKES c)) (fm_criticality fm)),
      (''sources'', str_array (fm_sources fm)), (''superseded_by'', nullable VStr (fm_superseded_by fm)),
      (''ttl_days'', nullable VNum (fm_ttl_days fm)), (''series'', nullable VStr (fm_series fm)),
      (''valid_from'', nullable VStr (fm_valid_from fm)), (''valid_until'', nullable VStr (fm_valid_until fm)),
      (''said_at'', nullable VStr (fm_said_at fm)), (''tags'', str_array (fm_tags fm)),
      (''describes'', str_array (fm_describes fm)), (''amends'', str_array (fm_amends fm)),
      (''questions_answered'', str_array (fm_questions_answered fm)),
      (''questions_raised'', str_array (fm_questions_raised fm)), (''subjects'', str_array (fm_subjects fm)),
      (''positions'', nullable (\<lambda>ps. VArr (map position_value ps)) (fm_positions fm)),
      (''org_position'', nullable org_value (fm_org_position fm)), (''contested'', nullable VBool (fm_contested fm))]"

definition frontmatterDiff :: "frontmatter option \<Rightarrow> frontmatter \<Rightarrow> fm_diff" where
  "frontmatterDiff old new =
     (let b = (case old of None \<Rightarrow> [] | Some fm \<Rightarrow> fm_entries fm); a = fm_entries new
      in List.map_filter (\<lambda>k. if map_of b k \<noteq> map_of a k then Some (k, map_of b k, map_of a k) else None)
           (remdups_first (jkeys b @ jkeys a)))"

text \<open>The log is advisory: an append that fails is ignored by every caller.\<close>

definition recordProvenance :: "bool \<Rightarrow> prov_entry \<Rightarrow> vault_state \<Rightarrow> vault_state" where
  "recordProvenance written e v =
     (if written then v\<lparr>vt_log := vt_log v @ [e\<lparr>pv_principal := given (pv_principal e), pv_run := given (pv_run e),
        pv_reason := given (pv_reason e)\<rparr>]\<rparr> else v)"

section \<open>Loading a document\<close>

definition MAX_PARSE_BYTES :: nat where "MAX_PARSE_BYTES = 5 * 1024 * 1024"

record parsed_doc =
  pd_frontmatter :: frontmatter
  pd_content :: string
  pd_raw :: raw_map
  pd_issues :: "issue list"
  pd_has_frontmatter :: bool

datatype parse_error = TooLarge nat | MalformedYaml

definition parseDocument :: "write_env \<Rightarrow> string \<Rightarrow> parse_error + parsed_doc" where
  "parseDocument env source =
     (if length source > MAX_PARSE_BYTES then Inl (TooLarge (length source))
      else (case we_matter env source of
         None \<Rightarrow> Inl MalformedYaml
       | Some (raw, content) \<Rightarrow>
           (let v = validateFrontmatter (we_matches env) raw []
            in Inr \<lparr>pd_frontmatter = va_frontmatter v, pd_content = content, pd_raw = raw, pd_issues = va_issues v,
                 pd_has_frontmatter = raw \<noteq> []\<rparr>)))"

datatype write_error =
    IndexBusy
  | MissingArgument string
  | BadArgument string
  | AccessDenied string
  | ProposeOnly
  | PathEscapes string
  | NotFound string
  | ParseFailed parse_error
  | ConfigFailed
  | IgnoredPath string
  | ShadowFailed
  | LockDbFailed
  | LockRefused lock_error
  | StaleWriteRefused string
  | LeakGate string leak_reason
  | WriteFailed
  | CommitFailed string string
  | GuardRefused string
  | InvalidFrontmatter "issue list"
  | ClosesLoop
  | DocsUnreadable
  | NothingChanges
  | BoundaryConflict string string
  | ForeignPosition
  | HooksFailed
  | StaleMerge string
  | StageFailed

record loaded_target =
  lt_path :: string
  lt_parsed :: parsed_doc
  lt_config :: vault_config
  lt_hash :: string
  lt_text :: string

definition loadTargetDocument :: "write_env \<Rightarrow> string \<Rightarrow> vault_state \<Rightarrow> write_error + loaded_target" where
  "loadTargetDocument env rawPath v =
     (case we_resolve env rawPath of
        None \<Rightarrow> Inl (PathEscapes rawPath)
      | Some path \<Rightarrow>
          (case vt_files v path of
             None \<Rightarrow> Inl (NotFound rawPath)
           | Some text \<Rightarrow>
               (case parseDocument env text of
                  Inl e \<Rightarrow> Inl (ParseFailed e)
                | Inr parsed \<Rightarrow>
                    (case vt_config v of
                       None \<Rightarrow> Inl ConfigFailed
                     | Some cfg \<Rightarrow> Inr \<lparr>lt_path = path, lt_parsed = parsed, lt_config = cfg, lt_hash = we_sha env text,
                         lt_text = text\<rparr>))))"

section \<open>A write in phases\<close>

record write_params =
  wp_path :: string
  wp_agent :: string
  wp_tool :: string
  wp_action :: string
  wp_text :: string
  wp_new :: frontmatter
  wp_old :: "frontmatter option"
  wp_issues :: "issue list"
  wp_message :: string
  wp_config :: vault_config
  wp_base :: "string option"
  wp_principal :: "string option"
  wp_run :: "string option"
  wp_body_changed :: "bool option"
  wp_reason :: "string option"
  wp_access :: bool

record write_report =
  wt_path :: string
  wt_action :: string
  wt_commit :: "string option"
  wt_committed :: bool
  wt_status :: doc_status
  wt_updated :: string
  wt_issues :: "issue list"
  wt_indexed :: bool
  wt_shadow :: bool
  wt_leak_warning :: "nat option"

type_synonym write_answer = "write_error + write_report"

text \<open>What the world answers: \<open>PutPart\<close> is a write that threw after replacing the file by a part of the text.\<close>

datatype put_outcome = PutAll | PutNone | PutPart string

record write_faults =
  wf_lock_db :: bool
  wf_put :: put_outcome
  wf_index :: bool
  wf_commit :: "string + string"
  wf_log :: bool
  wf_shadow :: bool
  wf_ledger :: bool

text \<open>
  The phase tells what has been done: the lease is held since the given time; the base version was checked; the
  gate let the write through, with a count to warn of; the file is written; it is indexed; it is committed (or
  not, with the error); it is logged.
\<close>

datatype write_phase =
    Begin
  | Held int
  | Fresh int
  | Cleared int "nat option"
  | Stored "nat option"
  | Indexed "nat option" bool
  | Committed "nat option" bool "string option" "string option"
  | Journaled "nat option" bool "string option" "string option"
  | Finished write_answer

definition commitIdentity :: "string \<Rightarrow> string option \<Rightarrow> string \<times> string" where
  "commitIdentity agent who =
     (case given who of
        None \<Rightarrow> (agent, [])
      | Some w \<Rightarrow> if w = agent then (agent, []) else (w, [CHR 0x0A, CHR 0x0A] @ ''Daftari-Agent: '' @ agent))"

definition shortHash :: "string \<Rightarrow> string" where
  "shortHash h = (if length h = 64 then take 12 h else h)"

definition refusal_entry :: "write_params \<Rightarrow> string \<Rightarrow> string \<Rightarrow> prov_entry" where
  "refusal_entry p action reason =
     \<lparr>pv_tool = wp_tool p, pv_file = wp_path p, pv_agent = wp_agent p, pv_action = action,
      pv_principal = wp_principal p, pv_run = wp_run p, pv_body_changed = None, pv_diff = [],
      pv_reason = Some reason\<rparr>"

definition stale_reason :: "string \<Rightarrow> string option \<Rightarrow> string" where
  "stale_reason base current =
     ''stale: base_version '' @ shortHash base @ '' != current ''
       @ (case current of None \<Rightarrow> ''<absent>'' | Some h \<Rightarrow> shortHash h)"

definition rejectStale :: "bool \<Rightarrow> write_params \<Rightarrow> string \<Rightarrow> string option \<Rightarrow> vault_state \<Rightarrow> vault_state \<times> write_error" where
  "rejectStale logged p base current v =
     (recordProvenance logged (refusal_entry p ''rejected_stale'' (stale_reason base current)) v,
      StaleWriteRefused (wp_path p))"

definition leak_reason_text :: "leak_reason \<Rightarrow> string" where
  "leak_reason_text r = (case r of
       NoRunId \<Rightarrow> ''no run_id was supplied''
     | LedgerUnreadable \<Rightarrow> ''the leak ledger could not be read''
     | PrivateReads run n \<Rightarrow> ''run '' @ run @ '' read '' @ dec n @ '' private-visibility source(s)'')"

text \<open>Giving the lease back: the \<^verbatim>\<open>finally\<close> of the code.\<close>

definition finish :: "write_params \<Rightarrow> string \<Rightarrow> write_answer \<Rightarrow> vault_state \<Rightarrow> write_phase \<times> vault_state" where
  "finish p holder answer v =
     (Finished answer, v\<lparr>vt_locks := fst (releaseLock (vt_locks v) (wp_path p) holder)\<rparr>)"

definition report_of :: "write_params \<Rightarrow> nat option \<Rightarrow> bool \<Rightarrow> string option \<Rightarrow> bool \<Rightarrow> write_report" where
  "report_of p leak indexed hash shadow =
     \<lparr>wt_path = wp_path p, wt_action = wp_action p, wt_commit = hash,
      wt_committed = (vc_auto_commit (wp_config p) \<and> \<not> shadow), wt_status = fm_status (wp_new p),
      wt_updated = fm_updated (wp_new p), wt_issues = wp_issues p, wt_indexed = indexed, wt_shadow = shadow,
      wt_leak_warning = leak\<rparr>"

definition shadow_of :: "write_params \<Rightarrow> shadow_entry" where
  "shadow_of p = \<lparr>sh_tool = wp_tool p, sh_action = wp_action p, sh_target = wp_path p, sh_touched = [],
     sh_agent = wp_agent p, sh_principal = given (wp_principal p), sh_diff = frontmatterDiff (wp_old p) (wp_new p),
     sh_message = wp_message p\<rparr>"

definition begin_write ::
    "write_env \<Rightarrow> write_params \<Rightarrow> string \<Rightarrow> int \<Rightarrow> write_faults \<Rightarrow> vault_state \<Rightarrow> write_phase \<times> vault_state" where
  "begin_write env p holder now fl v =
     (case vt_config v of
        None \<Rightarrow> (Finished (Inl ConfigFailed), v)
      | Some cfg \<Rightarrow>
          if we_ignored env (vc_ignore cfg) (wp_path p) then (Finished (Inl (IgnoredPath (wp_path p))), v)
          else if vc_shadow (wp_config p)
          then (if wf_shadow fl
                then (Finished (Inr (report_of p None False None True)), v\<lparr>vt_shadow := vt_shadow v @ [shadow_of p]\<rparr>)
                else (Finished (Inl ShadowFailed), v))
          else if \<not> wf_lock_db fl then (Finished (Inl LockDbFailed), v)
          else (case acquireLock (vt_locks v) (wp_path p) holder now of
                  (t, Inl e) \<Rightarrow> (Finished (Inl (LockRefused e)), v\<lparr>vt_locks := t\<rparr>)
                | (t, Inr row) \<Rightarrow> (Held now, v\<lparr>vt_locks := t\<rparr>)))"

definition check_base ::
    "write_env \<Rightarrow> write_params \<Rightarrow> string \<Rightarrow> int \<Rightarrow> write_faults \<Rightarrow> vault_state \<Rightarrow> write_phase \<times> vault_state" where
  "check_base env p holder since fl v =
     (case given (wp_base p) of
        None \<Rightarrow> (Fresh since, v)
      | Some base \<Rightarrow>
          (let current = map_option (we_sha env) (vt_files v (wp_path p))
           in if current \<noteq> Some base
              then (case rejectStale (wf_log fl) p base current v of (v', e) \<Rightarrow> finish p holder (Inl e) v')
              else (Fresh since, v)))"

definition pass_gate ::
    "write_params \<Rightarrow> string \<Rightarrow> int \<Rightarrow> write_faults \<Rightarrow> vault_state \<Rightarrow> write_phase \<times> vault_state" where
  "pass_gate p holder since fl v =
     (case checkLeakGate (vc_visibility (wp_config p)) (vc_leak (wp_config p)) (wp_access p) (wp_run p)
             (wf_ledger fl) (vt_ledger v) of
        LeakAllow \<Rightarrow> (Cleared since None, v)
      | LeakWarned n \<Rightarrow> (Cleared since (Some n), v)
      | LeakRefused r \<Rightarrow> finish p holder (Inl (LeakGate (wp_path p) r))
          (recordProvenance (wf_log fl) (refusal_entry p ''rejected_leak'' (leak_reason_text r)) v))"

definition put_file ::
    "write_params \<Rightarrow> string \<Rightarrow> nat option \<Rightarrow> write_faults \<Rightarrow> vault_state \<Rightarrow> write_phase \<times> vault_state" where
  "put_file p holder leak fl v =
     (case wf_put fl of
        PutAll \<Rightarrow> (Stored leak, v\<lparr>vt_files := (vt_files v)(wp_path p \<mapsto> wp_text p)\<rparr>)
      | PutNone \<Rightarrow> finish p holder (Inl WriteFailed) v
      | PutPart s \<Rightarrow> finish p holder (Inl WriteFailed) (v\<lparr>vt_files := (vt_files v)(wp_path p \<mapsto> s)\<rparr>))"

definition index_file :: "write_params \<Rightarrow> nat option \<Rightarrow> write_faults \<Rightarrow> vault_state \<Rightarrow> write_phase \<times> vault_state" where
  "index_file p leak fl v =
     (Indexed leak (wf_index fl),
      if wf_index fl then v\<lparr>vt_index := (vt_index v)(wp_path p := vt_files v (wp_path p))\<rparr> else v)"

definition commit_file ::
    "write_params \<Rightarrow> nat option \<Rightarrow> bool \<Rightarrow> write_faults \<Rightarrow> vault_state \<Rightarrow> write_phase \<times> vault_state" where
  "commit_file p leak indexed fl v =
     (if \<not> vc_auto_commit (wp_config p) then (Committed leak indexed None None, v)
      else (case wf_commit fl of
         Inl e \<Rightarrow> (Committed leak indexed None (Some e), v)
       | Inr hash \<Rightarrow>
           (let (author, trailer) = commitIdentity (wp_agent p) (wp_principal p)
            in (Committed leak indexed (Some hash) None,
                v\<lparr>vt_commits := vt_commits v @ [\<lparr>cm_files = [(wp_path p, vt_files v (wp_path p))],
                     cm_message = wp_message p @ trailer, cm_author = author\<rparr>]\<rparr>))))"

definition join_reasons :: "string option \<Rightarrow> string option \<Rightarrow> string" where
  "join_reasons reason commit_error = join_with ''; ''
     ((case reason of None \<Rightarrow> [] | Some r \<Rightarrow> [r])
      @ (case commit_error of None \<Rightarrow> [] | Some e \<Rightarrow> [''commit failed: '' @ e]))"

definition landed_entry :: "write_params \<Rightarrow> string option \<Rightarrow> prov_entry" where
  "landed_entry p commit_error =
     \<lparr>pv_tool = wp_tool p, pv_file = wp_path p, pv_agent = wp_agent p, pv_action = wp_action p,
      pv_principal = wp_principal p, pv_run = wp_run p, pv_body_changed = wp_body_changed p,
      pv_diff = frontmatterDiff (wp_old p) (wp_new p), pv_reason = Some (join_reasons (wp_reason p) commit_error)\<rparr>"

definition log_write ::
    "write_params \<Rightarrow> nat option \<Rightarrow> bool \<Rightarrow> string option \<Rightarrow> string option \<Rightarrow> write_faults \<Rightarrow> vault_state
     \<Rightarrow> write_phase \<times> vault_state" where
  "log_write p leak indexed hash commit_error fl v =
     (Journaled leak indexed hash commit_error, recordProvenance (wf_log fl) (landed_entry p commit_error) v)"

definition close_write ::
    "write_params \<Rightarrow> string \<Rightarrow> nat option \<Rightarrow> bool \<Rightarrow> string option \<Rightarrow> string option \<Rightarrow> vault_state
     \<Rightarrow> write_phase \<times> vault_state" where
  "close_write p holder leak indexed hash commit_error v =
     finish p holder
       (case commit_error of
          Some e \<Rightarrow> Inl (CommitFailed (wp_path p) e)
        | None \<Rightarrow> Inr (report_of p leak indexed hash False))
       (case given (wp_run p) of None \<Rightarrow> v | Some run \<Rightarrow> v\<lparr>vt_consumes := vt_consumes v @ [(wp_path p, run)]\<rparr>)"

definition write_step ::
    "write_env \<Rightarrow> write_params \<Rightarrow> string \<Rightarrow> int \<Rightarrow> write_faults \<Rightarrow> write_phase \<Rightarrow> vault_state
     \<Rightarrow> write_phase \<times> vault_state" where
  "write_step env p holder now fl phase v =
     (case phase of
        Begin \<Rightarrow> begin_write env p holder now fl v
      | Held t \<Rightarrow> check_base env p holder t fl v
      | Fresh t \<Rightarrow> pass_gate p holder t fl v
      | Cleared t leak \<Rightarrow> put_file p holder leak fl v
      | Stored leak \<Rightarrow> index_file p leak fl v
      | Indexed leak i \<Rightarrow> commit_file p leak i fl v
      | Committed leak i h e \<Rightarrow> log_write p leak i h e fl v
      | Journaled leak i h e \<Rightarrow> close_write p holder leak i h e v
      | Finished r \<Rightarrow> (Finished r, v))"

text \<open>The whole write without an interruption: eight phases.\<close>

fun run_phases ::
    "nat \<Rightarrow> write_env \<Rightarrow> write_params \<Rightarrow> string \<Rightarrow> int \<Rightarrow> write_faults \<Rightarrow> write_phase \<Rightarrow> vault_state
     \<Rightarrow> write_phase \<times> vault_state" where
  "run_phases 0 env p holder now fl phase v = (phase, v)"
| "run_phases (Suc n) env p holder now fl phase v =
     (case write_step env p holder now fl phase v of (phase', v') \<Rightarrow> run_phases n env p holder now fl phase' v')"

definition performWrite ::
    "write_env \<Rightarrow> write_params \<Rightarrow> string \<Rightarrow> int \<Rightarrow> write_faults \<Rightarrow> vault_state \<Rightarrow> write_phase \<times> vault_state" where
  "performWrite env p holder now fl v = run_phases 8 env p holder now fl Begin v"

section \<open>Every write answers\<close>

lemmas write_phase_defs = begin_write_def check_base_def rejectStale_def pass_gate_def put_file_def index_file_def
  commit_file_def log_write_def close_write_def finish_def

fun phases_left :: "write_phase \<Rightarrow> nat" where
  "phases_left Begin = 8"
| "phases_left (Held t) = 7"
| "phases_left (Fresh t) = 6"
| "phases_left (Cleared t l) = 5"
| "phases_left (Stored l) = 4"
| "phases_left (Indexed l i) = 3"
| "phases_left (Committed l i h e) = 2"
| "phases_left (Journaled l i h e) = 1"
| "phases_left (Finished r) = 0"

lemma step_progress:
  "phase \<noteq> Finished r \<Longrightarrow> (\<forall>r. phase \<noteq> Finished r) \<Longrightarrow>
   phases_left (fst (write_step env p h now fl phase v)) < phases_left phase"
  by (cases phase) (auto simp: write_step_def write_phase_defs Let_def
      split: option.splits sum.splits prod.splits leak_outcome.splits put_outcome.splits)

lemma phases_done: "phases_left phase = 0 \<Longrightarrow> \<exists>r. phase = Finished r"
  by (cases phase) auto

lemma run_phases_done: "phases_left phase \<le> n \<Longrightarrow> \<exists>r v'. run_phases n env p h now fl phase v = (Finished r, v')"
proof (induction n arbitrary: phase v)
  case 0
  then show ?case using phases_done [of phase] by auto
next
  case (Suc n)
  obtain ph v1 where s: "write_step env p h now fl phase v = (ph, v1)" by fastforce
  have "phases_left ph \<le> n"
  proof (cases "\<exists>r. phase = Finished r")
    case True
    then show ?thesis using s by (auto simp: write_step_def)
  next
    case False
    then show ?thesis using step_progress [of phase _ env p h now fl v] s Suc.prems by auto
  qed
  then show ?case using Suc.IH s by simp
qed

lemma performWrite_answers: "\<exists>r v'. performWrite env p h now fl v = (Finished r, v')"
  by (simp add: performWrite_def run_phases_done)

text \<open>What has happened once a phase is reached, without an interruption.\<close>

definition passed_checks :: "write_env \<Rightarrow> write_params \<Rightarrow> vault_state \<Rightarrow> bool" where
  "passed_checks env p v \<longleftrightarrow>
     (\<exists>cfg. vt_config v = Some cfg \<and> \<not> we_ignored env (vc_ignore cfg) (wp_path p)) \<and> \<not> vc_shadow (wp_config p)"

definition base_current :: "write_env \<Rightarrow> write_params \<Rightarrow> vault_state \<Rightarrow> bool" where
  "base_current env p v \<longleftrightarrow>
     (\<forall>b. given (wp_base p) = Some b \<longrightarrow> map_option (we_sha env) (vt_files v (wp_path p)) = Some b)"

definition gate_passed :: "write_params \<Rightarrow> bool \<Rightarrow> vault_state \<Rightarrow> bool" where
  "gate_passed p readable v \<longleftrightarrow>
     (\<forall>r. checkLeakGate (vc_visibility (wp_config p)) (vc_leak (wp_config p)) (wp_access p) (wp_run p)
            readable (vt_ledger v) \<noteq> LeakRefused r)"

definition stored_in :: "write_params \<Rightarrow> vault_state \<Rightarrow> string \<Rightarrow> string option" where
  "stored_in p v = (vt_files v)(wp_path p \<mapsto> wp_text p)"

definition only_locks :: "vault_state \<Rightarrow> vault_state \<Rightarrow> bool" where
  "only_locks v v' \<longleftrightarrow> v'\<lparr>vt_locks := vt_locks v\<rparr> = v"

lemma only_locks_fields: "only_locks v v' \<Longrightarrow> vt_files v' = vt_files v \<and> vt_config v' = vt_config v \<and> vt_log v' = vt_log v
    \<and> vt_commits v' = vt_commits v \<and> vt_index v' = vt_index v \<and> vt_shadow v' = vt_shadow v \<and> vt_ledger v' = vt_ledger v"
  by (cases v; cases v') (simp add: only_locks_def)

definition logged_entry :: "write_params \<Rightarrow> write_faults \<Rightarrow> string option \<Rightarrow> prov_entry list" where
  "logged_entry p fl e = (if wf_log fl then [(landed_entry p e)\<lparr>pv_principal := given (wp_principal p),
     pv_run := given (wp_run p), pv_reason := given (Some (join_reasons (wp_reason p) e))\<rparr>] else [])"

definition committed_well :: "write_params \<Rightarrow> vault_state \<Rightarrow> vault_state \<Rightarrow> bool \<Rightarrow> string option \<Rightarrow> string option \<Rightarrow> bool" where
  "committed_well p v v' i hash e \<longleftrightarrow> vt_files v' = stored_in p v
     \<and> (i \<longrightarrow> vt_index v' (wp_path p) = Some (wp_text p))
     \<and> (hash \<noteq> None \<longrightarrow> cm_files (last (vt_commits v')) = [(wp_path p, Some (wp_text p))])
     \<and> (hash = None \<longrightarrow> vt_commits v' = vt_commits v) \<and> (e \<noteq> None \<longrightarrow> hash = None)
     \<and> (e = None \<longrightarrow> (hash \<noteq> None \<longleftrightarrow> vc_auto_commit (wp_config p)))"

fun phase_inv :: "write_env \<Rightarrow> write_params \<Rightarrow> string \<Rightarrow> write_faults \<Rightarrow> vault_state \<Rightarrow> write_phase \<Rightarrow> vault_state \<Rightarrow> bool" where
  "phase_inv env p h fl v Begin v' \<longleftrightarrow> v' = v"
| "phase_inv env p h fl v (Held t) v' \<longleftrightarrow> only_locks v v' \<and> passed_checks env p v"
| "phase_inv env p h fl v (Fresh t) v' \<longleftrightarrow> only_locks v v' \<and> passed_checks env p v \<and> base_current env p v"
| "phase_inv env p h fl v (Cleared t w) v' \<longleftrightarrow> only_locks v v' \<and> passed_checks env p v \<and> base_current env p v
     \<and> gate_passed p (wf_ledger fl) v"
| "phase_inv env p h fl v (Finished r) v' \<longleftrightarrow> (case r of
       Inr rep \<Rightarrow>
         (if wt_shadow rep then vc_shadow (wp_config p) \<and> v' = v\<lparr>vt_shadow := vt_shadow v @ [shadow_of p]\<rparr>
          else passed_checks env p v \<and> base_current env p v \<and> gate_passed p (wf_ledger fl) v
            \<and> vt_files v' = stored_in p v
            \<and> vt_log v' = vt_log v @ logged_entry p fl None
            \<and> (wt_committed rep \<longleftrightarrow> wt_commit rep \<noteq> None)
            \<and> (wt_committed rep \<longrightarrow> cm_files (last (vt_commits v')) = [(wp_path p, Some (wp_text p))])
            \<and> (wt_indexed rep \<longrightarrow> vt_index v' (wp_path p) = Some (wp_text p)))
     | Inl e \<Rightarrow>
         (case e of
            CommitFailed q m \<Rightarrow> vt_files v' = stored_in p v \<and> vt_commits v' = vt_commits v
              \<and> passed_checks env p v \<and> base_current env p v \<and> gate_passed p (wf_ledger fl) v
          | WriteFailed \<Rightarrow> (\<forall>q. q \<noteq> wp_path p \<longrightarrow> vt_files v' q = vt_files v q)
              \<and> vt_commits v' = vt_commits v \<and> vt_log v' = vt_log v
          | _ \<Rightarrow> vt_files v' = vt_files v \<and> vt_commits v' = vt_commits v \<and> vt_index v' = vt_index v))"
| "phase_inv env p h fl v (Stored w) v' \<longleftrightarrow> passed_checks env p v \<and> base_current env p v \<and> gate_passed p (wf_ledger fl) v
     \<and> vt_files v' = stored_in p v \<and> vt_log v' = vt_log v \<and> vt_commits v' = vt_commits v"
| "phase_inv env p h fl v (Indexed w i) v' \<longleftrightarrow> passed_checks env p v \<and> base_current env p v \<and> gate_passed p (wf_ledger fl) v
     \<and> vt_files v' = stored_in p v \<and> vt_log v' = vt_log v \<and> vt_commits v' = vt_commits v
     \<and> (i \<longrightarrow> vt_index v' (wp_path p) = Some (wp_text p))"
| "phase_inv env p h fl v (Committed w i hash e) v' \<longleftrightarrow> passed_checks env p v \<and> base_current env p v
     \<and> gate_passed p (wf_ledger fl) v \<and> vt_log v' = vt_log v \<and> committed_well p v v' i hash e"
| "phase_inv env p h fl v (Journaled w i hash e) v' \<longleftrightarrow> passed_checks env p v \<and> base_current env p v
     \<and> gate_passed p (wf_ledger fl) v \<and> vt_log v' = vt_log v @ logged_entry p fl e \<and> committed_well p v v' i hash e"

lemma phase_inv_step:
  assumes "phase_inv env p h fl v phase v1" "write_step env p h now fl phase v1 = (phase', v2)"
  shows "phase_inv env p h fl v phase' v2"
proof (cases phase)
  case Begin
  then show ?thesis using assms
    by (auto simp: write_step_def begin_write_def passed_checks_def report_of_def only_locks_def
        split: option.splits sum.splits prod.splits if_splits)
next
  case (Held t)
  then show ?thesis using assms only_locks_fields [of v v1]
    by (auto simp: write_step_def check_base_def base_current_def finish_def rejectStale_def recordProvenance_def
        split: option.splits if_splits)
next
  case (Fresh t)
  then show ?thesis using assms only_locks_fields [of v v1]
    by (auto simp: write_step_def pass_gate_def gate_passed_def finish_def recordProvenance_def
        split: leak_outcome.splits if_splits)
next
  case (Cleared t w)
  then show ?thesis using assms only_locks_fields [of v v1]
    by (auto simp: write_step_def put_file_def finish_def stored_in_def split: put_outcome.splits)
next
  case (Stored w)
  then show ?thesis using assms
    by (auto simp: write_step_def index_file_def stored_in_def split: if_splits)
next
  case (Indexed w i)
  then show ?thesis using assms
    by (auto simp: write_step_def commit_file_def stored_in_def committed_well_def Let_def split: if_splits sum.splits prod.splits)
next
  case (Committed w i hash e)
  then show ?thesis using assms
    by (auto simp: write_step_def log_write_def recordProvenance_def landed_entry_def logged_entry_def committed_well_def
        split: if_splits)
next
  case (Journaled w i hash e)
  then show ?thesis using assms
    by (auto simp: write_step_def close_write_def finish_def report_of_def committed_well_def split: option.splits)
next
  case (Finished r)
  then have "phase' = phase" "v2 = v1" using assms(2) by (simp_all add: write_step_def)
  then show ?thesis using assms(1) by simp
qed

lemma phase_inv_run:
  "phase_inv env p h fl v phase v1 \<Longrightarrow> run_phases n env p h now fl phase v1 = (phase', v2) \<Longrightarrow>
   phase_inv env p h fl v phase' v2"
proof (induction n arbitrary: phase v1)
  case (Suc n)
  obtain ph v' where s: "write_step env p h now fl phase v1 = (ph, v')" by fastforce
  show ?case using Suc.IH [OF phase_inv_step [OF Suc.prems(1) s]] Suc.prems(2) s by simp
qed simp

definition holds_lease :: "vault_state \<Rightarrow> string \<Rightarrow> string \<Rightarrow> bool" where
  "holds_lease v path holder \<longleftrightarrow> (\<exists>row. (path, row) \<in> set (vt_locks v) \<and> lk_holder row = holder)"

lemma finish_releases: "finish p h r v = (ph, v') \<Longrightarrow> \<not> holds_lease v' (wp_path p) h"
  by (auto simp: finish_def holds_lease_def releaseLock_def Let_def)

lemma step_releases:
  assumes "write_step env p h now fl phase v = (Finished r, v')" "\<not> (phase \<in> {Begin, Finished r} \<and> holds_lease v (wp_path p) h)"
  shows "\<not> holds_lease v' (wp_path p) h"
proof (cases phase)
  case Begin
  then show ?thesis using assms
    by (auto simp: write_step_def begin_write_def holds_lease_def acquireLock_def purgeExpired_def Let_def
        split: option.splits if_splits prod.splits sum.splits)
next
  case (Finished r')
  then show ?thesis using assms by (auto simp: write_step_def)
qed (use assms in \<open>auto simp: write_step_def check_base_def pass_gate_def put_file_def index_file_def commit_file_def
    log_write_def close_write_def Let_def dest: finish_releases
    split: option.splits if_splits prod.splits sum.splits leak_outcome.splits put_outcome.splits\<close>)

lemma run_releases:
  "run_phases n env p h now fl phase v = (Finished r, v') \<Longrightarrow>
   (phase = Begin \<or> (\<exists>r. phase = Finished r)) \<and> \<not> holds_lease v (wp_path p) h
     \<or> phase \<noteq> Begin \<and> (\<forall>r. phase \<noteq> Finished r) \<Longrightarrow> \<not> holds_lease v' (wp_path p) h"
proof (induction n arbitrary: phase v)
  case (Suc n)
  obtain ph v1 where s: "write_step env p h now fl phase v = (ph, v1)" by fastforce
  have nb: "ph \<noteq> Begin" using s by (cases phase)
      (auto simp: write_step_def write_phase_defs Let_def
        split: option.splits sum.splits prod.splits leak_outcome.splits put_outcome.splits if_splits)
  have "\<not> holds_lease v1 (wp_path p) h" if "ph = Finished r1" for r1
    using step_releases [of env p h now fl phase v r1 v1] s that Suc.prems(2) by auto
  then show ?case using Suc.IH [of ph v1] Suc.prems(1) s nb by auto
qed auto


section \<open>Requests that run at the same time\<close>

definition isStaleWriteError :: "write_error \<Rightarrow> bool" where
  "isStaleWriteError e = (case e of StaleWriteRefused p \<Rightarrow> True | _ \<Rightarrow> False)"

definition retryOnStale :: "('v \<Rightarrow> (write_error + 'r) \<times> 'v) \<Rightarrow> 'v \<Rightarrow> (write_error + 'r) \<times> 'v" where
  "retryOnStale attempt v =
     (case attempt v of
        (Inl e, v') \<Rightarrow> if isStaleWriteError e then attempt v' else (Inl e, v')
      | (Inr r, v') \<Rightarrow> (Inr r, v'))"

definition retryOnStaleIfDefaulted ::
    "string option \<Rightarrow> ('v \<Rightarrow> (write_error + 'r) \<times> 'v) \<Rightarrow> 'v \<Rightarrow> (write_error + 'r) \<times> 'v" where
  "retryOnStaleIfDefaulted explicit attempt v =
     (if explicit \<noteq> None then attempt v else retryOnStale attempt v)"

text \<open>
  A request loads the vault at some time and computes a write from it; a stale write may be recomputed once when
  the flag is set. Every attempt mints its own lease holder. What is in the vault changes only by the steps of
  the requests.
\<close>

type_synonym write_plan = "int \<Rightarrow> vault_state \<Rightarrow> write_error + write_params"

datatype request_phase = Loading bool | Running bool write_params write_phase | Answered write_answer

record request =
  rq_plan :: write_plan
  rq_holder :: "bool \<Rightarrow> string"
  rq_phase :: request_phase

definition next_phase :: "bool \<Rightarrow> write_params \<Rightarrow> write_answer \<Rightarrow> request_phase" where
  "next_phase again p r =
     (case r of Inl e \<Rightarrow> if again \<and> isStaleWriteError e then Loading False else Answered r | Inr rep \<Rightarrow> Answered r)"

definition request_step ::
    "write_env \<Rightarrow> int \<Rightarrow> write_faults \<Rightarrow> request \<Rightarrow> vault_state \<Rightarrow> request \<times> vault_state" where
  "request_step env now fl rq v =
     (case rq_phase rq of
        Loading again \<Rightarrow>
          (rq\<lparr>rq_phase := (case rq_plan rq now v of Inl e \<Rightarrow> Answered (Inl e) | Inr p \<Rightarrow> Running again p Begin)\<rparr>, v)
      | Running again p phase \<Rightarrow>
          (case phase of
             Finished r \<Rightarrow> (rq\<lparr>rq_phase := next_phase again p r\<rparr>, v)
           | _ \<Rightarrow> (case write_step env p (rq_holder rq again) now fl phase v of
                     (phase', v') \<Rightarrow> (rq\<lparr>rq_phase := Running again p phase'\<rparr>, v')))
      | Answered r \<Rightarrow> (rq, v))"

record write_system =
  ws_requests :: "request list"
  ws_vault :: vault_state
  ws_clock :: int

text \<open>A write is timely when the file is replaced while the lease lasts.\<close>

definition timely :: "request \<Rightarrow> int \<Rightarrow> bool" where
  "timely rq now \<longleftrightarrow>
     (case rq_phase rq of Running again p (Cleared t w) \<Rightarrow> now < t + LOCK_TTL_MS | _ \<Rightarrow> True)"

inductive system_step :: "write_env \<Rightarrow> write_system \<Rightarrow> write_system \<Rightarrow> bool" for env where
  step: "i < length (ws_requests s) \<Longrightarrow> ws_clock s \<le> now \<Longrightarrow> timely (ws_requests s ! i) now \<Longrightarrow>
    request_step env now fl (ws_requests s ! i) (ws_vault s) = (rq, v) \<Longrightarrow>
    system_step env s \<lparr>ws_requests = (ws_requests s)[i := rq], ws_vault = v, ws_clock = now\<rparr>"

inductive_cases system_stepE: "system_step env s s'"

text \<open>Requests that have not started, with holders that were never used and differ from each other.\<close>

definition fresh_system :: "write_system \<Rightarrow> bool" where
  "fresh_system s \<longleftrightarrow> distinct (jkeys (vt_locks (ws_vault s)))
     \<and> (\<forall>rq \<in> set (ws_requests s). \<exists>again. rq_phase rq = Loading again)
     \<and> (\<forall>i < length (ws_requests s). \<forall>j < length (ws_requests s). \<forall>a b.
          rq_holder (ws_requests s ! i) a = rq_holder (ws_requests s ! j) b \<longrightarrow> i = j \<and> a = b)"

inductive reachable_system :: "write_env \<Rightarrow> write_system \<Rightarrow> bool" for env where
  start: "fresh_system s \<Longrightarrow> reachable_system env s"
| more: "reachable_system env s \<Longrightarrow> system_step env s s' \<Longrightarrow> reachable_system env s'"

fun held_since :: "write_phase \<Rightarrow> int option" where
  "held_since (Held t) = Some t"
| "held_since (Fresh t) = Some t"
| "held_since (Cleared t w) = Some t"
| "held_since _ = None"

definition after_check :: "write_phase \<Rightarrow> bool" where
  "after_check phase \<longleftrightarrow> (case phase of Fresh t \<Rightarrow> True | Cleared t w \<Rightarrow> True | _ \<Rightarrow> False)"

text \<open>A lease is held for its time to live, and behind the check the file has the base version for that time.\<close>

definition lease_inv :: "write_env \<Rightarrow> request \<Rightarrow> vault_state \<Rightarrow> int \<Rightarrow> bool" where
  "lease_inv env rq v clock \<longleftrightarrow>
     (\<forall>again p phase t. rq_phase rq = Running again p phase \<longrightarrow> held_since phase = Some t \<longrightarrow>
        (\<forall>u. clock \<le> u \<longrightarrow> u < t + LOCK_TTL_MS \<longrightarrow> lock_holder (vt_locks v) (wp_path p) u = Some (rq_holder rq again))
        \<and> (after_check phase \<longrightarrow> clock < t + LOCK_TTL_MS \<longrightarrow> base_current env p v))"

definition planned :: "request \<Rightarrow> vault_state \<Rightarrow> bool" where
  "planned rq v \<longleftrightarrow> (\<forall>again p phase. rq_phase rq = Running again p phase \<longrightarrow>
     (\<exists>t0 v0. vt_config v0 = vt_config v \<and> rq_plan rq t0 v0 = Inr p))"

text \<open>How one step touches leases and files.\<close>

lemma step_config: "write_step env p h now fl phase v = (phase', v') \<Longrightarrow> vt_config v' = vt_config v"
  by (cases phase) (auto simp: write_step_def write_phase_defs recordProvenance_def Let_def
      split: option.splits sum.splits prod.splits leak_outcome.splits put_outcome.splits if_splits)

lemma step_locks:
  "write_step env p h now fl phase v = (phase', v') \<Longrightarrow>
   vt_locks v' = vt_locks v \<or> phase = Begin \<and> vt_locks v' = fst (lock_ok (vt_locks v) (wp_path p) h now)
   \<or> vt_locks v' = fst (releaseLock (vt_locks v) (wp_path p) h)"
  by (cases phase) (auto simp: write_step_def write_phase_defs recordProvenance_def lock_ok_def Let_def
      split: option.splits sum.splits prod.splits leak_outcome.splits put_outcome.splits if_splits)

lemma step_files:
  "write_step env p h now fl phase v = (phase', v') \<Longrightarrow> vt_files v' \<noteq> vt_files v \<Longrightarrow>
   (\<exists>t w. phase = Cleared t w) \<and> (\<forall>q. q \<noteq> wp_path p \<longrightarrow> vt_files v' q = vt_files v q)"
  by (cases phase) (auto simp: write_step_def write_phase_defs recordProvenance_def Let_def
      split: option.splits sum.splits prod.splits leak_outcome.splits put_outcome.splits if_splits)

lemma step_distinct:
  "write_step env p h now fl phase v = (phase', v') \<Longrightarrow> distinct (jkeys (vt_locks v)) \<Longrightarrow> distinct (jkeys (vt_locks v'))"
  using step_locks [of env p h now fl phase v phase' v'] acquire_distinct [of "vt_locks v" "wp_path p" h now]
    release_distinct [of "vt_locks v" "wp_path p" h] by (auto simp: lock_ok_def split: prod.splits)

text \<open>The holder of a lease keeps it through the step of somebody else.\<close>

lemma foreign_step_keeps:
  assumes "write_step env p h now fl phase v = (phase', v')" "distinct (jkeys (vt_locks v))"
    and "lock_holder (vt_locks v) q u = Some g" "g \<noteq> h" "now \<le> u"
  shows "lock_holder (vt_locks v') q u = Some g"
  using step_locks [OF assms(1)] file_lease.acquire_keeps [OF assms(2,5,3), of "wp_path p" h]
    file_lease.release_keeps [OF assms(2,3), of "wp_path p" h] assms(3,4) by auto

text \<open>A step of one's own that leaves the write between lease and file.\<close>

lemma own_step_lease:
  assumes "write_step env p h now fl phase v = (phase', v')" "distinct (jkeys (vt_locks v))"
    and "held_since phase' = Some t" "now \<le> u" "u < t + LOCK_TTL_MS"
    and before: "\<And>s. held_since phase = Some s \<Longrightarrow> u < s + LOCK_TTL_MS \<Longrightarrow> lock_holder (vt_locks v) (wp_path p) u = Some h"
  shows "lock_holder (vt_locks v') (wp_path p) u = Some h"
proof (cases phase)
  case Begin
  then have "t = now" and "snd (lock_ok (vt_locks v) (wp_path p) h now)"
    "vt_locks v' = fst (lock_ok (vt_locks v) (wp_path p) h now)"
    using assms(1,3) by (auto simp: write_step_def begin_write_def lock_ok_def
        split: option.splits sum.splits prod.splits if_splits)
  then show ?thesis using file_lease.acquired [OF assms(2), of "wp_path p" h now u] assms(5) by simp
next
  case (Held s)
  then show ?thesis using assms(1,3,5) before
    by (auto simp: write_step_def check_base_def finish_def rejectStale_def split: option.splits if_splits)
next
  case (Fresh s)
  then show ?thesis using assms(1,3,5) before
    by (auto simp: write_step_def pass_gate_def finish_def split: leak_outcome.splits)
qed (use assms(1,3) in \<open>auto simp: write_step_def put_file_def index_file_def commit_file_def log_write_def
    close_write_def finish_def Let_def split: put_outcome.splits if_splits sum.splits prod.splits\<close>)

lemma own_step_base:
  assumes "write_step env p h now fl phase v = (phase', v')" "after_check phase'"
    and before: "after_check phase \<Longrightarrow> base_current env p v"
  shows "base_current env p v'"
proof (cases phase)
  case (Held s)
  then show ?thesis using assms(1,2)
    by (auto simp: write_step_def check_base_def finish_def rejectStale_def base_current_def after_check_def
        split: option.splits if_splits)
next
  case (Fresh s)
  then show ?thesis using assms(1,2) before
    by (auto simp: write_step_def pass_gate_def finish_def after_check_def split: leak_outcome.splits)
qed (use assms(1,2) in \<open>auto simp: write_step_def begin_write_def put_file_def index_file_def commit_file_def
    log_write_def close_write_def finish_def after_check_def Let_def
    split: option.splits put_outcome.splits if_splits sum.splits prod.splits\<close>)

definition own_holders :: "request list \<Rightarrow> bool" where
  "own_holders rqs \<longleftrightarrow> (\<forall>i < length rqs. \<forall>j < length rqs. \<forall>a b.
     rq_holder (rqs ! i) a = rq_holder (rqs ! j) b \<longrightarrow> i = j \<and> a = b)"

definition system_inv :: "write_env \<Rightarrow> write_system \<Rightarrow> bool" where
  "system_inv env s \<longleftrightarrow> distinct (jkeys (vt_locks (ws_vault s))) \<and> own_holders (ws_requests s)
     \<and> (\<forall>i < length (ws_requests s). lease_inv env (ws_requests s ! i) (ws_vault s) (ws_clock s)
          \<and> planned (ws_requests s ! i) (ws_vault s))"

text \<open>A request either runs a step of its write, or leaves the vault alone.\<close>

lemma request_step_cases:
  assumes "request_step env now fl rq v = (rq', v')"
  obtains (quiet) "v' = v" "\<And>again p phase. rq_phase rq' = Running again p phase \<Longrightarrow>
      phase = Begin \<and> (\<exists>t0. rq_plan rq t0 v = Inr p) \<or> rq' = rq \<and> (\<exists>r. phase = Finished r)"
      "rq_plan rq' = rq_plan rq" "rq_holder rq' = rq_holder rq"
  | (runs) again p phase phase' where "rq_phase rq = Running again p phase" "\<And>r. phase \<noteq> Finished r"
      "write_step env p (rq_holder rq again) now fl phase v = (phase', v')" "rq' = rq\<lparr>rq_phase := Running again p phase'\<rparr>"
proof (cases "rq_phase rq")
  case (Loading again)
  then have r: "v' = v" "rq' = rq\<lparr>rq_phase := (case rq_plan rq now v of Inl e \<Rightarrow> Answered (Inl e)
      | Inr p \<Rightarrow> Running again p Begin)\<rparr>"
    using assms by (auto simp: request_step_def)
  show ?thesis
  proof (rule quiet)
    fix a p phase assume "rq_phase rq' = Running a p phase"
    then have "phase = Begin \<and> rq_plan rq now v = Inr p"
      unfolding r(2) by (cases "rq_plan rq now v") simp_all
    then show "phase = Begin \<and> (\<exists>t0. rq_plan rq t0 v = Inr p) \<or> rq' = rq \<and> (\<exists>r. phase = Finished r)" by blast
  qed (simp_all add: r)
next
  case (Answered r)
  then have "v' = v" "rq' = rq" using assms by (auto simp: request_step_def)
  then show ?thesis using Answered by (intro quiet) simp_all
next
  case (Running again p phase)
  show ?thesis
  proof (cases "\<exists>r. phase = Finished r")
    case True
    then obtain r where "phase = Finished r" by blast
    then have e: "v' = v" "rq' = rq\<lparr>rq_phase := next_phase again p r\<rparr>"
      using assms Running by (auto simp: request_step_def)
    show ?thesis
    proof (rule quiet)
      fix a q ph assume "rq_phase rq' = Running a q ph"
      then have False by (simp add: e next_phase_def split: sum.splits if_splits)
      then show "ph = Begin \<and> (\<exists>t0. rq_plan rq t0 v = Inr q) \<or> rq' = rq \<and> (\<exists>r. ph = Finished r)" ..
    qed (simp_all add: e)
  next
    case False
    obtain phase' v1 where w: "write_step env p (rq_holder rq again) now fl phase v = (phase', v1)" by fastforce
    have "request_step env now fl rq v = (rq\<lparr>rq_phase := Running again p phase'\<rparr>, v1)"
      using Running False w by (cases phase) (simp_all add: request_step_def)
    then show ?thesis using runs [OF Running _ _ ] False w assms by auto
  qed
qed

lemma lease_inv_later: "lease_inv env rq v clock \<Longrightarrow> clock \<le> now \<Longrightarrow> lease_inv env rq v now"
  unfolding lease_inv_def by (meson order.trans le_less_trans)

lemma lease_inv_other:
  assumes inv: "lease_inv env rq v clock" "lease_inv env other v clock" and "clock \<le> now" "timely rq now"
    and ph: "rq_phase rq = Running again p phase"
    and ws: "write_step env p (rq_holder rq again) now fl phase v = (phase', v')"
    and d: "distinct (jkeys (vt_locks v))" and ne: "\<And>a. rq_holder other a \<noteq> rq_holder rq again"
  shows "lease_inv env other v' now"
  unfolding lease_inv_def
proof (intro allI impI conjI)
  fix a q ph1 t u
  assume o: "rq_phase other = Running a q ph1" "held_since ph1 = Some t"
  have keep: "lock_holder (vt_locks v) (wp_path q) u = Some (rq_holder other a)" if "now \<le> u" "u < t + LOCK_TTL_MS" for u
    using inv(2) o that \<open>clock \<le> now\<close> unfolding lease_inv_def by fastforce
  show "lock_holder (vt_locks v') (wp_path q) u = Some (rq_holder other a)" if "now \<le> u" "u < t + LOCK_TTL_MS"
    using foreign_step_keeps [OF ws d keep [OF that] ne that(1)] .
  assume ac: "after_check ph1" and lt: "now < t + LOCK_TTL_MS"
  then have base: "base_current env q v" using inv(2) o \<open>clock \<le> now\<close> unfolding lease_inv_def by fastforce
  have "vt_files v' (wp_path q) = vt_files v (wp_path q)"
  proof (rule ccontr)
    assume c: "vt_files v' (wp_path q) \<noteq> vt_files v (wp_path q)"
    then obtain s w where cl: "phase = Cleared s w" and same: "wp_path q = wp_path p"
      using step_files [OF ws] by metis
    have "now < s + LOCK_TTL_MS" using \<open>timely rq now\<close> ph cl by (simp add: timely_def)
    then have "lock_holder (vt_locks v) (wp_path p) now = Some (rq_holder rq again)"
      using inv(1) ph cl \<open>clock \<le> now\<close> unfolding lease_inv_def by fastforce
    then show False using keep [of now] lt same ne [of a] by simp
  qed
  then show "base_current env q v'" using base by (simp add: base_current_def)
qed

lemma lease_inv_own:
  assumes inv: "lease_inv env rq v clock" and "clock \<le> now"
    and ph: "rq_phase rq = Running again p phase"
    and ws: "write_step env p (rq_holder rq again) now fl phase v = (phase', v')"
    and d: "distinct (jkeys (vt_locks v))"
  shows "lease_inv env (rq\<lparr>rq_phase := Running again p phase'\<rparr>) v' now"
  unfolding lease_inv_def
proof (intro allI impI conjI)
  fix a q ph1 t u
  assume "rq_phase (rq\<lparr>rq_phase := Running again p phase'\<rparr>) = Running a q ph1" and hs: "held_since ph1 = Some t"
  then have e: "a = again" "q = p" "ph1 = phase'" by simp_all
  have before: "lock_holder (vt_locks v) (wp_path p) u = Some (rq_holder rq again)"
    if "held_since phase = Some s" "u < s + LOCK_TTL_MS" "now \<le> u" for s u
    using inv ph that \<open>clock \<le> now\<close> unfolding lease_inv_def by fastforce
  show "lock_holder (vt_locks v') (wp_path q) u = Some (rq_holder (rq\<lparr>rq_phase := Running again p phase'\<rparr>) a)"
    if "now \<le> u" "u < t + LOCK_TTL_MS"
    using own_step_lease [OF ws d _ that] hs e before that by simp
  assume ac: "after_check ph1" and lt: "now < t + LOCK_TTL_MS"
  have "base_current env p v" if a1: "after_check phase"
  proof -
    have "held_since phase = Some t"
      using ws a1 ac hs e by (cases phase) (auto simp: after_check_def write_step_def pass_gate_def put_file_def finish_def
        split: leak_outcome.splits put_outcome.splits)
    then show ?thesis using inv ph a1 lt \<open>clock \<le> now\<close> unfolding lease_inv_def by fastforce
  qed
  then show "base_current env q v'" using own_step_base [OF ws] ac e by simp
qed

lemma write_config_kept:
  "request_step env now fl rq v = (rq', v') \<Longrightarrow> vt_config v' = vt_config v"
  by (erule request_step_cases) (auto dest: step_config)

lemma planned_step:
  assumes "request_step env now fl rq v = (rq', v')" "planned rq v"
  shows "planned rq' v'"
  using assms(1)
proof (cases rule: request_step_cases)
  case quiet
  then show ?thesis using assms(2) unfolding planned_def by metis
next
  case (runs again p phase phase')
  then show ?thesis using assms(2) step_config [OF runs(3)] by (auto simp: planned_def)
qed

lemma planned_other: "vt_config v' = vt_config v \<Longrightarrow> planned rq v \<Longrightarrow> planned rq v'"
  by (simp add: planned_def)

lemma own_holders_update:
  assumes "own_holders rqs" "i < length rqs" "rq_holder rq = rq_holder (rqs ! i)"
  shows "own_holders (rqs[i := rq])"
  using assms by (auto simp: own_holders_def nth_list_update)

lemma quiet_lease_inv:
  assumes "lease_inv env rq v clock" "clock \<le> now"
    and "\<And>again p phase. rq_phase rq' = Running again p phase \<Longrightarrow>
      phase = Begin \<and> (\<exists>t0. rq_plan rq t0 v = Inr p) \<or> rq' = rq \<and> (\<exists>r. phase = Finished r)"
  shows "lease_inv env rq' v now"
  unfolding lease_inv_def using assms(3) by fastforce

lemma system_inv_step:
  assumes inv: "system_inv env s" and st: "system_step env s s'"
  shows "system_inv env s'"
  using st
proof (cases rule: system_step.cases)
  case (step i now fl rq v)
  let ?rqs = "ws_requests s" and ?v = "ws_vault s"
  let ?rq = "?rqs ! i"
  have li: "lease_inv env (?rqs ! j) ?v (ws_clock s)" "planned (?rqs ! j) ?v" if "j < length ?rqs" for j
    using inv that by (simp_all add: system_inv_def)
  have d: "distinct (jkeys (vt_locks ?v))" and own: "own_holders ?rqs" using inv by (simp_all add: system_inv_def)
  note later = lease_inv_later [OF li(1) step(3)]
  have cfg: "vt_config v = vt_config ?v" using write_config_kept [OF step(5)] .
  have "distinct (jkeys (vt_locks v)) \<and> rq_holder rq = rq_holder ?rq \<and> lease_inv env rq v now
    \<and> (\<forall>j < length ?rqs. j \<noteq> i \<longrightarrow> lease_inv env (?rqs ! j) v now)"
    using step(5)
  proof (cases rule: request_step_cases)
    case quiet
    then show ?thesis using d later quiet_lease_inv [OF li(1) [OF step(2)] step(3) quiet(2)] by simp
  next
    case (runs again p phase phase')
    have "lease_inv env (?rqs ! j) v now" if j: "j < length ?rqs" "j \<noteq> i" for j
    proof (rule lease_inv_other [OF li(1) [OF step(2)] li(1) [OF j(1)] step(3,4) runs(1,3) d])
      fix a show "rq_holder (?rqs ! j) a \<noteq> rq_holder ?rq again"
        using own j step(2) unfolding own_holders_def by blast
    qed
    then show ?thesis
      using step_distinct [OF runs(3) d] lease_inv_own [OF li(1) [OF step(2)] step(3) runs(1,3) d] runs(4) by simp
  qed
  then have r: "distinct (jkeys (vt_locks v))" "rq_holder rq = rq_holder ?rq" "lease_inv env rq v now"
    "\<And>j. j < length ?rqs \<Longrightarrow> j \<noteq> i \<Longrightarrow> lease_inv env (?rqs ! j) v now" by simp_all
  have "lease_inv env (?rqs[i := rq] ! j) v now \<and> planned (?rqs[i := rq] ! j) v" if "j < length ?rqs" for j
    using r(3,4) planned_step [OF step(5) li(2) [OF step(2)]] planned_other [OF cfg li(2)] that
    by (cases "j = i") simp_all
  then show ?thesis
    unfolding step(1) system_inv_def using r(1) own_holders_update [OF own step(2) r(2)] by simp
qed

lemma fresh_inv:
  assumes "fresh_system s"
  shows "system_inv env s"
proof -
  have "rq_phase (ws_requests s ! i) \<noteq> Running a p phase" if "i < length (ws_requests s)" for i a p phase
    using assms nth_mem [OF that] unfolding fresh_system_def by force
  then show ?thesis
    using assms by (simp add: fresh_system_def system_inv_def own_holders_def lease_inv_def planned_def)
qed

lemma reachable_inv: "reachable_system env s \<Longrightarrow> system_inv env s"
  by (induction rule: reachable_system.induct) (auto intro: fresh_inv system_inv_step)

text \<open>
  A plan that reads one file: computed from its text, with the hash of that text as the base version, and from
  nothing else that changes.
\<close>

definition recomputable :: "write_env \<Rightarrow> write_plan \<Rightarrow> bool" where
  "recomputable env plan \<longleftrightarrow>
     (\<forall>t v p. plan t v = Inr p \<longrightarrow>
        (\<exists>text. vt_files v (wp_path p) = Some text \<and> given (wp_base p) = Some (we_sha env text)
           \<and> (\<forall>v'. vt_files v' (wp_path p) = Some text \<longrightarrow> vt_config v' = vt_config v \<longrightarrow> plan t v' = Inr p)))"


section \<open>A run\<close>

definition demo_write_env :: write_env where
  "demo_write_env = \<lparr>we_sha = (\<lambda>s. CHR ''h'' # s), we_matter = (\<lambda>s. Some ([], s)), we_stringify = (\<lambda>b r. b),
     we_matches = (\<lambda>re s. True), we_resolve = Some, we_ignored = (\<lambda>ig p. False)\<rparr>"

definition demo_config :: vault_config where
  "demo_config = \<lparr>vc_extensions = [], vc_ignore = [], vc_auto_commit = True, vc_shadow = False,
     vc_visibility = PrivateVault, vc_leak = LeakOff\<rparr>"

definition demo_vault :: "string \<Rightarrow> vault_state" where
  "demo_vault bytes = \<lparr>vt_files = [''a.md'' \<mapsto> bytes], vt_config = Some demo_config, vt_locks = [], vt_log = [],
     vt_commits = [], vt_index = Map.empty, vt_consumes = [], vt_shadow = [], vt_ledger = None\<rparr>"

definition demo_params :: "string \<Rightarrow> string \<Rightarrow> write_params" where
  "demo_params base new = \<lparr>wp_path = ''a.md'', wp_agent = ''agent:x'', wp_tool = ''vault_append'', wp_action = ''append'',
     wp_text = new, wp_new = blank_fm, wp_old = None, wp_issues = [], wp_message = ''m'', wp_config = demo_config,
     wp_base = Some base, wp_principal = None, wp_run = None, wp_body_changed = None, wp_reason = None, wp_access = False\<rparr>"

text \<open>A plan that adds an exclamation mark to the file.\<close>

definition demo_plan :: write_plan where
  "demo_plan t v = (case vt_files v ''a.md'' of None \<Rightarrow> Inl (NotFound ''a.md'')
     | Some bytes \<Rightarrow> Inr (demo_params (CHR ''h'' # bytes) (bytes @ ''!'')))"

definition calm :: write_faults where
  "calm = \<lparr>wf_lock_db = True, wf_put = PutAll, wf_index = True, wf_commit = Inr ''c1'', wf_log = True, wf_shadow = True,
     wf_ledger = True\<rparr>"

lemmas demo_write_defs = demo_write_env_def demo_config_def demo_vault_def demo_params_def calm_def

definition demo_system :: write_system where
  "demo_system = \<lparr>ws_requests = [\<lparr>rq_plan = demo_plan, rq_holder = (\<lambda>b. if b then ''1'' else ''2''), rq_phase = Loading True\<rparr>],
     ws_vault = demo_vault ''old'', ws_clock = 0\<rparr>"

lemma demo_recomputable: "recomputable demo_write_env demo_plan"
  by (auto simp: recomputable_def demo_plan_def demo_write_env_def demo_params_def given_def split: option.splits)

definition demo_step :: "write_system \<Rightarrow> write_system" where
  "demo_step s = (case request_step demo_write_env 0 calm (ws_requests s ! 0) (ws_vault s) of
     (rq, v) \<Rightarrow> \<lparr>ws_requests = (ws_requests s)[0 := rq], ws_vault = v, ws_clock = 0\<rparr>)"

lemma demo_step_reachable:
  assumes "reachable_system demo_write_env s" "ws_requests s \<noteq> []" "ws_clock s = 0" "timely (ws_requests s ! 0) 0"
  shows "reachable_system demo_write_env (demo_step s)"
proof -
  obtain rq v where r: "request_step demo_write_env 0 calm (ws_requests s ! 0) (ws_vault s) = (rq, v)" by fastforce
  have "system_step demo_write_env s (demo_step s)"
    using system_step.step [of 0 s 0 demo_write_env calm rq v] assms r by (simp add: demo_step_def)
  then show ?thesis by (rule more [OF assms(1)])
qed

lemmas demo_eval = demo_step_def request_step_def write_step_def begin_write_def check_base_def pass_gate_def
  demo_plan_def given_def checkLeakGate_def acquireLock_def purgeExpired_def timely_def LOCK_TTL_MS_def Let_def

definition demo_rq :: "request_phase \<Rightarrow> request" where
  "demo_rq ph = \<lparr>rq_plan = demo_plan, rq_holder = (\<lambda>b. if b then ''1'' else ''2''), rq_phase = ph\<rparr>"

definition demo_at :: "request_phase \<Rightarrow> lock_table \<Rightarrow> write_system" where
  "demo_at ph locks = \<lparr>ws_requests = [demo_rq ph], ws_vault = (demo_vault ''old'')\<lparr>vt_locks := locks\<rparr>, ws_clock = 0\<rparr>"

definition demo_lease :: lock_table where
  "demo_lease = [(''a.md'', \<lparr>lk_path = ''a.md'', lk_holder = ''1'', lk_acquired_at = 0, lk_expires_at = 60000\<rparr>)]"

lemma demo_run:
  "reachable_system demo_write_env
     (demo_at (Running True (demo_params ''hold'' ''old!'') (Cleared 0 None)) demo_lease)"
proof -
  let ?p = "demo_params ''hold'' ''old!''"
  have 0: "reachable_system demo_write_env (demo_at (Loading True) [])"
    by (rule start) (auto simp: fresh_system_def demo_at_def demo_rq_def demo_vault_def)
  have "demo_step (demo_at (Loading True) []) = demo_at (Running True ?p Begin) []"
    by (simp add: demo_at_def demo_rq_def demo_eval demo_vault_def)
  then have 1: "reachable_system demo_write_env (demo_at (Running True ?p Begin) [])"
    using demo_step_reachable [OF 0] by (simp add: demo_at_def demo_rq_def timely_def)
  have "demo_step (demo_at (Running True ?p Begin) []) = demo_at (Running True ?p (Held 0)) demo_lease"
    by (simp add: demo_at_def demo_rq_def demo_eval demo_write_defs demo_lease_def)
  then have 2: "reachable_system demo_write_env (demo_at (Running True ?p (Held 0)) demo_lease)"
    using demo_step_reachable [OF 1] by (simp add: demo_at_def demo_rq_def timely_def)
  have "demo_step (demo_at (Running True ?p (Held 0)) demo_lease) = demo_at (Running True ?p (Fresh 0)) demo_lease"
    by (simp add: demo_at_def demo_rq_def demo_eval demo_write_defs)
  then have 3: "reachable_system demo_write_env (demo_at (Running True ?p (Fresh 0)) demo_lease)"
    using demo_step_reachable [OF 2] by (simp add: demo_at_def demo_rq_def timely_def)
  have "demo_step (demo_at (Running True ?p (Fresh 0)) demo_lease) = demo_at (Running True ?p (Cleared 0 None)) demo_lease"
    by (simp add: demo_at_def demo_rq_def demo_eval demo_write_defs)
  then show ?thesis
    using demo_step_reachable [OF 3] by (simp add: demo_at_def demo_rq_def timely_def)
qed



text \<open>
  Timeliness is needed: the lease is not tested again before the file is replaced. A write that was checked at time
  0 and stalls beyond its lease replaces the text another writer landed meanwhile, base versions notwithstanding.
\<close>

lemma expired_writer_overwrites:
  "\<exists>v1 v2 v3 rep. write_step demo_write_env (demo_params ''hold'' ''late'') ''1'' 0 calm Begin (demo_vault ''old'') = (Held 0, v1)
    \<and> write_step demo_write_env (demo_params ''hold'' ''late'') ''1'' 0 calm (Held 0) v1 = (Fresh 0, v1)
    \<and> write_step demo_write_env (demo_params ''hold'' ''late'') ''1'' 0 calm (Fresh 0) v1 = (Cleared 0 None, v1)
    \<and> performWrite demo_write_env (demo_params ''hold'' ''other'') ''2'' 60000 calm v1 = (Finished (Inr rep), v2)
    \<and> vt_files v2 ''a.md'' = Some ''other''
    \<and> write_step demo_write_env (demo_params ''hold'' ''late'') ''1'' 60001 calm (Cleared 0 None) v2 = (Stored None, v3)
    \<and> vt_files v3 ''a.md'' = Some ''late''"
  by (simp add: performWrite_def eval_nat_numeral demo_eval demo_write_defs put_file_def index_file_def commit_file_def
      log_write_def close_write_def finish_def recordProvenance_def commitIdentity_def releaseLock_def)

end
