(* ===== verification/Spec2Isabelle.thy ===== *)
theory Spec2Isabelle
  imports Access Dates Staleness Positions VaultDocs SupersedeChains ChainView TensionTriage BoardEngine IntegrationQueue ServeLimits ProcessLock Ratify ProxyTrust Edges WritePath
begin

text \<open>
  A verification library of \<^verbatim>\<open>daftari\<close>, a server that lets language models and people keep a vault of
  markdown documents together. The program is TypeScript under \<^verbatim>\<open>src/src\<close>; this library models the parts that
  decide what is stored, who may see or change it, and what is reported about it.

  \<^bold>\<open>The program and its parts.\<close> A document is a markdown file with YAML frontmatter. A tool call is checked
  against the caller's role (\<^verbatim>\<open>access\<close>), the frontmatter is validated and serialized (\<^verbatim>\<open>frontmatter\<close>), and the
  bytes are stored under a lease, indexed, committed to git and logged (\<^verbatim>\<open>tools/write.ts\<close>). Around that the
  curation layer (\<^verbatim>\<open>curation\<close>) computes signals (staleness, validity windows, positions, chains of superseded
  documents), keeps a log of tensions between documents, a queue of staged proposals that a person ratifies, and
  a store of derivation edges earned by review. The board (\<^verbatim>\<open>board\<close>) turns findings into one card each. The HTTP
  server adds rate limits (\<^verbatim>\<open>serve\<close>), a lock of the vault by a process (\<^verbatim>\<open>lifecycle\<close>) and a durable queue of
  events from other services (\<^verbatim>\<open>integrations\<close>).

  \<^bold>\<open>Which theory models what.\<close>
  \<^item> \<^verbatim>\<open>Daftari_Base\<close>: the prelude. JavaScript maps and sets with insertion order, strings, sorting by a
    comparator (locale \<open>comparator\<close>), fresh numbered ids (locale \<open>id_allocator\<close>).
  \<^item> \<^verbatim>\<open>Access\<close>: \<^verbatim>\<open>access/rbac.ts\<close>, \<^verbatim>\<open>curation/tension-access.ts\<close> and path canonicalisation. A denied read stays
    denied under every spelling of the path.
  \<^item> \<^verbatim>\<open>Dates\<close>: \<^verbatim>\<open>utils/dates.ts\<close>. Calendar days and timestamps, their printing and parsing.
  \<^item> \<^verbatim>\<open>Frontmatter\<close>, \<^verbatim>\<open>Schema\<close>: \<^verbatim>\<open>frontmatter/types.ts\<close>, the validator of \<^verbatim>\<open>frontmatter/schema.ts\<close> and the serializer
    of \<^verbatim>\<open>tools/write.ts\<close>. What is accepted is well-formed, and what is stored is read back.
  \<^item> \<^verbatim>\<open>Staleness\<close>: \<^verbatim>\<open>curation/staleness.ts\<close>, \<^verbatim>\<open>curation/decay.ts\<close>, \<^verbatim>\<open>curation/validity.ts\<close>.
  \<^item> \<^verbatim>\<open>Walks\<close>, \<^verbatim>\<open>Positions\<close>, \<^verbatim>\<open>SupersedeChains\<close>, \<^verbatim>\<open>ChainView\<close>: walks along \<^verbatim>\<open>superseded_by\<close>, the positions of several
    principals on a claim (\<^verbatim>\<open>curation/positions.ts\<close>), the guard against supersession loops
    (\<^verbatim>\<open>curation/supersede-chains.ts\<close>) and the chains a caller may see (\<^verbatim>\<open>curation/chains.ts\<close>).
  \<^item> \<^verbatim>\<open>VaultDocs\<close>: the document cache and link resolution of \<^verbatim>\<open>curation/vault-docs.ts\<close>, with \<^verbatim>\<open>frontmatter/source-ref.ts\<close>.
  \<^item> \<^verbatim>\<open>FileLocks\<close>, \<^verbatim>\<open>WritePath\<close>, \<^verbatim>\<open>LeakLedger\<close>: the leases of \<^verbatim>\<open>access/locks.ts\<close> (locale \<open>lease_store\<close>), \<^verbatim>\<open>performWrite\<close> as
    one phase per \<^verbatim>\<open>await\<close> so that other requests run in between, and the ledger that keeps a run from
    carrying private reads into a shared vault (\<^verbatim>\<open>curation/leak-ledger.ts\<close>).
  \<^item> \<^verbatim>\<open>TensionText\<close>, \<^verbatim>\<open>TensionRoundtrip\<close>, \<^verbatim>\<open>TensionLog\<close>: the markdown log of \<^verbatim>\<open>curation/tension.ts\<close>: its text, that no value
    can forge an entry, and its operations with their token check.
  \<^item> \<^verbatim>\<open>TensionClusters\<close> (union-find, locale \<open>partition_store\<close>), \<^verbatim>\<open>TensionBlast\<close> (breadth-first search),
    \<^verbatim>\<open>TensionTriage\<close>: the analyses of the tension graph.
  \<^item> \<^verbatim>\<open>BoardLedger\<close>, \<^verbatim>\<open>BoardEngine\<close>: \<^verbatim>\<open>board/identity.ts\<close>, \<^verbatim>\<open>board/ledger.ts\<close>, \<^verbatim>\<open>board/reconcile.ts\<close>, \<^verbatim>\<open>board/board.ts\<close>. One
    card per finding, a run that settles, and an interrupted run that the next one completes.
  \<^item> \<^verbatim>\<open>JsonLines\<close>, \<^verbatim>\<open>StagedActions\<close>, \<^verbatim>\<open>Tier0\<close>, \<^verbatim>\<open>Ratify\<close>: append-only JSON-lines files, the queue of
    \<^verbatim>\<open>curation/staged-actions.ts\<close>, the structural gates of \<^verbatim>\<open>curation/tier0.ts\<close> and the decision of
    \<^verbatim>\<open>tools/staged-actions.ts\<close>.
  \<^item> \<^verbatim>\<open>Edges\<close>: \<^verbatim>\<open>curation/edges.ts\<close> with its table of the index: trust that decays and is bounded per sitting.
  \<^item> \<^verbatim>\<open>IntegrationQueue\<close>, \<^verbatim>\<open>ServeLimits\<close>, \<^verbatim>\<open>ProcessLock\<close>, \<^verbatim>\<open>ProxyTrust\<close>: \<^verbatim>\<open>integrations/queue.ts\<close>, \<^verbatim>\<open>serve/limits.ts\<close>,
    \<^verbatim>\<open>lifecycle/lock.ts\<close>, \<^verbatim>\<open>serve/proxy-trust.ts\<close>.

  \<^bold>\<open>What the groups of lemmas show.\<close> Each component has its invariant and the lemma that every operation keeps
  it; the answer of each operation on every branch; where the code is an optimisation, the equality with a plain
  definition (the cache with a fresh load, the clusters with connected components, the edges of the table with
  those of the log); where a component serves several writers, an invariant over a step relation
  (\<open>system_step\<close> in \<^verbatim>\<open>WritePath\<close>). Lemmas that show a defect are named for it and listed in the manifest.

  \<^bold>\<open>Conventions.\<close> A JavaScript string is its list of UTF-8 bytes, so that order is by code point; a length
  in UTF-16 units is computed where the code measures one. A number read from YAML is a rational, a score a
  rational or a real; rounding of doubles is not modelled. A date is its count of milliseconds, in the years
  0 to 9999. A \<^verbatim>\<open>Map\<close> whose order matters is an association list, every other one a function. Errors are the
  left side of a sum. Reading the clock, drawing a random id and the answers of file system, git and SQLite are
  arguments of the operation or inputs of the step. A JSON value inside a log line stays a value.

  \<^bold>\<open>Parameters.\<close> Code outside the repository is an argument: the hash, \<^verbatim>\<open>JSON.stringify\<close> of keys,
  \<^verbatim>\<open>localeCompare\<close>, \<^verbatim>\<open>isIP\<close>, the YAML reader and writer (\<open>we_matter\<close>, \<open>we_stringify\<close>), the regular expressions of the
  schema and the globs of the ignore list. What a property needs of them is a hypothesis of its statement, and
  its witness instantiates it.

  \<^bold>\<open>Bounds and fuel.\<close> \<open>performWrite\<close> runs at most eight phases, and \<open>phases_left\<close> shows that eight are enough.
  The union-find loops are partial functions, shown to return on every forest. Walks end since the successors
  are finitely many and a visited set is kept. The acquisition of the process lock tries five times as in the
  code. A lease lasts 60 seconds, a document has at most 5 MB, a pattern reads at most 4096 units.

  \<^bold>\<open>Not modelled.\<close> Commands that run language models, git or other programs, or print reports (audit,
  distillation, evaluation, court, sleep, interview); clients of other services; search ranking and embeddings;
  HTML views; the parser of the configuration file; the protocol plumbing of the servers; file permissions,
  symbolic links and the loss of power. \<^verbatim>\<open>vault_ratify\<close> calls the write tools through its environment.
\<close>

end
